(* ===== verification/Prelude.thy ===== *)
theory Prelude
  imports Main "HOL-Library.Word"
begin

text \<open>
  Shared vocabulary of the development: identifiers of threads, memory blocks and locations,
  views (what a thread knows of the memory), and the generic facts on views, on partial maps
  with a greatest key and on lists that the component theories use.
\<close>

section \<open>Identifiers\<close>

text \<open>
  Threads and memory blocks are numbered. A location is a field of a block: \<open>Loc b i\<close> is
  field \<open>i\<close> of block \<open>b\<close>; a Rust \<open>static\<close> or local variable is a block of its own.
\<close>

type_synonym tid = nat

datatype loc = Loc (blk: nat) (fld: nat)

section \<open>Views\<close>

text \<open>
  A view is a vector clock: for every atomic location the least timestamp of its
  modification order that may still be read (\<open>Ts\<close>), and for every thread how many of its
  memory accesses are known to have happened before (\<open>Clk\<close>). Views are ordered and joined
  pointwise by the lattice instance of the function type.
\<close>

datatype vkey = Ts loc | Clk tid

type_synonym view = "vkey \<Rightarrow> nat"

definition at_ts :: "loc \<Rightarrow> nat \<Rightarrow> view" where
  "at_ts l ts = (\<lambda>_. 0)(Ts l := ts)"

lemma at_ts_apply [simp]: "at_ts l ts k = (if k = Ts l then ts else 0)"
  by (simp add: at_ts_def)

declare sup_nat_def [simp] bot_nat_def [simp]

lemma view_le_apply: "(V :: view) \<le> W \<Longrightarrow> V k \<le> W k"
  by (simp add: le_fun_def)

section \<open>Histories: partial maps with a greatest timestamp\<close>

definition last_ts :: "(nat \<Rightarrow> 'm option) \<Rightarrow> nat \<Rightarrow> bool" where
  "last_ts h n \<longleftrightarrow> h n \<noteq> None \<and> (\<forall>k > n. h k = None)"

lemma last_ts_unique: "last_ts h n \<Longrightarrow> last_ts h m \<Longrightarrow> n = m"
  unfolding last_ts_def by (metis linorder_neqE_nat)

lemma last_ts_upd_new: "last_ts h n \<Longrightarrow> n < k \<Longrightarrow> last_ts (h(k \<mapsto> m)) k"
  by (auto simp: last_ts_def)

lemma last_ts_upd_old: "last_ts h n \<Longrightarrow> k \<le> n \<Longrightarrow> last_ts (h(k \<mapsto> m)) n"
  by (auto simp: last_ts_def)

lemma last_ts_Suc_free: "last_ts h n \<Longrightarrow> h (Suc n) = None"
  by (simp add: last_ts_def)

lemma last_ts_bound: "last_ts h n \<Longrightarrow> h k = Some m \<Longrightarrow> k \<le> n"
  by (metis last_ts_def not_le option.distinct(1))

text \<open>
  The history of a location that only read-modify-writes change has no gaps: a new message can
  only follow the last one.
\<close>

definition chain :: "(nat \<Rightarrow> 'm option) \<Rightarrow> nat \<Rightarrow> bool" where
  "chain h n \<longleftrightarrow> (\<forall>k \<le> n. h k \<noteq> None) \<and> (\<forall>k > n. h k = None)"

lemma chain_le: "chain h n \<Longrightarrow> h k = Some m \<Longrightarrow> k \<le> n"
  unfolding chain_def by (metis not_le option.distinct(1))

lemma chain_last: "chain h n \<Longrightarrow> h k = Some m \<Longrightarrow> h (Suc k) = None \<Longrightarrow> k = n"
  using chain_le [of h n k m] unfolding chain_def by (metis Suc_leI le_neq_implies_less)

lemma chain_Some: "chain h n \<Longrightarrow> k \<le> n \<Longrightarrow> \<exists>m. h k = Some m"
  unfolding chain_def by (metis not_None_eq)

lemma chain_upd: "chain h n \<Longrightarrow> chain (h(Suc n \<mapsto> m)) (Suc n)"
  by (auto simp: chain_def le_Suc_eq)

lemma chain_0: "chain [0 \<mapsto> m] 0"
  by (simp add: chain_def)

section \<open>Sums over threads\<close>

lemma sum_upd:
  fixes f :: "'s \<Rightarrow> 'm :: comm_monoid_add" and n :: nat
  assumes "t < n"
  shows "(\<Sum>u<n. f ((S(t := x)) u)) + f (S t) = (\<Sum>u<n. f (S u)) + f x"
proof -
  have split: "(\<Sum>u<n. g u) = g t + (\<Sum>u \<in> {..<n} - {t}. g u)" for g :: "nat \<Rightarrow> 'm"
    using assms by (intro sum.remove) auto
  have "(\<Sum>u \<in> {..<n} - {t}. f ((S(t := x)) u)) = (\<Sum>u \<in> {..<n} - {t}. f (S u))"
    by (rule sum.cong) auto
  then show ?thesis
    using split [of "\<lambda>u. f ((S(t := x)) u)"] split [of "\<lambda>u. f (S u)"] by (simp add: ac_simps)
qed

lemma sum_upd_new:
  fixes n :: nat
  shows "(\<Sum>u<n. f ((S(n := x)) u)) = (\<Sum>u<n. f (S u))"
  by (rule sum.cong) auto

section \<open>Signed reading of words\<close>

lemma uint_less_unat: "unat w < n \<Longrightarrow> uint w < int n"
  unfolding uint_nat by (simp only: of_nat_less_iff)

lemma sint_small:
  assumes "unat (w :: 32 word) < 2 ^ 31"
  shows "sint w = uint w"
  using uint_less_unat [OF assms]
  by (simp add: sint_uint signed_take_bit_int_eq_self order_trans [of _ 0])

end
