(* ===== verification/Rust_Prog.thy ===== *)
theory Rust_Prog
  imports Prelude
begin

text \<open>
  The shallow embedding of Rust programs: values, memory orderings, the primitive
  instructions a thread can issue (atomic and non-atomic accesses, fences, allocation,
  threads, parking, locks of the standard library, futex system calls), and programs as
  possibly infinite interaction trees over these instructions. Rust's control flow
  (sequencing, \<open>loop\<close>, \<open>while\<close>, \<open>for\<close>) and the methods of \<open>std::sync::atomic\<close> are
  combinators on trees, so that a Rust function is one definition.
\<close>

section \<open>Values\<close>

text \<open>
  Machine integers keep their width. \<open>VT x\<close> is a value of the type parameter \<open>T\<close> of a
  generic container; \<open>Uninit\<close> is the content of \<open>MaybeUninit::uninit()\<close>.
\<close>

datatype 'a val =
    Uninit
  | VUnit
  | VBool bool
  | VU8 "8 word"
  | VU32 "32 word"
  | VI32 "32 word"
  | VU64 "64 word"
  | VUsize "64 word"
  | VPtr "nat option"
  | VTid tid
  | VStr string
  | VList "'a val list"
  | VT 'a

fun as_bool :: "'a val \<Rightarrow> bool" where
  "as_bool (VBool b) = b"
| "as_bool _ = False"

fun as_u32 :: "'a val \<Rightarrow> 32 word" where
  "as_u32 (VU32 w) = w"
| "as_u32 _ = 0"

fun as_i32 :: "'a val \<Rightarrow> 32 word" where
  "as_i32 (VI32 w) = w"
| "as_i32 _ = 0"

fun as_u64 :: "'a val \<Rightarrow> 64 word" where
  "as_u64 (VU64 w) = w"
| "as_u64 _ = 0"

fun as_usize :: "'a val \<Rightarrow> 64 word" where
  "as_usize (VUsize w) = w"
| "as_usize _ = 0"

fun as_ptr :: "'a val \<Rightarrow> nat option" where
  "as_ptr (VPtr p) = p"
| "as_ptr _ = None"

fun as_tid :: "'a val \<Rightarrow> tid" where
  "as_tid (VTid t) = t"
| "as_tid _ = 0"

fun as_list :: "'a val \<Rightarrow> 'a val list" where
  "as_list (VList vs) = vs"
| "as_list _ = []"

fun as_str :: "'a val \<Rightarrow> string" where
  "as_str (VStr s) = s"
| "as_str _ = []"

text \<open>The wrapping arithmetic of \<open>fetch_add\<close>, \<open>fetch_sub\<close> and \<open>fetch_max\<close>.\<close>

definition vadd :: "'a val \<Rightarrow> 'a val \<Rightarrow> 'a val" where
  "vadd v n = (case v of
     VU8 a \<Rightarrow> (case n of VU8 b \<Rightarrow> VU8 (a + b) | _ \<Rightarrow> v)
   | VU32 a \<Rightarrow> (case n of VU32 b \<Rightarrow> VU32 (a + b) | _ \<Rightarrow> v)
   | VI32 a \<Rightarrow> (case n of VI32 b \<Rightarrow> VI32 (a + b) | _ \<Rightarrow> v)
   | VU64 a \<Rightarrow> (case n of VU64 b \<Rightarrow> VU64 (a + b) | _ \<Rightarrow> v)
   | VUsize a \<Rightarrow> (case n of VUsize b \<Rightarrow> VUsize (a + b) | _ \<Rightarrow> v)
   | _ \<Rightarrow> v)"

definition vsub :: "'a val \<Rightarrow> 'a val \<Rightarrow> 'a val" where
  "vsub v n = (case v of
     VU8 a \<Rightarrow> (case n of VU8 b \<Rightarrow> VU8 (a - b) | _ \<Rightarrow> v)
   | VU32 a \<Rightarrow> (case n of VU32 b \<Rightarrow> VU32 (a - b) | _ \<Rightarrow> v)
   | VI32 a \<Rightarrow> (case n of VI32 b \<Rightarrow> VI32 (a - b) | _ \<Rightarrow> v)
   | VU64 a \<Rightarrow> (case n of VU64 b \<Rightarrow> VU64 (a - b) | _ \<Rightarrow> v)
   | VUsize a \<Rightarrow> (case n of VUsize b \<Rightarrow> VUsize (a - b) | _ \<Rightarrow> v)
   | _ \<Rightarrow> v)"

definition vmax :: "'a val \<Rightarrow> 'a val \<Rightarrow> 'a val" where
  "vmax v n = (case v of VU64 a \<Rightarrow> (case n of VU64 b \<Rightarrow> VU64 (max a b) | _ \<Rightarrow> v) | _ \<Rightarrow> v)"

lemma varith_simps [simp]:
  "vadd (VU32 a) (VU32 b) = VU32 (a + b)" "vsub (VU32 a) (VU32 b) = VU32 (a - b)"
  "vadd (VI32 a) (VI32 b) = VI32 (a + b)" "vsub (VI32 a) (VI32 b) = VI32 (a - b)"
  "vadd (VU64 c) (VU64 d) = VU64 (c + d)" "vsub (VU64 c) (VU64 d) = VU64 (c - d)"
  "vadd (VUsize c) (VUsize d) = VUsize (c + d)" "vsub (VUsize c) (VUsize d) = VUsize (c - d)"
  "vmax (VU64 c) (VU64 d) = VU64 (max c d)"
  by (simp_all add: vadd_def vsub_def vmax_def)

section \<open>Memory orderings\<close>

datatype ordering = Relaxed | Acquire | Release | AcqRel | SeqCst

primrec acquires :: "ordering \<Rightarrow> bool" where
  "acquires Relaxed = False"
| "acquires Acquire = True"
| "acquires Release = False"
| "acquires AcqRel = True"
| "acquires SeqCst = True"

primrec releases :: "ordering \<Rightarrow> bool" where
  "releases Relaxed = False"
| "releases Acquire = False"
| "releases Release = True"
| "releases AcqRel = True"
| "releases SeqCst = True"

section \<open>Instructions and responses\<close>

text \<open>
  \<open>IRmw os of1 weak l f\<close> is every read-modify-write: it reads \<open>v\<close> and writes \<open>v'\<close> when
  \<open>f v = Some v'\<close>, with success ordering \<open>os\<close>; when \<open>f v = None\<close> (a failed comparison) or,
  for the weak form, spuriously, it is a load with failure ordering \<open>of1\<close>. \<open>IWait\<close> and
  \<open>IWake\<close> are the futex system calls.
\<close>

datatype 'a instr =
    ILoad ordering loc
  | IStore ordering loc "'a val"
  | IRmw ordering ordering bool loc "'a val \<Rightarrow> 'a val option"
  | IFence ordering
  | IGetMut loc
  | ISetMut loc "'a val"
  | IRead loc
  | IWrite loc "'a val"
  | IDrop loc
  | IAlloc "'a val list"
  | IFree nat
  | ISpawn "'a val"
  | IJoin tid
  | IPark
  | IUnpark tid
  | IMLock nat
  | IMUnlock nat
  | ICvPark nat nat
  | ICvWoken nat
  | ICvNotify nat
  | IWait loc "'a val"
  | IWake loc
  | IInput
  | IPrint "'a val"
  | ICurrent
  | ITau

datatype 'a resp =
    RVal (rval: "'a val")
  | RCas (rok: bool) (rval: "'a val")

text \<open>The responses an instruction can have at all.\<close>

fun shape :: "'a instr \<Rightarrow> 'a resp \<Rightarrow> bool" where
  "shape (IRmw os of1 w l f) (RCas b v) = (if b then f v \<noteq> None else w \<or> f v = None)"
| "shape (IRmw os of1 w l f) (RVal v) = False"
| "shape i (RVal v) = True"
| "shape i (RCas b v) = False"

section \<open>Programs\<close>

codatatype ('a, 'r) prog =
    Ret (result: 'r)
  | Panic string
  | Abort
  | Do "'a instr" "'a resp \<Rightarrow> ('a, 'r) prog"

primcorec bindp :: "('a, 'r) prog \<Rightarrow> ('r \<Rightarrow> ('a, 's) prog) \<Rightarrow> ('a, 's) prog" where
  "bindp p f = (case p of
      Ret x \<Rightarrow> f x
    | Panic s \<Rightarrow> Panic s
    | Abort \<Rightarrow> Abort
    | Do i k \<Rightarrow> Do i (\<lambda>r. bindp (k r) f))"

lemma bindp_simps [simp]:
  "bindp (Ret x) f = f x"
  "bindp (Panic s) f = Panic s"
  "bindp Abort f = Abort"
  "bindp (Do i k) f = Do i (\<lambda>r. bindp (k r) f)"
  by (simp_all add: bindp.code)

text \<open>
  \<open>loop_from body p\<close> runs \<open>p\<close>; when it yields \<open>Inl s\<close> the loop continues with \<open>body s\<close>
  (through a silent step, the back edge), when it yields \<open>Inr x\<close> the loop breaks with \<open>x\<close>.
\<close>

primcorec loop_from :: "('s \<Rightarrow> ('a, 's + 'r) prog) \<Rightarrow> ('a, 's + 'r) prog \<Rightarrow> ('a, 'r) prog" where
  "loop_from body p = (case p of
      Ret x \<Rightarrow> (case x of Inl s \<Rightarrow> Do ITau (\<lambda>_. loop_from body (body s)) | Inr y \<Rightarrow> Ret y)
    | Panic s \<Rightarrow> Panic s
    | Abort \<Rightarrow> Abort
    | Do i k \<Rightarrow> Do i (\<lambda>r. loop_from body (k r)))"

lemma loop_from_simps [simp]:
  "loop_from body (Ret (Inl s)) = Do ITau (\<lambda>_. loop_from body (body s))"
  "loop_from body (Ret (Inr y)) = Ret y"
  "loop_from body (Panic m) = Panic m"
  "loop_from body Abort = Abort"
  "loop_from body (Do i k) = Do i (\<lambda>r. loop_from body (k r))"
  by (simp_all add: loop_from.code)

definition loop :: "('s \<Rightarrow> ('a, 's + 'r) prog) \<Rightarrow> 's \<Rightarrow> ('a, 'r) prog" where
  "loop body s = loop_from body (body s)"

definition while_do :: "('a, bool) prog \<Rightarrow> ('a, unit) prog \<Rightarrow> ('a, unit) prog" where
  "while_do cond body =
     loop (\<lambda>_. bindp cond (\<lambda>b. if b then bindp body (\<lambda>_. Ret (Inl ())) else Ret (Inr ()))) ()"

text \<open>\<open>for i in lo..hi { body }\<close>: bounded, so it needs no back edge.\<close>

fun for_list :: "'i list \<Rightarrow> ('i \<Rightarrow> ('a, unit) prog) \<Rightarrow> ('a, unit) prog" where
  "for_list [] body = Ret ()"
| "for_list (i # is) body = bindp (body i) (\<lambda>_. for_list is body)"

definition for_range :: "nat \<Rightarrow> nat \<Rightarrow> (nat \<Rightarrow> ('a, unit) prog) \<Rightarrow> ('a, unit) prog" where
  "for_range lo hi body = for_list [lo..<hi] body"

lemma for_range_unroll: "lo < hi \<Longrightarrow> for_range lo hi body = bindp (body lo) (\<lambda>_. for_range (Suc lo) hi body)"
  by (simp add: for_range_def upt_conv_Cons)

text \<open>\<open>seqp p q\<close> is \<open>p; q\<close>.\<close>

definition seqp :: "('a, 'r) prog \<Rightarrow> ('a, 's) prog \<Rightarrow> ('a, 's) prog" where
  "seqp p q = bindp p (\<lambda>_. q)"

text \<open>Programs form a monad.\<close>

lemma bindp_assoc: "bindp (bindp p f) g = bindp p (\<lambda>x. bindp (f x) g)"
proof (coinduction arbitrary: p rule: prog.coinduct_strong)
  case (Eq_prog p)
  show ?case
    by (cases p) (auto simp: rel_fun_def)
qed

lemma bindp_Ret [simp]: "bindp p Ret = p"
proof (coinduction arbitrary: p rule: prog.coinduct_strong)
  case (Eq_prog p)
  show ?case
    by (cases p) (auto simp: rel_fun_def)
qed

lemma loop_from_bindp: "loop_from body (bindp p f) = bindp p (\<lambda>x. loop_from body (f x))"
proof (coinduction arbitrary: p rule: prog.coinduct_strong)
  case (Eq_prog p)
  show ?case by (cases p) (auto simp: rel_fun_def)
qed

text \<open>The first iteration of a loop, for concrete executions.\<close>

lemma loop_first: "\<exists>q. loop body s = bindp (body s) q \<and> (\<forall>x. q (Inr x) = Ret x)"
  using loop_from_bindp [of body "body s" Ret] by (intro exI [of _ "\<lambda>x. loop_from body (Ret x)"]) (simp add: loop_def)

lemma seqp_assoc: "seqp (seqp p q) s = seqp p (seqp q s)"
  by (simp add: seqp_def bindp_assoc)

section \<open>The standard library's atomics, cells, threads and parking\<close>

definition load :: "loc \<Rightarrow> ordering \<Rightarrow> ('a, 'a val) prog" where
  "load l o1 = Do (ILoad o1 l) (\<lambda>r. Ret (rval r))"

definition store :: "loc \<Rightarrow> 'a val \<Rightarrow> ordering \<Rightarrow> ('a, unit) prog" where
  "store l v o1 = Do (IStore o1 l v) (\<lambda>_. Ret ())"

definition swap :: "loc \<Rightarrow> 'a val \<Rightarrow> ordering \<Rightarrow> ('a, 'a val) prog" where
  "swap l v o1 = Do (IRmw o1 Relaxed False l (\<lambda>_. Some v)) (\<lambda>r. Ret (rval r))"

definition fetch_add :: "loc \<Rightarrow> 'a val \<Rightarrow> ordering \<Rightarrow> ('a, 'a val) prog" where
  "fetch_add l n o1 = Do (IRmw o1 Relaxed False l (\<lambda>v. Some (vadd v n))) (\<lambda>r. Ret (rval r))"

definition fetch_sub :: "loc \<Rightarrow> 'a val \<Rightarrow> ordering \<Rightarrow> ('a, 'a val) prog" where
  "fetch_sub l n o1 = Do (IRmw o1 Relaxed False l (\<lambda>v. Some (vsub v n))) (\<lambda>r. Ret (rval r))"

definition fetch_max :: "loc \<Rightarrow> 'a val \<Rightarrow> ordering \<Rightarrow> ('a, 'a val) prog" where
  "fetch_max l n o1 = Do (IRmw o1 Relaxed False l (\<lambda>v. Some (vmax v n))) (\<lambda>r. Ret (rval r))"

text \<open>\<open>Result\<close> is a sum: \<open>Inr old\<close> is \<open>Ok(old)\<close>, \<open>Inl actual\<close> is \<open>Err(actual)\<close>.\<close>

definition cas_result :: "'a resp \<Rightarrow> 'a val + 'a val" where
  "cas_result r = (if rok r then Inr (rval r) else Inl (rval r))"

definition compare_exchange ::
    "loc \<Rightarrow> 'a val \<Rightarrow> 'a val \<Rightarrow> ordering \<Rightarrow> ordering \<Rightarrow> ('a, 'a val + 'a val) prog" where
  "compare_exchange l e n os of1 =
     Do (IRmw os of1 False l (\<lambda>v. if v = e then Some n else None)) (\<lambda>r. Ret (cas_result r))"

definition compare_exchange_weak ::
    "loc \<Rightarrow> 'a val \<Rightarrow> 'a val \<Rightarrow> ordering \<Rightarrow> ordering \<Rightarrow> ('a, 'a val + 'a val) prog" where
  "compare_exchange_weak l e n os of1 =
     Do (IRmw os of1 True l (\<lambda>v. if v = e then Some n else None)) (\<lambda>r. Ret (cas_result r))"

definition is_err :: "'e + 'r \<Rightarrow> bool" where
  "is_err x = isl x"

definition is_ok :: "'e + 'r \<Rightarrow> bool" where
  "is_ok x = (\<not> isl x)"

definition fence :: "ordering \<Rightarrow> ('a, unit) prog" where
  "fence o1 = Do (IFence o1) (\<lambda>_. Ret ())"

text \<open>\<open>compiler_fence\<close>, \<open>spin_loop\<close> and \<open>sleep\<close> have no effect on memory.\<close>

definition tau :: "('a, unit) prog" where
  "tau = Do ITau (\<lambda>_. Ret ())"

definition compiler_fence :: "ordering \<Rightarrow> ('a, unit) prog" where
  "compiler_fence o1 = tau"

definition spin_loop :: "('a, unit) prog" where
  "spin_loop = tau"

definition sleep :: "('a, unit) prog" where
  "sleep = tau"

text \<open>
  \<open>get_mut\<close> of an atomic and assignment to it through \<open>&mut\<close>: exclusive access without an
  atomic operation.
\<close>

definition get_mut_atomic :: "loc \<Rightarrow> ('a, 'a val) prog" where
  "get_mut_atomic l = Do (IGetMut l) (\<lambda>r. Ret (rval r))"

definition set_mut_atomic :: "loc \<Rightarrow> 'a val \<Rightarrow> ('a, unit) prog" where
  "set_mut_atomic l v = Do (ISetMut l v) (\<lambda>_. Ret ())"

definition read_cell :: "loc \<Rightarrow> ('a, 'a val) prog" where
  "read_cell l = Do (IRead l) (\<lambda>r. Ret (rval r))"

definition write_cell :: "loc \<Rightarrow> 'a val \<Rightarrow> ('a, unit) prog" where
  "write_cell l v = Do (IWrite l v) (\<lambda>_. Ret ())"

definition drop_in_place :: "loc \<Rightarrow> ('a, unit) prog" where
  "drop_in_place l = Do (IDrop l) (\<lambda>_. Ret ())"

definition alloc :: "'a val list \<Rightarrow> ('a, nat) prog" where
  "alloc vs = Do (IAlloc vs) (\<lambda>r. Ret (the (as_ptr (rval r))))"

definition dealloc :: "nat \<Rightarrow> ('a, unit) prog" where
  "dealloc b = Do (IFree b) (\<lambda>_. Ret ())"

definition spawn :: "'a val \<Rightarrow> ('a, tid) prog" where
  "spawn a = Do (ISpawn a) (\<lambda>r. Ret (as_tid (rval r)))"

definition join :: "tid \<Rightarrow> ('a, unit) prog" where
  "join t = Do (IJoin t) (\<lambda>_. Ret ())"

text \<open>
  \<open>thread::scope\<close>: the threads spawned in the scope are joined at its end, and a list of handles
  is joined in order.
\<close>

fun spawn_all :: "'a val list \<Rightarrow> ('a, tid list) prog" where
  "spawn_all [] = Ret []"
| "spawn_all (a # as) = bindp (spawn a) (\<lambda>t. bindp (spawn_all as) (\<lambda>ts. Ret (t # ts)))"

definition join_all :: "tid list \<Rightarrow> ('a, unit) prog" where
  "join_all ts = for_list ts join"

definition park :: "('a, unit) prog" where
  "park = Do IPark (\<lambda>_. Ret ())"

definition unpark :: "tid \<Rightarrow> ('a, unit) prog" where
  "unpark t = Do (IUnpark t) (\<lambda>_. Ret ())"

definition current :: "('a, tid) prog" where
  "current = Do ICurrent (\<lambda>r. Ret (as_tid (rval r)))"

definition println :: "'a val \<Rightarrow> ('a, unit) prog" where
  "println v = Do (IPrint v) (\<lambda>_. Ret ())"

definition input :: "('a, 'a val) prog" where
  "input = Do IInput (\<lambda>r. Ret (rval r))"

text \<open>\<open>*d += n\<close> on an \<open>i32\<close>: the addition of the development profile panics on overflow.\<close>

definition i32_add :: "32 word \<Rightarrow> 32 word \<Rightarrow> ('a, 32 word) prog" where
  "i32_add a b = (let n = sint a + sint b in
     if - (2 ^ 31) \<le> n \<and> n < 2 ^ 31 then Ret (a + b) else Panic ''attempt to add with overflow'')"

definition add_assign_i32 :: "loc \<Rightarrow> 32 word \<Rightarrow> ('a, unit) prog" where
  "add_assign_i32 d n = bindp (read_cell d) (\<lambda>v. bindp (i32_add (as_i32 v) n) (\<lambda>w. write_cell d (VI32 w)))"

text \<open>\<open>Vec::push\<close> and \<open>String::push\<close> on the vector in a cell.\<close>

definition vec_push :: "loc \<Rightarrow> 'a val \<Rightarrow> ('a, unit) prog" where
  "vec_push d v = bindp (read_cell d) (\<lambda>vs. write_cell d (VList (as_list vs @ [v])))"

text \<open>\<open>String::push_str\<close> on the string in a cell.\<close>

definition push_str :: "loc \<Rightarrow> string \<Rightarrow> ('a, unit) prog" where
  "push_str d s = bindp (read_cell d) (\<lambda>v. write_cell d (VStr (as_str v @ s)))"

lemma i32_add_1:
  assumes "unat w < 2 ^ 31 - 1"
  shows "i32_add w 1 = Ret (w + 1)"
  using uint_less_unat [OF assms] sint_small [of w] assms by (simp add: i32_add_def order_trans [of _ 0])

text \<open>The futex calls of the \<open>atomic_wait\<close> crate and of \<open>libc::syscall\<close>.\<close>

definition wait :: "loc \<Rightarrow> 'a val \<Rightarrow> ('a, unit) prog" where
  "wait l v = Do (IWait l v) (\<lambda>_. Ret ())"

definition wake_one :: "loc \<Rightarrow> ('a, unit) prog" where
  "wake_one l = Do (IWake l) (\<lambda>_. Ret ())"

text \<open>\<open>std::sync::Mutex\<close> (without poisoning) and \<open>std::sync::Condvar\<close>.\<close>

definition mutex_lock :: "nat \<Rightarrow> ('a, unit) prog" where
  "mutex_lock m = Do (IMLock m) (\<lambda>_. Ret ())"

definition mutex_unlock :: "nat \<Rightarrow> ('a, unit) prog" where
  "mutex_unlock m = Do (IMUnlock m) (\<lambda>_. Ret ())"

definition cv_wait :: "nat \<Rightarrow> nat \<Rightarrow> ('a, unit) prog" where
  "cv_wait cv m = Do (ICvPark cv m) (\<lambda>_. Do (ICvWoken cv) (\<lambda>_. mutex_lock m))"

definition cv_notify_one :: "nat \<Rightarrow> ('a, unit) prog" where
  "cv_notify_one cv = Do (ICvNotify cv) (\<lambda>_. Ret ())"

definition assert_that :: "bool \<Rightarrow> string \<Rightarrow> ('a, unit) prog" where
  "assert_that b msg = (if b then Ret () else Panic msg)"

lemmas std_defs = load_def store_def swap_def fetch_add_def fetch_sub_def fetch_max_def
  compare_exchange_def compare_exchange_weak_def fence_def tau_def compiler_fence_def
  spin_loop_def sleep_def get_mut_atomic_def set_mut_atomic_def read_cell_def write_cell_def drop_in_place_def alloc_def dealloc_def
  spawn_def join_def park_def unpark_def current_def println_def input_def wait_def
  wake_one_def mutex_lock_def mutex_unlock_def cv_wait_def cv_notify_one_def

end
