(* ===== verification/Rust_Mem.thy ===== *)
theory Rust_Mem
  imports Rust_Prog
begin

text \<open>
  The memory of a Rust process under the release/acquire fragment of the C++20 memory model
  that Rust adopts, given operationally: every atomic location keeps its modification order
  as messages at timestamps, every thread has a view, a release write publishes the view of
  its thread in its message and an acquire read takes the message's view over. Non-atomic
  accesses are checked for data races and for use after free; a violation is recorded in the
  flag \<open>ub\<close> (undefined behaviour). What a read may see, which timestamp a write gets, and
  whether a weak compare-and-exchange or a wake-up is spurious is an argument (\<open>choice\<close>), so
  all operations are executable functions and all their behaviours are covered by quantifying
  over the argument.
\<close>

section \<open>State\<close>

record 'a msg =
  mval :: "'a val"
  mview :: view

datatype akind = NaRead | NaWrite | AtRead | AtWrite

fun conflicting :: "akind \<Rightarrow> akind \<Rightarrow> bool" where
  "conflicting NaWrite k = True"
| "conflicting k NaWrite = True"
| "conflicting NaRead AtWrite = True"
| "conflicting AtWrite NaRead = True"
| "conflicting k k' = False"

type_synonym access = "tid \<times> nat \<times> akind"

text \<open>
  \<open>hist\<close>: the messages of each atomic location by timestamp; \<open>cell\<close>: the contents of
  non-atomic locations; \<open>log\<close>: every access to a location, as the thread, its clock and the
  kind; \<open>cur\<close> and \<open>pend\<close>: what a thread has observed, and what it has read from messages
  without acquiring (an acquire fence takes it over); \<open>scv\<close>: the latest sequentially
  consistent access; \<open>token\<close>: the token of \<open>park\<close> with the view of its \<open>unpark\<close>; \<open>mheld\<close>,
  \<open>mvw\<close>, \<open>cvq\<close>: locks and condition variables of the standard library; \<open>drops\<close>: the values
  dropped; \<open>out\<close>: the output.
\<close>

record 'a mem =
  hist :: "loc \<Rightarrow> nat \<Rightarrow> 'a msg option"
  cell :: "loc \<Rightarrow> 'a val"
  log :: "loc \<Rightarrow> access list"
  cur :: "tid \<Rightarrow> view"
  pend :: "tid \<Rightarrow> view"
  scv :: "loc \<Rightarrow> nat"
  token :: "tid \<Rightarrow> view option"
  mheld :: "nat \<Rightarrow> tid option"
  mvw :: "nat \<Rightarrow> view"
  cvq :: "nat \<Rightarrow> tid list"
  nthreads :: nat
  nblocks :: nat
  bsize :: "nat \<Rightarrow> nat"
  freed :: "nat \<Rightarrow> bool"
  drops :: "'a val list"
  out :: "'a val list"
  ub :: bool

datatype 'a choice = Choice (ch_ts: nat) (ch_flag: bool) (ch_val: "'a val")

text \<open>
  The futex is a service of the operating system: \<open>fx M t l v\<close> says whether the call
  \<open>wait(l, v)\<close> of thread \<open>t\<close> may return in memory \<open>M\<close>. It is a parameter of the machine.
\<close>

type_synonym 'a futex = "'a mem \<Rightarrow> tid \<Rightarrow> loc \<Rightarrow> 'a val \<Rightarrow> bool"

section \<open>Accesses and races\<close>

definition races :: "akind \<Rightarrow> view \<Rightarrow> access list \<Rightarrow> bool" where
  "races k V es = list_ex (\<lambda>(t, n, k'). conflicting k k' \<and> V (Clk t) < n) es"

definition touch :: "akind \<Rightarrow> tid \<Rightarrow> loc \<Rightarrow> 'a mem \<Rightarrow> 'a mem" where
  "touch k t l M = (let n = Suc (cur M t (Clk t)) in
     M\<lparr>ub := ub M \<or> freed M (blk l) \<or> races k (cur M t) (log M l),
       log := (log M)(l := (t, n, k) # log M l),
       cur := (cur M)(t := (cur M t)(Clk t := n))\<rparr>)"

text \<open>Reading a message with view \<open>V\<close> at timestamp \<open>ts\<close>, or writing one there.\<close>

definition observe :: "ordering \<Rightarrow> tid \<Rightarrow> loc \<Rightarrow> nat \<Rightarrow> view \<Rightarrow> 'a mem \<Rightarrow> 'a mem" where
  "observe o1 t l ts V M =
     M\<lparr>cur := (cur M)(t := sup (sup (cur M t) (at_ts l ts)) (if acquires o1 then V else bot)),
       pend := (pend M)(t := sup (pend M t) V),
       scv := (if o1 = SeqCst then (scv M)(l := max (scv M l) ts) else scv M)\<rparr>"

definition readable :: "ordering \<Rightarrow> tid \<Rightarrow> loc \<Rightarrow> nat \<Rightarrow> 'a mem \<Rightarrow> bool" where
  "readable o1 t l ts M \<longleftrightarrow> cur M t (Ts l) \<le> ts \<and> (o1 = SeqCst \<longrightarrow> scv M l \<le> ts)"

definition post :: "loc \<Rightarrow> nat \<Rightarrow> 'a val \<Rightarrow> view \<Rightarrow> 'a mem \<Rightarrow> 'a mem" where
  "post l ts v V M = M\<lparr>hist := (hist M)(l := (hist M l)(ts \<mapsto> \<lparr>mval = v, mview = V\<rparr>))\<rparr>"

definition released :: "ordering \<Rightarrow> tid \<Rightarrow> loc \<Rightarrow> nat \<Rightarrow> 'a mem \<Rightarrow> view" where
  "released o1 t l ts M = (if releases o1 then cur M t else at_ts l ts)"

section \<open>Atomic operations\<close>

definition m_load :: "nat \<Rightarrow> tid \<Rightarrow> ordering \<Rightarrow> loc \<Rightarrow> 'a mem \<Rightarrow> ('a val \<times> 'a mem) option" where
  "m_load ts t o1 l M = (case hist M l ts of
      None \<Rightarrow> None
    | Some m \<Rightarrow>
        if readable o1 t l ts M
        then Some (mval m, observe o1 t l ts (mview m) (touch AtRead t l M))
        else None)"

definition m_store :: "nat \<Rightarrow> tid \<Rightarrow> ordering \<Rightarrow> loc \<Rightarrow> 'a val \<Rightarrow> 'a mem \<Rightarrow> 'a mem option" where
  "m_store ts t o1 l v M =
     (if hist M l ts = None \<and> cur M t (Ts l) < ts \<and> (o1 = SeqCst \<longrightarrow> scv M l < ts)
      then let M' = observe o1 t l ts bot (touch AtWrite t l M)
           in Some (post l ts v (released o1 t l ts M') M')
      else None)"

text \<open>
  A successful read-modify-write takes the timestamp next to the message it read, so that no
  write comes between, and its message continues the release sequence of that message.
\<close>

definition m_rmw :: "nat \<Rightarrow> bool \<Rightarrow> tid \<Rightarrow> ordering \<Rightarrow> ordering \<Rightarrow> loc \<Rightarrow> ('a val \<Rightarrow> 'a val option) \<Rightarrow>
    'a mem \<Rightarrow> (bool \<times> 'a val \<times> 'a mem) option" where
  "m_rmw ts spurious t os of1 l f M = (case hist M l ts of
      None \<Rightarrow> None
    | Some m \<Rightarrow>
       (case (if spurious then None else f (mval m)) of
          None \<Rightarrow> map_option (\<lambda>(v, M'). (False, v, M')) (m_load ts t of1 l M)
        | Some v' \<Rightarrow>
            if hist M l (Suc ts) = None \<and> readable os t l ts M
            then let M' = observe os t l (Suc ts) (mview m) (touch AtWrite t l M)
                 in Some (True, mval m,
                      post l (Suc ts) v' (sup (mview m) (released os t l (Suc ts) M')) M')
            else None))"

definition m_fence :: "tid \<Rightarrow> ordering \<Rightarrow> 'a mem \<Rightarrow> 'a mem" where
  "m_fence t o1 M =
     (if acquires o1 then M\<lparr>cur := (cur M)(t := sup (cur M t) (pend M t))\<rparr> else M)"

text \<open>
  Exclusive access (\<open>get_mut\<close>): it must not race with any access, and then the thread knows
  the last message, which an assignment replaces.
\<close>

definition m_get_mut :: "tid \<Rightarrow> loc \<Rightarrow> 'a mem \<Rightarrow> ('a val \<times> 'a mem) option" where
  "m_get_mut t l M =
     map_option (\<lambda>m. (mval m, touch NaWrite t l M)) (hist M l (cur M t (Ts l)))"

definition m_set_mut :: "tid \<Rightarrow> loc \<Rightarrow> 'a val \<Rightarrow> 'a mem \<Rightarrow> 'a mem" where
  "m_set_mut t l v M = (touch NaWrite t l M)
     \<lparr>hist := (hist M)(l := (hist M l)(cur M t (Ts l) \<mapsto> \<lparr>mval = v, mview = bot\<rparr>))\<rparr>"

section \<open>Non-atomic operations and allocation\<close>

text \<open>Reading or dropping an uninitialised value is undefined behaviour.\<close>

definition m_read :: "tid \<Rightarrow> loc \<Rightarrow> 'a mem \<Rightarrow> 'a mem" where
  "m_read t l M = (touch NaRead t l M)\<lparr>ub := ub (touch NaRead t l M) \<or> cell M l = Uninit\<rparr>"

definition m_write :: "tid \<Rightarrow> loc \<Rightarrow> 'a val \<Rightarrow> 'a mem \<Rightarrow> 'a mem" where
  "m_write t l v M = (touch NaWrite t l M)\<lparr>cell := (cell M)(l := v)\<rparr>"

definition m_drop :: "tid \<Rightarrow> loc \<Rightarrow> 'a mem \<Rightarrow> 'a mem" where
  "m_drop t l M = (touch NaWrite t l M)
     \<lparr>ub := ub (touch NaWrite t l M) \<or> cell M l = Uninit,
      cell := (cell M)(l := Uninit), drops := cell M l # drops M\<rparr>"

definition m_alloc :: "tid \<Rightarrow> 'a val list \<Rightarrow> 'a mem \<Rightarrow> 'a mem" where
  "m_alloc t vs M = (let b = nblocks M; n = Suc (cur M t (Clk t)) in
     M\<lparr>hist := (\<lambda>l. if blk l = b \<and> fld l < length vs
                    then (hist M l)(0 \<mapsto> \<lparr>mval = vs ! fld l, mview = bot\<rparr>) else hist M l),
       cell := (\<lambda>l. if blk l = b \<and> fld l < length vs then vs ! fld l else cell M l),
       log := (\<lambda>l. if blk l = b \<and> fld l < length vs then [(t, n, NaWrite)] else log M l),
       cur := (cur M)(t := (cur M t)(Clk t := n)),
       nblocks := Suc b,
       bsize := (bsize M)(b := length vs)\<rparr>)"

definition m_free :: "tid \<Rightarrow> nat \<Rightarrow> 'a mem \<Rightarrow> 'a mem" where
  "m_free t b M = M\<lparr>
     ub := ub M \<or> freed M b \<or>
           list_ex (\<lambda>i. races NaWrite (cur M t) (log M (Loc b i))) [0..<bsize M b],
     freed := (freed M)(b := True)\<rparr>"

section \<open>Threads, parking, locks and condition variables\<close>

definition m_spawn :: "tid \<Rightarrow> 'a mem \<Rightarrow> 'a mem" where
  "m_spawn t M = M\<lparr>cur := (cur M)(nthreads M := cur M t),
                   pend := (pend M)(nthreads M := bot),
                   nthreads := Suc (nthreads M)\<rparr>"

definition m_join :: "tid \<Rightarrow> tid \<Rightarrow> 'a mem \<Rightarrow> 'a mem" where
  "m_join t u M = M\<lparr>cur := (cur M)(t := sup (cur M t) (cur M u))\<rparr>"

definition m_park :: "bool \<Rightarrow> tid \<Rightarrow> 'a mem \<Rightarrow> 'a mem option" where
  "m_park spurious t M =
     (if spurious then Some M
      else case token M t of
             None \<Rightarrow> None
           | Some V \<Rightarrow> Some (M\<lparr>cur := (cur M)(t := sup (cur M t) V), token := (token M)(t := None)\<rparr>))"

definition m_unpark :: "tid \<Rightarrow> tid \<Rightarrow> 'a mem \<Rightarrow> 'a mem" where
  "m_unpark t u M = M\<lparr>token := (token M)(u \<mapsto>
     (case token M u of None \<Rightarrow> cur M t | Some V \<Rightarrow> sup V (cur M t)))\<rparr>"

definition m_mlock :: "tid \<Rightarrow> nat \<Rightarrow> 'a mem \<Rightarrow> 'a mem option" where
  "m_mlock t m M =
     (if mheld M m = None
      then Some (M\<lparr>mheld := (mheld M)(m \<mapsto> t), cur := (cur M)(t := sup (cur M t) (mvw M m))\<rparr>)
      else None)"

definition m_munlock :: "tid \<Rightarrow> nat \<Rightarrow> 'a mem \<Rightarrow> 'a mem" where
  "m_munlock t m M = M\<lparr>ub := ub M \<or> mheld M m \<noteq> Some t,
     mheld := (mheld M)(m := None), mvw := (mvw M)(m := cur M t)\<rparr>"

definition m_cvpark :: "tid \<Rightarrow> nat \<Rightarrow> nat \<Rightarrow> 'a mem \<Rightarrow> 'a mem" where
  "m_cvpark t cv m M = (m_munlock t m M)\<lparr>cvq := (cvq M)(cv := cvq M cv @ [t])\<rparr>"

definition m_cvwoken :: "bool \<Rightarrow> tid \<Rightarrow> nat \<Rightarrow> 'a mem \<Rightarrow> 'a mem option" where
  "m_cvwoken spurious t cv M =
     (if spurious then Some (M\<lparr>cvq := (cvq M)(cv := removeAll t (cvq M cv))\<rparr>)
      else if t \<in> set (cvq M cv) then None else Some M)"

definition m_cvnotify :: "nat \<Rightarrow> nat \<Rightarrow> 'a mem \<Rightarrow> 'a mem" where
  "m_cvnotify n cv M = M\<lparr>cvq := (cvq M)(cv :=
     (if cvq M cv = [] then [] else remove1 (cvq M cv ! (n mod length (cvq M cv))) (cvq M cv)))\<rparr>"

section \<open>One instruction\<close>

fun mexec :: "'a futex \<Rightarrow> 'a choice \<Rightarrow> tid \<Rightarrow> 'a instr \<Rightarrow> 'a mem \<Rightarrow> ('a resp \<times> 'a mem) option" where
  "mexec fx ch t (ILoad o1 l) M = map_option (\<lambda>(v, M'). (RVal v, M')) (m_load (ch_ts ch) t o1 l M)"
| "mexec fx ch t (IStore o1 l v) M =
     map_option (\<lambda>M'. (RVal VUnit, M')) (m_store (ch_ts ch) t o1 l v M)"
| "mexec fx ch t (IRmw os of1 weak l f) M =
     map_option (\<lambda>(b, v, M'). (RCas b v, M')) (m_rmw (ch_ts ch) (weak \<and> ch_flag ch) t os of1 l f M)"
| "mexec fx ch t (IFence o1) M = Some (RVal VUnit, m_fence t o1 M)"
| "mexec fx ch t (IGetMut l) M = map_option (\<lambda>(v, M'). (RVal v, M')) (m_get_mut t l M)"
| "mexec fx ch t (ISetMut l v) M = Some (RVal VUnit, m_set_mut t l v M)"
| "mexec fx ch t (IRead l) M = Some (RVal (cell M l), m_read t l M)"
| "mexec fx ch t (IWrite l v) M = Some (RVal VUnit, m_write t l v M)"
| "mexec fx ch t (IDrop l) M = Some (RVal VUnit, m_drop t l M)"
| "mexec fx ch t (IAlloc vs) M = Some (RVal (VPtr (Some (nblocks M))), m_alloc t vs M)"
| "mexec fx ch t (IFree b) M = Some (RVal VUnit, m_free t b M)"
| "mexec fx ch t (ISpawn a) M = Some (RVal (VTid (nthreads M)), m_spawn t M)"
| "mexec fx ch t (IJoin u) M = Some (RVal VUnit, m_join t u M)"
| "mexec fx ch t IPark M = map_option (\<lambda>M'. (RVal VUnit, M')) (m_park (ch_flag ch) t M)"
| "mexec fx ch t (IUnpark u) M = Some (RVal VUnit, m_unpark t u M)"
| "mexec fx ch t (IMLock m) M = map_option (\<lambda>M'. (RVal VUnit, M')) (m_mlock t m M)"
| "mexec fx ch t (IMUnlock m) M = Some (RVal VUnit, m_munlock t m M)"
| "mexec fx ch t (ICvPark cv m) M = Some (RVal VUnit, m_cvpark t cv m M)"
| "mexec fx ch t (ICvWoken cv) M = map_option (\<lambda>M'. (RVal VUnit, M')) (m_cvwoken (ch_flag ch) t cv M)"
| "mexec fx ch t (ICvNotify cv) M = Some (RVal VUnit, m_cvnotify (ch_ts ch) cv M)"
| "mexec fx ch t (IWait l v) M = (if fx M t l v then Some (RVal VUnit, M) else None)"
| "mexec fx ch t (IWake l) M = Some (RVal VUnit, M)"
| "mexec fx ch t IInput M = Some (RVal (ch_val ch), M)"
| "mexec fx ch t (IPrint v) M = Some (RVal VUnit, M\<lparr>out := out M @ [v]\<rparr>)"
| "mexec fx ch t ICurrent M = Some (RVal (VTid t), M)"
| "mexec fx ch t ITau M = Some (RVal VUnit, M)"

lemmas m_defs = m_load_def m_store_def m_rmw_def m_fence_def m_get_mut_def m_set_mut_def m_read_def m_write_def m_drop_def
  m_alloc_def m_free_def m_spawn_def m_join_def m_park_def m_unpark_def m_mlock_def
  m_munlock_def m_cvpark_def m_cvwoken_def m_cvnotify_def touch_def observe_def post_def Let_def

section \<open>The initial memory\<close>

text \<open>
  One thread (the main thread), and the static variables: \<open>vs ! b\<close> are the fields of block
  \<open>b\<close>, all written before the program starts.
\<close>

definition static_val :: "'a val list list \<Rightarrow> loc \<Rightarrow> 'a val" where
  "static_val vs l =
     (if blk l < length vs \<and> fld l < length (vs ! blk l) then vs ! blk l ! fld l else Uninit)"

definition init_mem :: "'a val list list \<Rightarrow> 'a mem" where
  "init_mem vs = \<lparr>
     hist = (\<lambda>l. [0 \<mapsto> \<lparr>mval = static_val vs l, mview = bot\<rparr>]),
     cell = static_val vs, log = (\<lambda>_. []), cur = (\<lambda>_. bot), pend = (\<lambda>_. bot), scv = (\<lambda>_. 0),
     token = (\<lambda>_. None), mheld = (\<lambda>_. None), mvw = (\<lambda>_. bot), cvq = (\<lambda>_. []),
     nthreads = 1, nblocks = length vs,
     bsize = (\<lambda>b. if b < length vs then length (vs ! b) else 0),
     freed = (\<lambda>_. False), drops = [], out = [], ub = False\<rparr>"

section \<open>Freedom from races\<close>

text \<open>
  Two reasons why an access does not race: the location is only ever accessed atomically, or
  the thread knows all earlier accesses.
\<close>

definition atomic_only :: "access list \<Rightarrow> bool" where
  "atomic_only es \<longleftrightarrow> (\<forall>t n k. (t, n, k) \<in> set es \<longrightarrow> k = AtRead \<or> k = AtWrite)"

definition covered :: "access list \<Rightarrow> view \<Rightarrow> bool" where
  "covered es V \<longleftrightarrow> (\<forall>t n k. (t, n, k) \<in> set es \<longrightarrow> n \<le> V (Clk t))"

lemma atomic_only_simps [simp]:
  "atomic_only []"
  "atomic_only ((t, n, k) # es) \<longleftrightarrow> (k = AtRead \<or> k = AtWrite) \<and> atomic_only es"
  by (auto simp: atomic_only_def)

lemma covered_simps [simp]:
  "covered [] V"
  "covered ((t, n, k) # es) V \<longleftrightarrow> n \<le> V (Clk t) \<and> covered es V"
  by (auto simp: covered_def)

lemma covered_mono: "covered es V \<Longrightarrow> V \<le> W \<Longrightarrow> covered es W"
  unfolding covered_def le_fun_def by (meson order_trans)

lemma no_race_atomic [simp]:
  "atomic_only es \<Longrightarrow> \<not> races AtRead V es" "atomic_only es \<Longrightarrow> \<not> races AtWrite V es"
  by (fastforce simp: races_def list_ex_iff atomic_only_def)+

lemma no_race_covered [simp]: "covered es V \<Longrightarrow> \<not> races k V es"
  by (fastforce simp: races_def list_ex_iff covered_def)

end
