(* ===== verification/Machine.thy ===== *)
theory Machine
  imports Rust_Mem
begin

text \<open>
  A process: one interaction tree per thread over a shared memory, interleaved one
  instruction at a time. The body of a spawned thread is looked up in \<open>code\<close> by the value
  the closure captured.
\<close>

record 'a config =
  progs :: "tid \<Rightarrow> ('a, unit) prog option"
  mem :: "'a mem"
  halted :: bool

type_synonym 'a code = "'a val \<Rightarrow> ('a, unit) prog"

definition finished :: "'a config \<Rightarrow> tid \<Rightarrow> bool" where
  "finished c t = (case progs c t of Some (Ret _) \<Rightarrow> True | _ \<Rightarrow> False)"

definition enabled_instr :: "'a config \<Rightarrow> 'a instr \<Rightarrow> bool" where
  "enabled_instr c i = (case i of IJoin u \<Rightarrow> finished c u | _ \<Rightarrow> True)"

definition spawned :: "'a code \<Rightarrow> 'a instr \<Rightarrow> tid \<Rightarrow>
    (tid \<Rightarrow> ('a, unit) prog option) \<Rightarrow> (tid \<Rightarrow> ('a, unit) prog option)" where
  "spawned code i u ps = (case i of ISpawn a \<Rightarrow> ps(u \<mapsto> code a) | _ \<Rightarrow> ps)"

text \<open>One step of thread \<open>t\<close>; after undefined behaviour or an abort nothing runs.\<close>

definition exec :: "'a futex \<Rightarrow> 'a code \<Rightarrow> 'a choice \<Rightarrow> tid \<Rightarrow> 'a config \<Rightarrow> 'a config option" where
  "exec fx code ch t c =
     (if halted c \<or> ub (mem c) then None
      else case progs c t of
        Some (Do i k) \<Rightarrow>
          if enabled_instr c i
          then map_option (\<lambda>(r, M'). c\<lparr>
                 progs := spawned code i (nthreads (mem c)) ((progs c)(t \<mapsto> k r)),
                 mem := M'\<rparr>) (mexec fx ch t i (mem c))
          else None
      | Some Abort \<Rightarrow> Some (c\<lparr>halted := True\<rparr>)
      | _ \<Rightarrow> None)"

definition init_config :: "'a val list list \<Rightarrow> ('a, unit) prog \<Rightarrow> 'a config" where
  "init_config vs main = \<lparr>progs = [0 \<mapsto> main], mem = init_mem vs, halted = False\<rparr>"

inductive reach :: "'a futex \<Rightarrow> 'a code \<Rightarrow> 'a config \<Rightarrow> 'a config \<Rightarrow> bool"
  for fx :: "'a futex" and code :: "'a code" and c0 :: "'a config" where
  reach_init: "reach fx code c0 c0"
| reach_step: "reach fx code c0 c \<Longrightarrow> exec fx code ch t c = Some c' \<Longrightarrow> reach fx code c0 c'"

text \<open>Running a schedule, for concrete executions.\<close>

fun run :: "'a futex \<Rightarrow> 'a code \<Rightarrow> (tid \<times> 'a choice) list \<Rightarrow> 'a config \<Rightarrow> 'a config option" where
  "run fx code [] c = Some c"
| "run fx code ((t, ch) # ss) c =
     (case exec fx code ch t c of None \<Rightarrow> None | Some c' \<Rightarrow> run fx code ss c')"

lemma run_reach_from: "reach fx code c0 c \<Longrightarrow> run fx code ss c = Some c' \<Longrightarrow> reach fx code c0 c'"
proof (induction ss arbitrary: c)
  case Nil
  then show ?case by simp
next
  case (Cons s ss)
  then show ?case by (cases s) (auto split: option.splits intro: reach.reach_step)
qed

lemma run_reach: "run fx code ss c0 = Some c' \<Longrightarrow> reach fx code c0 c'"
  by (rule run_reach_from [OF reach.reach_init])

text \<open>
  Schedules given by the thread and the timestamp of each step, and the unfolding rules that
  evaluate a schedule.
\<close>

definition sched :: "(tid \<times> nat) list \<Rightarrow> (tid \<times> 'a choice) list" where
  "sched = map (\<lambda>(t, n). (t, Choice n False VUnit))"

lemmas run_simps = sched_def exec_def init_config_def init_mem_def m_defs readable_def released_def
  static_val_def races_def enabled_instr_def spawned_def finished_def at_ts_def
  while_do_def loop_def seqp_def std_defs

text \<open>Case analysis of a step.\<close>

lemma exec_cases [consumes 1, case_names Do Abort]:
  assumes "exec fx code ch t c = Some c'"
  obtains
    (Do) i k r M' where "progs c t = Some (Do i k)" "enabled_instr c i" "\<not> ub (mem c)"
      "mexec fx ch t i (mem c) = Some (r, M')"
      "c' = c\<lparr>progs := spawned code i (nthreads (mem c)) ((progs c)(t \<mapsto> k r)), mem := M'\<rparr>"
  | (Abort) "progs c t = Some Abort" "\<not> ub (mem c)" "c' = c\<lparr>halted := True\<rparr>"
  using assms
  by (auto simp: exec_def split: if_splits option.splits prog.splits)

text \<open>The response of an instruction has the shape the instruction allows.\<close>

lemma mexec_shape: "mexec fx ch t i M = Some (r, M') \<Longrightarrow> shape i r"
  by (cases i)
     (auto simp: m_rmw_def m_load_def Let_def split: option.splits if_splits)

text \<open>Frame facts: what an instruction of thread \<open>t\<close> leaves alone.\<close>

lemma mexec_nthreads:
  "mexec fx ch t i M = Some (r, M') \<Longrightarrow>
     nthreads M' = (case i of ISpawn a \<Rightarrow> Suc (nthreads M) | _ \<Rightarrow> nthreads M)"
  by (cases i) (auto simp: m_defs split: option.splits if_splits)

lemma mexec_cur_other:
  assumes "mexec fx ch t i M = Some (r, M')" and "u \<noteq> t" and "u < nthreads M"
  shows "cur M' u = cur M u"
  using assms
  by (cases i) (auto simp: m_defs split: option.splits if_splits)

lemma mexec_cur_mono:
  assumes "mexec fx ch t i M = Some (r, M')" and "u < nthreads M"
  shows "cur M u \<le> cur M' u"
  using assms
  by (cases i) (auto simp: m_defs le_fun_def le_max_iff_disj split: option.splits if_splits)

text \<open>Quiet instructions touch no location; every protocol below allows them to all threads.\<close>

fun quiet :: "'a instr \<Rightarrow> bool" where
  "quiet (IFence o1) = True"
| "quiet (ISpawn a) = True"
| "quiet (IJoin u) = True"
| "quiet IPark = True"
| "quiet (IUnpark u) = True"
| "quiet (IWait l v) = True"
| "quiet (IWake l) = True"
| "quiet IInput = True"
| "quiet (IPrint v) = True"
| "quiet ICurrent = True"
| "quiet ITau = True"
| "quiet i = False"

text \<open>Silent instructions moreover concern no other thread and produce no output.\<close>

fun silent :: "'a instr \<Rightarrow> bool" where
  "silent (IFence o1) = True"
| "silent IPark = True"
| "silent (IWait l v) = True"
| "silent (IWake l) = True"
| "silent ITau = True"
| "silent i = False"

lemma silent_quiet: "silent i \<Longrightarrow> quiet i"
  by (cases i) auto

lemma mexec_quiet:
  assumes "quiet i" and "mexec fx ch t i M = Some (r, M')"
  shows "hist M' = hist M" "log M' = log M" "cell M' = cell M" "freed M' = freed M"
    "ub M' = ub M" "drops M' = drops M" "bsize M' = bsize M" "nblocks M' = nblocks M"
  using assms by (cases i; auto simp: m_defs split: option.splits if_splits)+

lemma mexec_quiet_pend:
  assumes "quiet i" and "mexec fx ch t i M = Some (r, M')" and "u < nthreads M"
  shows "pend M' u = pend M u"
  using assms by (cases i) (auto simp: m_defs split: option.splits if_splits)

lemma mexec_silent:
  assumes "silent i" and "mexec fx ch t i M = Some (r, M')"
  shows "nthreads M' = nthreads M" "out M' = out M"
  using assms by (cases i; auto simp: m_defs split: option.splits if_splits)+

lemma mexec_out:
  "mexec fx ch t i M = Some (r, M') \<Longrightarrow>
     out M' = (case i of IPrint v \<Rightarrow> out M @ [v] | _ \<Rightarrow> out M)"
  by (cases i) (auto simp: m_defs split: option.splits if_splits)

lemma mexec_cell:
  "mexec fx ch t i M = Some (r, M') \<Longrightarrow>
     cell M' d = (case i of IWrite l v \<Rightarrow> if l = d then v else cell M d
       | IDrop l \<Rightarrow> if l = d then Uninit else cell M d
       | IAlloc vs \<Rightarrow> if blk d = nblocks M \<and> fld d < length vs then vs ! fld d else cell M d
       | _ \<Rightarrow> cell M d)"
  by (cases i) (auto simp: m_defs split: option.splits if_splits)

end
