(* ===== verification/Well_Formed.thy ===== *)
theory Well_Formed
  imports Machine
begin

text \<open>
  An invariant of every execution, whatever the program: all views refer to messages that exist
  and to accesses that have happened, and every location has finitely many messages. Hence
  every instruction except those that wait for another thread can be executed.
\<close>

definition wf_view :: "'a mem \<Rightarrow> view \<Rightarrow> bool" where
  "wf_view M V \<longleftrightarrow> (\<forall>l. hist M l (V (Ts l)) \<noteq> None) \<and> (\<forall>u. V (Clk u) \<le> cur M u (Clk u))"

definition wf_core :: "'a mem \<Rightarrow> bool" where
  "wf_core M \<longleftrightarrow>
     wf_view M bot \<and> (\<forall>t. wf_view M (cur M t)) \<and> (\<forall>t. wf_view M (pend M t)) \<and>
     (\<forall>l k m. hist M l k = Some m \<longrightarrow> wf_view M (mview m)) \<and>
     (\<forall>t V. token M t = Some V \<longrightarrow> wf_view M V) \<and> (\<forall>x. wf_view M (mvw M x)) \<and>
     (\<forall>l. hist M l (scv M l) \<noteq> None) \<and>
     (\<forall>l u n k. (u, n, k) \<in> set (log M l) \<longrightarrow> n \<le> cur M u (Clk u)) \<and>
     (\<forall>l. finite (dom (hist M l)))"

definition wf_mem :: "'a mem \<Rightarrow> bool" where
  "wf_mem M \<longleftrightarrow> wf_core M \<and> (\<forall>t. nthreads M \<le> t \<longrightarrow> cur M t = bot)"

text \<open>\<open>M'\<close> extends \<open>M\<close>: more messages, later clocks.\<close>

definition ext :: "'a mem \<Rightarrow> 'a mem \<Rightarrow> bool" where
  "ext M M' \<longleftrightarrow> (\<forall>l k. hist M l k \<noteq> None \<longrightarrow> hist M' l k \<noteq> None) \<and> (\<forall>u. cur M u (Clk u) \<le> cur M' u (Clk u))"

lemma wf_view_ext: "wf_view M V \<Longrightarrow> ext M M' \<Longrightarrow> wf_view M' V"
  unfolding wf_view_def ext_def by (meson order_trans)

lemma wf_view_sup: "wf_view M V \<Longrightarrow> wf_view M W \<Longrightarrow> wf_view M (sup V W)"
  by (auto simp: wf_view_def max_def)

lemma wf_view_Ts: "wf_view M V \<Longrightarrow> hist M l n \<noteq> None \<Longrightarrow> wf_view M (V(Ts l := n))"
  by (simp add: wf_view_def)

lemma wf_view_Clk: "wf_view M V \<Longrightarrow> n \<le> cur M u (Clk u) \<Longrightarrow> wf_view M (V(Clk u := n))"
  by (simp add: wf_view_def)

lemma wf_view_at_ts: "wf_view M bot \<Longrightarrow> hist M l n \<noteq> None \<Longrightarrow> wf_view M (at_ts l n)"
  by (simp add: wf_view_def)

text \<open>The parts of a step: an access, a read of a message, a new message.\<close>

lemma wf_touch:
  assumes "wf_core M"
  shows "wf_core (touch k t l M)"
proof -
  let ?M = "touch k t l M"
  have ext: "ext M ?M" by (simp add: ext_def touch_def Let_def)
  have eq: "hist ?M = hist M" "pend ?M = pend M" "token ?M = token M" "mvw ?M = mvw M" "scv ?M = scv M"
    by (simp_all add: touch_def Let_def)
  have "wf_view ?M (cur ?M u)" for u
  proof (cases "u = t")
    case True
    have "wf_view ?M (cur M t)" using assms wf_view_ext [OF _ ext] by (simp add: wf_core_def)
    then have "wf_view ?M ((cur M t)(Clk t := Suc (cur M t (Clk t))))"
      by (rule wf_view_Clk) (simp add: touch_def Let_def)
    then show ?thesis using True by (simp add: touch_def Let_def)
  next
    case False
    then have "cur ?M u = cur M u" by (simp add: touch_def Let_def)
    then show ?thesis using assms wf_view_ext [OF _ ext] by (simp add: wf_core_def)
  qed
  moreover have "n \<le> cur ?M u (Clk u)" if "(u, n, k') \<in> set (log ?M l')" for l' u n k'
  proof (cases "(u, n, k') \<in> set (log M l')")
    case True
    then have "n \<le> cur M u (Clk u)" using assms unfolding wf_core_def by blast
    also have "\<dots> \<le> cur ?M u (Clk u)" using ext by (simp add: ext_def)
    finally show ?thesis .
  next
    case False
    with that show ?thesis by (auto simp: touch_def Let_def split: if_splits)
  qed
  ultimately show ?thesis
    using assms wf_view_ext [OF _ ext] unfolding wf_core_def eq by simp
qed

lemma wf_observe:
  assumes "wf_core M" and "wf_view M V" and "hist M l ts \<noteq> None"
  shows "wf_core (observe o1 t l ts V M)"
proof -
  let ?M = "observe o1 t l ts V M"
  have ext: "ext M ?M" by (simp add: ext_def observe_def)
  have at: "wf_view M (at_ts l ts)" using assms by (simp add: wf_core_def wf_view_at_ts)
  have eq: "hist ?M = hist M" "log ?M = log M" "token ?M = token M" "mvw ?M = mvw M"
    by (simp_all add: observe_def)
  have "wf_view M (cur ?M u)" for u
    using assms at by (auto simp: observe_def wf_core_def intro!: wf_view_sup)
  moreover have "wf_view M (pend ?M u)" for u
    using assms by (auto simp: observe_def wf_core_def intro!: wf_view_sup)
  moreover have "hist M l' (scv ?M l') \<noteq> None" for l'
    using assms by (auto simp: observe_def wf_core_def max_def)
  moreover have "n \<le> cur ?M u (Clk u)" if "(u, n, k') \<in> set (log M l')" for l' u n k'
  proof -
    have "n \<le> cur M u (Clk u)" using assms that unfolding wf_core_def by blast
    then show ?thesis using ext le_trans unfolding ext_def by blast
  qed
  ultimately show ?thesis
    using assms wf_view_ext [OF _ ext] unfolding wf_core_def eq by simp
qed

lemma wf_post:
  assumes "wf_core M" and "wf_view (post l ts v V M) V"
  shows "wf_core (post l ts v V M)"
proof -
  let ?M = "post l ts v V M"
  have ext: "ext M ?M" by (simp add: ext_def post_def)
  have eq: "cur ?M = cur M" "pend ?M = pend M" "log ?M = log M" "token ?M = token M" "mvw ?M = mvw M" "scv ?M = scv M"
    by (simp_all add: post_def)
  have "wf_view ?M (mview m)" if "hist ?M l' k = Some m" for l' k m
  proof (cases "l' = l \<and> k = ts")
    case True
    with that assms show ?thesis by (auto simp: post_def)
  next
    case False
    with that have "hist M l' k = Some m" by (auto simp: post_def split: if_splits)
    then have "wf_view M (mview m)" using assms unfolding wf_core_def by blast
    then show ?thesis using ext by (rule wf_view_ext)
  qed
  moreover have "finite (dom (hist ?M l'))" for l'
    using assms by (simp add: post_def wf_core_def)
  moreover have "hist ?M l' (scv M l') \<noteq> None" for l'
    using assms by (simp add: post_def wf_core_def)
  ultimately show ?thesis
    using assms wf_view_ext [OF _ ext] unfolding wf_core_def eq by simp
qed

lemma wf_write:
  assumes wf: "wf_core M" and V: "wf_view M V" and X: "wf_view M X" and M1: "M1 = observe o1 t l ts V M"
  shows "wf_core (post l ts v (sup X (released o1 t l ts M1)) M1)"
proof -
  let ?W = "sup X (released o1 t l ts M1)" let ?M2 = "post l ts v ?W M"
  have ext: "ext M ?M2" by (simp add: ext_def post_def)
  have old: "wf_view ?M2 U" if "wf_view M U" for U using that ext by (rule wf_view_ext)
  have bot: "wf_view ?M2 bot" and cur: "wf_view ?M2 (cur M t)" using wf old by (auto simp: wf_core_def)
  have at: "wf_view ?M2 (at_ts l ts)"
    by (rule wf_view_at_ts [OF bot]) (simp add: post_def)
  have "wf_view ?M2 ?W"
    using old [OF X] old [OF V] bot cur at unfolding M1 released_def observe_def by (auto intro!: wf_view_sup)
  then have "wf_core ?M2" using wf by (intro wf_post)
  then have "wf_core (observe o1 t l ts V ?M2)"
    using old [OF V] by (rule wf_observe) (simp add: post_def)
  moreover have "observe o1 t l ts V ?M2 = post l ts v ?W M1"
    by (simp add: M1 observe_def post_def)
  ultimately show ?thesis by simp
qed

lemma wf_load:
  assumes "wf_core M" and "m_load ts t o1 l M = Some (v, M')"
  shows "wf_core M'"
proof -
  from assms(2) obtain m where m: "hist M l ts = Some m" and M': "M' = observe o1 t l ts (mview m) (touch AtRead t l M)"
    by (auto simp: m_load_def split: option.splits if_splits)
  have wf: "wf_core (touch AtRead t l M)" using assms(1) by (rule wf_touch)
  moreover have "hist (touch AtRead t l M) l ts = Some m" using m by (simp add: touch_def Let_def)
  ultimately show ?thesis unfolding M' by (intro wf_observe) (auto simp: wf_core_def)
qed

lemma wf_store:
  assumes "wf_core M" and "m_store ts t o1 l v M = Some M'"
  shows "wf_core M'"
proof -
  have wf: "wf_core (touch AtWrite t l M)" using assms(1) by (rule wf_touch)
  then have bot: "wf_view (touch AtWrite t l M) bot" by (simp add: wf_core_def)
  have [simp]: "sup bot V = V" for V :: view by (simp add: fun_eq_iff)
  from wf_write [OF wf bot bot refl, of l ts v o1 t] show ?thesis
    using assms(2) by (auto simp: m_store_def Let_def split: if_splits)
qed

lemma wf_rmw:
  assumes "wf_core M" and ex: "m_rmw ts sp t os of1 l f M = Some (b, v, M')"
  shows "wf_core M'"
proof (cases b)
  case False
  with ex have "m_load ts t of1 l M = Some (v, M')"
    by (auto simp: m_rmw_def Let_def split: option.splits if_splits)
  with assms(1) show ?thesis by (rule wf_load)
next
  case True
  with ex obtain m v' where m: "hist M l ts = Some m"
    and M': "M' = (let M1 = observe os t l (Suc ts) (mview m) (touch AtWrite t l M)
               in post l (Suc ts) v' (sup (mview m) (released os t l (Suc ts) M1)) M1)"
    by (auto simp: m_rmw_def Let_def split: option.splits if_splits)
  have wf: "wf_core (touch AtWrite t l M)" using assms(1) by (rule wf_touch)
  moreover have "hist (touch AtWrite t l M) l ts = Some m" using m by (simp add: touch_def Let_def)
  ultimately have "wf_view (touch AtWrite t l M) (mview m)" unfolding wf_core_def by blast
  from wf_write [OF wf this this refl, of l "Suc ts" v' os t] show ?thesis unfolding M' Let_def .
qed

text \<open>Changes that leave the messages and the clocks alone.\<close>

lemma wf_same:
  assumes "wf_core M" and "hist M' = hist M" "log M' = log M" "scv M' = scv M"
    and "\<And>t. cur M t (Clk t) \<le> cur M' t (Clk t)"
    and "\<And>t. wf_view M (cur M' t)" "\<And>t. wf_view M (pend M' t)"
    and "\<And>t V. token M' t = Some V \<Longrightarrow> wf_view M V" "\<And>x. wf_view M (mvw M' x)"
  shows "wf_core M'"
proof -
  have ext: "ext M M'" using assms by (simp add: ext_def)
  moreover have "n \<le> cur M' u (Clk u)" if "(u, n, k) \<in> set (log M l)" for u n k l
    using assms(1,5) that le_trans unfolding wf_core_def by blast
  ultimately show ?thesis
    using assms wf_view_ext [OF _ ext] unfolding wf_core_def assms(2-4) by simp
qed

lemma wf_cong:
  assumes "wf_core M" and "hist M' = hist M" "log M' = log M" "scv M' = scv M" "cur M' = cur M" "pend M' = pend M"
    "token M' = token M" "mvw M' = mvw M"
  shows "wf_core M'"
  using assms unfolding wf_core_def wf_view_def by simp

lemma wf_alloc:
  assumes wf: "wf_core M"
  shows "wf_core (m_alloc t vs M)"
proof -
  let ?M = "m_alloc t vs M"
  have ext: "ext M ?M" by (auto simp: ext_def m_alloc_def Let_def)
  have old: "wf_view ?M U" if "wf_view M U" for U using that ext by (rule wf_view_ext)
  have eq: "pend ?M = pend M" "token ?M = token M" "mvw ?M = mvw M" "scv ?M = scv M"
    by (simp_all add: m_alloc_def Let_def)
  have "wf_view ?M (cur ?M u)" for u
  proof (cases "u = t")
    case True
    have "wf_view ?M ((cur M t)(Clk t := Suc (cur M t (Clk t))))"
      using wf old by (intro wf_view_Clk) (auto simp: wf_core_def m_alloc_def Let_def)
    with True show ?thesis by (simp add: m_alloc_def Let_def)
  next
    case False
    then have "cur ?M u = cur M u" by (simp add: m_alloc_def Let_def)
    with wf old show ?thesis by (simp add: wf_core_def)
  qed
  moreover have "wf_view ?M (mview m)" if "hist ?M l k = Some m" for l k m
  proof (cases "hist M l k = Some m")
    case True
    with wf have "wf_view M (mview m)" unfolding wf_core_def by blast
    then show ?thesis by (rule old)
  next
    case False
    with that have "mview m = bot" by (auto simp: m_alloc_def Let_def split: if_splits)
    with wf old show ?thesis by (simp add: wf_core_def)
  qed
  moreover have "n \<le> cur ?M u (Clk u)" if "(u, n, k) \<in> set (log ?M l)" for u n k l
  proof (cases "(u, n, k) \<in> set (log M l)")
    case True
    then have "n \<le> cur M u (Clk u)" using wf unfolding wf_core_def by blast
    also have "\<dots> \<le> cur ?M u (Clk u)" using ext by (simp add: ext_def)
    finally show ?thesis .
  next
    case False
    with that show ?thesis by (auto simp: m_alloc_def Let_def split: if_splits)
  qed
  moreover have "hist ?M l (scv M l) \<noteq> None" for l
    using wf by (simp add: wf_core_def m_alloc_def Let_def)
  moreover have "finite (dom (hist ?M l))" for l
    using wf by (simp add: m_alloc_def Let_def wf_core_def)
  ultimately show ?thesis
    using wf old unfolding wf_core_def eq by simp
qed

lemma wf_core_mexec:
  assumes wf: "wf_core M" and idle: "cur M (nthreads M) = bot" and ex: "mexec fx ch t i M = Some (r, M')"
  shows "wf_core M'"
proof -
  have view: "wf_view M bot" "\<And>t. wf_view M (cur M t)" "\<And>t. wf_view M (pend M t)" "\<And>x. wf_view M (mvw M x)"
    "\<And>t V. token M t = Some V \<Longrightarrow> wf_view M V"
    using wf by (auto simp: wf_core_def)
  have clk: "cur M t (Clk u) \<le> cur M u (Clk u)" for t u using view(2) [of t] by (simp add: wf_view_def)
  show ?thesis
  proof (cases i)
    case (ILoad o1 l)
    with ex wf show ?thesis by (auto intro: wf_load)
  next
    case (IStore o1 l v)
    with ex wf show ?thesis by (auto intro: wf_store)
  next
    case (IRmw os of1 w l f)
    with ex wf show ?thesis by (auto intro: wf_rmw)
  next
    case (IGetMut l)
    with ex wf show ?thesis by (auto simp: m_get_mut_def intro: wf_touch)
  next
    case (ISetMut l v)
    let ?T = "touch NaWrite t l M"
    have T: "wf_core ?T" using wf by (rule wf_touch)
    then have "wf_view (post l (cur M t (Ts l)) v bot ?T) bot"
      using wf_view_ext [of ?T bot "post l (cur M t (Ts l)) v bot ?T"] by (simp add: wf_core_def ext_def post_def)
    with T have "wf_core (post l (cur M t (Ts l)) v bot ?T)" by (rule wf_post)
    with ISetMut ex show ?thesis by (auto simp: m_set_mut_def post_def touch_def Let_def)
  next
    case (IAlloc vs)
    with ex wf_alloc [OF wf] show ?thesis by auto
  next
    case (IRead l)
    with ex show ?thesis using wf_cong [OF wf_touch [OF wf, of NaRead t l], of M'] by (auto simp: m_read_def)
  next
    case (IWrite l v)
    with ex show ?thesis using wf_cong [OF wf_touch [OF wf, of NaWrite t l], of M'] by (auto simp: m_write_def)
  next
    case (IDrop l)
    with ex show ?thesis using wf_cong [OF wf_touch [OF wf, of NaWrite t l], of M'] by (auto simp: m_drop_def)
  next
    case (IFree b)
    with ex wf view show ?thesis by (auto simp: m_free_def intro!: wf_same [OF wf])
  next
    case (ISpawn a)
    with ex wf view clk idle show ?thesis by (auto simp: m_spawn_def intro!: wf_same [OF wf])
  qed (use ex view in \<open>auto simp: m_fence_def m_join_def m_park_def m_unpark_def m_mlock_def m_munlock_def
      m_cvpark_def m_cvwoken_def m_cvnotify_def split: option.splits if_splits
      intro!: wf_same [OF wf] wf_view_sup\<close>)
qed

lemma wf_mexec:
  assumes wf: "wf_mem M" and t: "t < nthreads M" and ex: "mexec fx ch t i M = Some (r, M')"
  shows "wf_mem M'"
proof -
  have "cur M' u = bot" if "nthreads M' \<le> u" for u
    using that ex t wf by (cases i) (auto simp: wf_mem_def m_defs split: option.splits if_splits)
  with wf_core_mexec [OF _ _ ex] wf show ?thesis by (simp add: wf_mem_def)
qed

lemma wf_init_mem: "wf_mem (init_mem vs)"
  by (auto simp: wf_mem_def wf_core_def wf_view_def init_mem_def split: if_splits)

section \<open>Progress\<close>

text \<open>The instructions that may have to wait for another thread.\<close>

fun waits :: "'a instr \<Rightarrow> bool" where
  "waits IPark = True"
| "waits (IMLock m) = True"
| "waits (ICvWoken cv) = True"
| "waits (IWait l v) = True"
| "waits (IJoin u) = True"
| "waits i = False"

lemma wf_last:
  assumes "wf_mem M"
  obtains ts m where "hist M l ts = Some m" "\<And>k. ts < k \<Longrightarrow> hist M l k = None"
    "cur M t (Ts l) \<le> ts" "scv M l \<le> ts"
proof -
  let ?D = "dom (hist M l)"
  have fin: "finite ?D" and cur: "cur M t (Ts l) \<in> ?D" "scv M l \<in> ?D"
    using assms by (auto simp: wf_mem_def wf_core_def wf_view_def)
  then have "Max ?D \<in> ?D" by (intro Max_in) auto
  moreover have "hist M l k = None" if "Max ?D < k" for k
    using that Max_ge [OF fin, of k] by (cases "hist M l k") auto
  ultimately show thesis
    using that Max_ge [OF fin cur(1)] Max_ge [OF fin cur(2)] by blast
qed

lemma mexec_enabled:
  assumes wf: "wf_mem M" and "\<not> waits i"
  shows "\<exists>ts r M'. mexec fx (Choice ts False VUnit) t i M = Some (r, M')"
proof (cases i)
  case (ILoad o1 l)
  from wf_last [OF wf, of l t] obtain ts m where "hist M l ts = Some m" "cur M t (Ts l) \<le> ts" "scv M l \<le> ts" by metis
  then have "mexec fx (Choice ts False VUnit) t i M \<noteq> None"
    by (simp add: ILoad m_load_def readable_def)
  then show ?thesis by auto
next
  case (IStore o1 l v)
  from wf_last [OF wf, of l t] obtain ts where "\<And>k. ts < k \<Longrightarrow> hist M l k = None" "cur M t (Ts l) \<le> ts" "scv M l \<le> ts"
    by metis
  then have "mexec fx (Choice (Suc ts) False VUnit) t i M \<noteq> None"
    by (simp add: IStore m_store_def Let_def)
  then show ?thesis by auto
next
  case (IRmw os of1 w l f)
  from wf_last [OF wf, of l t] obtain ts m where "hist M l ts = Some m" "\<And>k. ts < k \<Longrightarrow> hist M l k = None"
      "cur M t (Ts l) \<le> ts" "scv M l \<le> ts" by metis
  then have "mexec fx (Choice ts False VUnit) t i M \<noteq> None"
    by (cases "f (mval m)") (simp_all add: IRmw m_rmw_def m_load_def readable_def Let_def)
  then show ?thesis by auto
next
  case (IGetMut l)
  with wf show ?thesis by (auto simp: m_get_mut_def wf_mem_def wf_core_def wf_view_def)
qed (use assms in auto)

text \<open>In particular no spurious failure or wake-up is needed.\<close>

lemma exec_enabled:
  assumes "wf_mem (mem c)" and "\<not> ub (mem c)" "\<not> halted c" and "progs c t = Some (Do i k)" and "\<not> waits i"
  shows "\<exists>ts c'. exec fx code (Choice ts False VUnit) t c = Some c'"
proof -
  from mexec_enabled [OF assms(1,5)] obtain ts r M' where "mexec fx (Choice ts False VUnit) t i (mem c) = Some (r, M')" by blast
  moreover have "enabled_instr c i" using assms(5) by (cases i) (auto simp: enabled_instr_def)
  ultimately show ?thesis using assms by (auto simp: exec_def)
qed

lemma reach_progs:
  assumes "reach fx code (init_config vs main) c" and "u < nthreads (mem c)"
  shows "progs c u \<noteq> None"
  using assms
proof (induction rule: reach.induct)
  case reach_init
  then show ?case by (simp add: init_config_def init_mem_def)
next
  case (reach_step c ch t c')
  from reach_step(2) show ?case
  proof (cases rule: exec_cases)
    case (Do i k r M')
    have "u < nthreads (mem c) \<or> u = nthreads (mem c) \<and> (\<exists>a. i = ISpawn a)"
      using reach_step.prems mexec_nthreads [OF Do(4)] by (auto simp: Do(5) split: instr.splits)
    then show ?thesis
    proof (elim disjE conjE)
      assume "u < nthreads (mem c)"
      then have "progs c u \<noteq> None" by (rule reach_step.IH)
      then show ?thesis by (cases i) (simp_all add: Do(5) spawned_def)
    qed (auto simp: Do(5) spawned_def)
  next
    case Abort
    with reach_step.IH reach_step.prems show ?thesis by simp
  qed
qed

text \<open>Every execution is well-formed.\<close>

lemma reach_wf:
  assumes "reach fx code (init_config vs main) c"
  shows "wf_mem (mem c) \<and> (\<forall>t. progs c t \<noteq> None \<longrightarrow> t < nthreads (mem c))"
  using assms
proof (induction rule: reach.induct)
  case reach_init
  show ?case using wf_init_mem by (auto simp: init_config_def init_mem_def)
next
  case (reach_step c ch t c')
  from reach_step(2) show ?case
  proof (cases rule: exec_cases)
    case (Do i k r M')
    have t: "t < nthreads (mem c)" using reach_step.IH Do(1) by auto
    have "wf_mem M'" using wf_mexec [OF _ t Do(4)] reach_step.IH by blast
    moreover have "u < nthreads M'" if "spawned code i (nthreads (mem c)) ((progs c)(t \<mapsto> k r)) u \<noteq> None" for u
      using that t reach_step.IH mexec_nthreads [OF Do(4)] by (cases i) (auto simp: spawned_def split: if_splits)
    ultimately show ?thesis unfolding Do(5) by simp
  next
    case Abort
    with reach_step.IH show ?thesis by simp
  qed
qed

end
