(* ===== verification/Protocol.thy ===== *)
theory Protocol
  imports Well_Formed
begin

text \<open>
  How a component is verified for every client at once. A protocol is a typestate automaton:
  it says which instructions a thread may issue in which state (\<open>tr\<close>), and which responses it
  may rely on (\<open>pos\<close>). \<open>conforms s p Q\<close> says that the program \<open>p\<close>, started in state \<open>s\<close>, obeys
  the protocol as long as it runs and reaches \<open>Q\<close> when it returns; it is coinductive, so it
  covers programs that loop forever. A component proves an invariant of the automaton over the
  memory, and every process all of whose threads conform then satisfies the invariant.
\<close>

section \<open>Conformance\<close>

coinductive conforms ::
    "('s \<Rightarrow> 'a instr \<Rightarrow> 'a resp \<Rightarrow> bool) \<Rightarrow> ('s \<Rightarrow> 'a instr \<Rightarrow> 'a resp \<Rightarrow> 's \<Rightarrow> bool) \<Rightarrow> ('s \<Rightarrow> bool) \<Rightarrow>
     ('r \<Rightarrow> 's \<Rightarrow> bool) \<Rightarrow> 's \<Rightarrow> ('a, 'r) prog \<Rightarrow> bool"
  for pos :: "'s \<Rightarrow> 'a instr \<Rightarrow> 'a resp \<Rightarrow> bool"
  and tr :: "'s \<Rightarrow> 'a instr \<Rightarrow> 'a resp \<Rightarrow> 's \<Rightarrow> bool"
  and pan :: "'s \<Rightarrow> bool"
  and Q :: "'r \<Rightarrow> 's \<Rightarrow> bool" where
  conf_Ret: "Q x s \<Longrightarrow> conforms pos tr pan Q s (Ret x)"
| conf_Panic: "pan s \<Longrightarrow> conforms pos tr pan Q s (Panic m)"
| conf_Abort: "conforms pos tr pan Q s Abort"
| conf_Do: "(\<And>r. shape i r \<Longrightarrow> pos s i r \<Longrightarrow> \<exists>s'. tr s i r s' \<and> conforms pos tr pan Q s' (k r)) \<Longrightarrow>
    conforms pos tr pan Q s (Do i k)"

inductive_cases conforms_RetE: "conforms pos tr pan Q s (Ret x)"
inductive_cases conforms_PanicE: "conforms pos tr pan Q s (Panic m)"
inductive_cases conforms_DoE: "conforms pos tr pan Q s (Do i k)"

lemma conforms_Ret_iff [simp]: "conforms pos tr pan Q s (Ret x) \<longleftrightarrow> Q x s"
  by (auto intro: conf_Ret elim: conforms_RetE)

lemma conforms_Panic_iff [simp]: "conforms pos tr pan Q s (Panic m) \<longleftrightarrow> pan s"
  by (auto intro: conf_Panic elim: conforms_PanicE)

lemma conforms_Abort [simp]: "conforms pos tr pan Q s Abort"
  by (rule conf_Abort)

lemma conforms_Do_iff:
  "conforms pos tr pan Q s (Do i k) \<longleftrightarrow>
     (\<forall>r. shape i r \<longrightarrow> pos s i r \<longrightarrow> (\<exists>s'. tr s i r s' \<and> conforms pos tr pan Q s' (k r)))"
  by (auto intro: conf_Do elim!: conforms_DoE)

lemma conforms_mono:
  assumes "conforms pos tr pan Q s p" and "\<And>x s. Q x s \<Longrightarrow> R x s"
  shows "conforms pos tr pan R s p"
  using assms(1)
proof (coinduction arbitrary: s p)
  case conforms
  then show ?case using assms(2)
    by (cases p) (auto simp: conforms_Do_iff)
qed

lemma conforms_bind:
  assumes "conforms pos tr pan Q s p"
    and "\<And>x s. Q x s \<Longrightarrow> conforms pos tr pan R s (f x)"
  shows "conforms pos tr pan R s (bindp p f)"
  using assms(1)
proof (coinduction arbitrary: s p)
  case conforms
  show ?case
  proof (cases p)
    case (Ret x)
    with conforms assms(2) have "conforms pos tr pan R s (f x)" by simp
    with Ret show ?thesis
      by (cases "f x") (auto simp: conforms_Do_iff)
  next
    case (Do i k)
    with conforms show ?thesis by (fastforce simp: conforms_Do_iff)
  qed (use conforms in auto)
qed

lemma conforms_seq:
  assumes "conforms pos tr pan Q s p"
    and "\<And>x s. Q x s \<Longrightarrow> conforms pos tr pan R s q"
  shows "conforms pos tr pan R s (seqp p q)"
  unfolding seqp_def using assms by (rule conforms_bind)

text \<open>Sequencing after a program that ends in a known state.\<close>

lemma conforms_then:
  assumes "conforms pos tr pan (\<lambda>_ s'. s' = g) s p" and "conforms pos tr pan R g q"
  shows "conforms pos tr pan R s (seqp p q)"
  by (rule conforms_seq [OF assms(1)]) (simp add: assms(2))

text \<open>
  A loop conforms when its body keeps a loop invariant \<open>J\<close> on the loop variable and the
  typestate; the back edge is a silent step, which every protocol below allows.
\<close>

lemma conforms_loop_from:
  assumes tau: "\<And>s r. tr s ITau r s"
    and body: "\<And>x s. J x s \<Longrightarrow>
      conforms pos tr pan (\<lambda>y s. case y of Inl x' \<Rightarrow> J x' s | Inr z \<Rightarrow> R z s) s (body x)"
    and start: "conforms pos tr pan (\<lambda>y s. case y of Inl x' \<Rightarrow> J x' s | Inr z \<Rightarrow> R z s) s p"
  shows "conforms pos tr pan R s (loop_from body p)"
  using start
proof (coinduction arbitrary: s p)
  case conforms
  show ?case
  proof (cases p)
    case (Ret y)
    with conforms tau body show ?thesis
      by (cases y) fastforce+
  next
    case (Do i k)
    with conforms show ?thesis by (fastforce simp: conforms_Do_iff)
  qed (use conforms in auto)
qed

lemma conforms_loop:
  assumes "\<And>s r. tr s ITau r s" and "J x s"
    and "\<And>x s. J x s \<Longrightarrow>
      conforms pos tr pan (\<lambda>y s. case y of Inl x' \<Rightarrow> J x' s | Inr z \<Rightarrow> R z s) s (body x)"
  shows "conforms pos tr pan R s (loop body x)"
  unfolding loop_def using assms by (intro conforms_loop_from [where J = J]) auto

lemma conforms_while:
  assumes "\<And>s r. tr s ITau r s" and "J s"
    and cond: "\<And>s. J s \<Longrightarrow> conforms pos tr pan (\<lambda>b s. if b then C s else R s) s cond"
    and body: "\<And>s. C s \<Longrightarrow> conforms pos tr pan (\<lambda>_ s. J s) s body"
  shows "conforms pos tr pan (\<lambda>_ s. R s) s (while_do cond body)"
  unfolding while_do_def
proof (rule conforms_loop [where J = "\<lambda>_. J"])
  fix x :: unit and s assume "J s"
  show "conforms pos tr pan (\<lambda>y s. case y of Inl x' \<Rightarrow> J s | Inr z \<Rightarrow> R s) s
      (bindp cond (\<lambda>b. if b then bindp body (\<lambda>_. Ret (Inl ())) else Ret (Inr ())))"
    by (rule conforms_bind [OF cond [OF \<open>J s\<close>]])
       (auto intro: conforms_bind [OF body])
qed (use assms in auto)

lemma conforms_for_list:
  assumes "J xs s"
    and "\<And>i is s. J (i # is) s \<Longrightarrow> conforms pos tr pan (\<lambda>_ s. J is s) s (body i)"
  shows "conforms pos tr pan (\<lambda>_ s. J [] s) s (for_list xs body)"
  using assms(1)
proof (induction xs arbitrary: s)
  case (Cons i "is")
  show ?case unfolding for_list.simps
    by (rule conforms_bind [OF assms(2) [OF Cons.prems]]) (rule Cons.IH)
qed simp

text \<open>
  A program that conforms to a small protocol conforms to a larger one, of which the small one
  is the image under \<open>\<pi>\<close>, as long as the larger states stay within \<open>P\<close>.
\<close>

lemma conforms_lift:
  assumes "conforms pos tr pan Q (\<pi> s) p" and "P s"
    and pos: "\<And>s i r. P s \<Longrightarrow> pos' s i r \<Longrightarrow> pos (\<pi> s) i r"
    and pan: "\<And>s. P s \<Longrightarrow> pan (\<pi> s) \<Longrightarrow> pan' s"
    and step: "\<And>s i r y. P s \<Longrightarrow> shape i r \<Longrightarrow> pos' s i r \<Longrightarrow> tr (\<pi> s) i r y \<Longrightarrow>
      \<exists>s'. tr' s i r s' \<and> \<pi> s' = y \<and> P s'"
  shows "conforms pos' tr' pan' (\<lambda>x s'. Q x (\<pi> s') \<and> P s') s p"
  using assms(1,2)
proof (coinduction arbitrary: s p)
  case conforms
  show ?case
  proof (cases p)
    case (Do i k)
    have "\<exists>s'. tr' s i r s' \<and> conforms pos tr pan Q (\<pi> s') (k r) \<and> P s'"
      if r: "shape i r" "pos' s i r" for r
    proof -
      obtain y where y: "tr (\<pi> s) i r y" "conforms pos tr pan Q y (k r)"
        using conforms r(1) pos [OF conforms(2) r(2)] unfolding Do conforms_Do_iff by blast
      from step [OF conforms(2) r y(1)] y(2) show ?thesis by blast
    qed
    then show ?thesis unfolding Do by simp metis
  qed (use conforms pan in auto)
qed

lemma conforms_weaken:
  assumes "conforms pos tr pan Q s p" and "\<And>s i r s'. tr s i r s' \<Longrightarrow> tr' s i r s'"
    and "\<And>s. pan s \<Longrightarrow> pan' s"
  shows "conforms pos tr' pan' Q s p"
  by (rule conforms_mono, rule conforms_lift [where \<pi> = "\<lambda>s. s" and P = "\<lambda>_. True", OF assms(1)])
     (use assms(2,3) in auto)

text \<open>A thread that never runs: its state allows everything.\<close>

lemma conforms_dead:
  assumes "\<And>i r. tr s i r s" and "pan s" and "\<And>x. Q x s"
  shows "conforms pos tr pan Q s p"
proof (coinduction arbitrary: p)
  case conforms
  then show ?case using assms by (cases p) auto
qed

text \<open>Case analysis on responses, and the unfolding rules for straight-line code.\<close>

lemma all_resp: "(\<forall>r. P r) \<longleftrightarrow> (\<forall>v. P (RVal v)) \<and> (\<forall>b v. P (RCas b v))"
  by (metis resp.exhaust)

lemmas conf_simps = conforms_Do_iff all_resp std_defs cas_result_def is_err_def is_ok_def

section \<open>The interface of a protocol and the theorem for its clients\<close>

definition upd_state :: "('a val \<Rightarrow> 's) \<Rightarrow> (tid \<Rightarrow> 's) \<Rightarrow> tid \<Rightarrow> 'a instr \<Rightarrow> 's \<Rightarrow> tid \<Rightarrow> (tid \<Rightarrow> 's)" where
  "upd_state child S t i s' u =
     (case i of ISpawn a \<Rightarrow> (S(t := s'))(u := child a) | _ \<Rightarrow> S(t := s'))"

lemma upd_state_simp: "(\<And>a. i \<noteq> ISpawn a) \<Longrightarrow> upd_state child S t i s' n = S(t := s')"
  by (cases i) (auto simp: upd_state_def)

definition joins_final :: "('s \<Rightarrow> bool) \<Rightarrow> (tid \<Rightarrow> 's) \<Rightarrow> 'a mem \<Rightarrow> 'a instr \<Rightarrow> bool" where
  "joins_final fin S M i = (case i of IJoin u \<Rightarrow> u < nthreads M \<and> fin (S u) | _ \<Rightarrow> True)"

text \<open>
  The laws of a protocol: the silent step is always allowed; in a state that satisfies the
  invariant the responses that occur are among those a conforming program relies on; and a
  step that the protocol allows keeps the invariant. \<open>child a\<close> is the state in which a thread
  spawned with argument \<open>a\<close> starts and \<open>fin\<close> the states in which a thread may end. The laws may
  rely on a bound \<open>bnd\<close> on the resources of the process, which steps never undo: an execution
  that ends within the bound was within it all the time.
\<close>

locale bounded_protocol =
  fixes pos :: "'s \<Rightarrow> 'a instr \<Rightarrow> 'a resp \<Rightarrow> bool"
    and tr :: "'s \<Rightarrow> 'a instr \<Rightarrow> 'a resp \<Rightarrow> 's \<Rightarrow> bool"
    and pan :: "'s \<Rightarrow> bool"
    and child :: "'a val \<Rightarrow> 's"
    and fin :: "'s \<Rightarrow> bool"
    and bnd :: "'a mem \<Rightarrow> bool"
    and Inv :: "(tid \<Rightarrow> 's) \<Rightarrow> 'a mem \<Rightarrow> bool"
  assumes tau_ok: "tr s ITau r s"
    and bnd_back: "mexec fx ch t i M = Some (r, M') \<Longrightarrow> bnd M' \<Longrightarrow> bnd M"
    and inv_pos: "Inv S M \<Longrightarrow> wf_mem M \<Longrightarrow> bnd M \<Longrightarrow> \<not> ub M \<Longrightarrow> t < nthreads M \<Longrightarrow> joins_final fin S M i \<Longrightarrow>
      mexec fx ch t i M = Some (r, M') \<Longrightarrow> pos (S t) i r"
    and inv_step: "Inv S M \<Longrightarrow> wf_mem M \<Longrightarrow> wf_mem M' \<Longrightarrow> bnd M \<Longrightarrow> bnd M' \<Longrightarrow> \<not> ub M \<Longrightarrow> t < nthreads M \<Longrightarrow> joins_final fin S M i \<Longrightarrow>
      mexec fx ch t i M = Some (r, M') \<Longrightarrow> tr (S t) i r s' \<Longrightarrow>
      Inv (upd_state child S t i s' (nthreads M)) M'"
begin

text \<open>A configuration is safe when its threads conform from states that satisfy the invariant.\<close>

definition safe :: "'a config \<Rightarrow> bool" where
  "safe c \<longleftrightarrow> wf_mem (mem c) \<and> (\<exists>S. Inv S (mem c) \<and>
     (\<forall>t p. progs c t = Some p \<longrightarrow>
        t < nthreads (mem c) \<and> conforms pos tr pan (\<lambda>_ s. fin s) (S t) p))"

lemma safe_step:
  assumes code: "\<And>a. conforms pos tr pan (\<lambda>_ s. fin s) (child a) (code a)"
    and "safe c" and ex: "exec fx code ch t c = Some c'" and bnd': "bnd (mem c')"
  shows "safe c'"
proof -
  from \<open>safe c\<close> have wf: "wf_mem (mem c)" by (simp add: safe_def)
  from \<open>safe c\<close> obtain S where inv: "Inv S (mem c)"
    and conf: "\<And>t p. progs c t = Some p \<Longrightarrow>
      t < nthreads (mem c) \<and> conforms pos tr pan (\<lambda>_ s. fin s) (S t) p"
    unfolding safe_def by blast
  from ex show ?thesis
  proof (cases rule: exec_cases)
    case (Do i k r M')
    have t: "t < nthreads (mem c)" and p: "conforms pos tr pan (\<lambda>_ s. fin s) (S t) (Do i k)"
      using conf [OF Do(1)] by auto
    have jf: "joins_final fin S (mem c) i"
      using Do(2) conf
      by (fastforce simp: joins_final_def enabled_instr_def finished_def
          split: instr.splits option.splits prog.splits)
    have wf': "wf_mem M'" using wf t Do(4) by (rule wf_mexec)
    have bnd: "bnd (mem c)" "bnd M'"
      using bnd_back [OF Do(4)] bnd' unfolding Do(5) by auto
    from p inv_pos [OF inv wf bnd(1) Do(3) t jf Do(4)] mexec_shape [OF Do(4)]
    obtain s' where s': "tr (S t) i r s'" "conforms pos tr pan (\<lambda>_ s. fin s) s' (k r)"
      by (auto simp: conforms_Do_iff)
    let ?S = "upd_state child S t i s' (nthreads (mem c))"
    have "Inv ?S M'"
      using inv wf wf' bnd Do(3) t jf Do(4) s'(1) by (rule inv_step)
    moreover have "u < nthreads M' \<and> conforms pos tr pan (\<lambda>_ s. fin s) (?S u) q"
      if "spawned code i (nthreads (mem c)) ((progs c)(t \<mapsto> k r)) u = Some q" for u q
      using that conf [of u q] t s'(2) code mexec_nthreads [OF Do(4)]
      by (cases i) (auto simp: spawned_def upd_state_def split: if_splits)
    ultimately show ?thesis
      unfolding safe_def Do(5) using wf' by (intro conjI exI [of _ ?S]) auto
  next
    case Abort
    with wf inv conf show ?thesis unfolding safe_def by auto
  qed
qed

lemma exec_bnd_back:
  assumes "exec fx code ch t c = Some c'" and "bnd (mem c')"
  shows "bnd (mem c)"
  using assms(1) by (cases rule: exec_cases) (use assms(2) bnd_back in auto)

theorem safe_reach_bnd:
  assumes "\<And>a. conforms pos tr pan (\<lambda>_ s. fin s) (child a) (code a)"
    and "safe c0" and "reach fx code c0 c" and "bnd (mem c)"
  shows "safe c"
  using assms(3,2,4)
  by (induction rule: reach.induct) (auto intro: safe_step [OF assms(1)] dest: exec_bnd_back)

lemma safe_init:
  assumes "Inv (\<lambda>_. s0) (init_mem vs)"
    and "conforms pos tr pan (\<lambda>_ s. fin s) s0 main"
  shows "safe (init_config vs main)"
  unfolding safe_def
  by (intro conjI exI [of _ "\<lambda>_. s0"])
     (use assms wf_init_mem in \<open>auto simp: init_config_def init_mem_def\<close>)

end

text \<open>Most protocols need no bound.\<close>

locale protocol = bounded_protocol pos tr pan child fin "\<lambda>_. True" Inv
  for pos :: "'s \<Rightarrow> 'a instr \<Rightarrow> 'a resp \<Rightarrow> bool"
    and tr :: "'s \<Rightarrow> 'a instr \<Rightarrow> 'a resp \<Rightarrow> 's \<Rightarrow> bool"
    and pan :: "'s \<Rightarrow> bool"
    and child :: "'a val \<Rightarrow> 's"
    and fin :: "'s \<Rightarrow> bool"
    and Inv :: "(tid \<Rightarrow> 's) \<Rightarrow> 'a mem \<Rightarrow> bool"
begin

theorem safe_reach:
  assumes "\<And>a. conforms pos tr pan (\<lambda>_ s. fin s) (child a) (code a)"
    and "safe c0" and "reach fx code c0 c"
  shows "safe c"
  using assms by (rule safe_reach_bnd) simp

end

end
