(* ===== verification/Lock_Protocol.thy ===== *)
theory Lock_Protocol
  imports Protocol
begin

text \<open>
  Locks, for every client at once. The protocol of a lock: one atomic variable, a value that
  means free, and data that may only be accessed by the thread that holds the lock. The
  invariant shows that at most one thread holds the lock and that this thread knows every
  earlier access to the data, through the release of the previous holder, so that there is no
  data race. \<open>lock_impl\<close> is the interface of an implementation.
\<close>

section \<open>The automaton\<close>

text \<open>
  What the code of a lock does with its atomic variable \<open>l\<close>, where \<open>fr\<close> is the value of the
  free lock and the state says whether the thread holds it. A thread without the lock may read
  \<open>l\<close>, and may replace a taken value by a taken value; if it replaces \<open>fr\<close> by a taken value,
  with acquire ordering, it holds the lock. The holder may write \<open>fr\<close> with release ordering,
  and then holds it no longer.
\<close>

fun impl_tr :: "loc \<Rightarrow> 'a val \<Rightarrow> 'a val set \<Rightarrow> bool \<Rightarrow> 'a instr \<Rightarrow> 'a resp \<Rightarrow> bool \<Rightarrow> bool" where
  "impl_tr l fr V h (ILoad o1 l') r h' = (l' = l \<and> h' = h)"
| "impl_tr l fr V h (IStore o1 l' v) r h' = (l' = l \<and> h \<and> releases o1 \<and> v = fr \<and> \<not> h')"
| "impl_tr l fr V h (IRmw os of1 w l' f) r h' = (l' = l \<and>
     (if \<not> rok r then h' = h
      else if h then releases os \<and> f (rval r) = Some fr \<and> \<not> h'
      else f (rval r) \<noteq> Some fr \<and> f (rval r) \<in> Some ` V \<and> h' = (rval r = fr) \<and>
        (h' \<longrightarrow> acquires os)))"
| "impl_tr l fr V h i r h' = (silent i \<and> h' = h)"

text \<open>The values of \<open>l\<close> that the code may rely on to read.\<close>

fun lock_pos :: "loc \<Rightarrow> 'a val set \<Rightarrow> 's \<Rightarrow> 'a instr \<Rightarrow> 'a resp \<Rightarrow> bool" where
  "lock_pos l V s (ILoad o1 l') r = (l' = l \<longrightarrow> rval r \<in> V)"
| "lock_pos l V s (IRmw os of1 w l' f) r = (l' = l \<longrightarrow> rval r \<in> V)"
| "lock_pos l V s i r = True"

text \<open>
  The clients of the lock: they may call its operations, and access the data \<open>D\<close> that the
  lock protects while they hold it.
\<close>

fun lock_tr :: "loc \<Rightarrow> loc set \<Rightarrow> 'a val \<Rightarrow> 'a val set \<Rightarrow> bool \<Rightarrow> 'a instr \<Rightarrow> 'a resp \<Rightarrow> bool \<Rightarrow> bool" where
  "lock_tr l D fr V h (IRead d) r h' = (d \<in> D \<and> h \<and> h')"
| "lock_tr l D fr V h (IWrite d v) r h' = (d \<in> D \<and> v \<noteq> Uninit \<and> h \<and> h')"
| "lock_tr l D fr V h i r h' = (impl_tr l fr V h i r h' \<or> quiet i \<and> h' = h)"

section \<open>The invariant\<close>

definition covers :: "loc set \<Rightarrow> view \<Rightarrow> 'a mem \<Rightarrow> bool" where
  "covers D V M \<longleftrightarrow> (\<forall>d \<in> D. covered (log M d) V)"

definition nobody :: "(tid \<Rightarrow> bool) \<Rightarrow> 'a mem \<Rightarrow> bool" where
  "nobody S M \<longleftrightarrow> (\<forall>t < nthreads M. \<not> S t)"


text \<open>Every free message has a successor or is the last one, and then nobody holds the lock.\<close>

definition lock_tail :: "loc \<Rightarrow> loc set \<Rightarrow> 'a val \<Rightarrow> 'a val set \<Rightarrow> (tid \<Rightarrow> bool) \<Rightarrow> 'a mem \<Rightarrow> nat \<Rightarrow> bool" where
  "lock_tail l D fr V S M n \<longleftrightarrow> last_ts (hist M l) n \<and>
     fr \<in> V \<and> (\<forall>ts m. hist M l ts = Some m \<longrightarrow> mval m \<in> V) \<and>
     (\<forall>ts m. hist M l ts = Some m \<longrightarrow> mval m = fr \<longrightarrow>
        (ts = n \<and> nobody S M) \<or> hist M l (Suc ts) \<noteq> None) \<and>
     (nobody S M \<longrightarrow> (\<exists>m. hist M l n = Some m \<and> mval m = fr \<and> covers D (mview m) M)) \<and>
     (\<forall>t < nthreads M. S t \<longrightarrow> covers D (cur M t) M \<and>
        (\<forall>ts. cur M t (Ts l) \<le> ts \<longrightarrow> ts \<le> n \<longrightarrow> hist M l ts \<noteq> None))"

definition lock_base :: "loc \<Rightarrow> loc set \<Rightarrow> (tid \<Rightarrow> bool) \<Rightarrow> 'a mem \<Rightarrow> bool" where
  "lock_base l D S M \<longleftrightarrow> l \<notin> D \<and> \<not> ub M \<and> \<not> freed M (blk l) \<and>
     (\<forall>d \<in> D. \<not> freed M (blk d) \<and> cell M d \<noteq> Uninit) \<and>
     atomic_only (log M l) \<and>
     (\<forall>t < nthreads M. \<forall>u < nthreads M. S t \<longrightarrow> S u \<longrightarrow> t = u)"

definition lock_inv :: "loc \<Rightarrow> loc set \<Rightarrow> 'a val \<Rightarrow> 'a val set \<Rightarrow> (tid \<Rightarrow> bool) \<Rightarrow> 'a mem \<Rightarrow> bool" where
  "lock_inv l D fr V S M \<longleftrightarrow> lock_base l D S M \<and> (\<exists>n. lock_tail l D fr V S M n)"

lemma covers_mono: "covers D V M \<Longrightarrow> V \<le> W \<Longrightarrow> covers D W M"
  by (auto simp: covers_def intro: covered_mono)

lemma lock_inv_frame:
  assumes inv: "lock_inv l D fr V S M"
    and "hist M' l = hist M l" and "\<And>d. d \<in> D \<Longrightarrow> log M' d = log M d \<and> cell M' d = cell M d"
    and "atomic_only (log M' l)"
    and "freed M' = freed M" and "\<not> ub M'" and nt: "nthreads M \<le> nthreads M'"
    and S: "\<And>t. t < nthreads M \<Longrightarrow> S' t = S t \<and> cur M t \<le> cur M' t"
    and S': "\<And>t. nthreads M \<le> t \<Longrightarrow> t < nthreads M' \<Longrightarrow> \<not> S' t"
  shows "lock_inv l D fr V S' M'"
proof -
  have nb: "nobody S' M' = nobody S M"
    using nt S S' unfolding nobody_def by (metis not_le order_less_le_trans)
  have cov: "covers D V M' = covers D V M" for V
    using assms(3) by (simp add: covers_def)
  have hold: "t < nthreads M \<and> S t" if "t < nthreads M'" "S' t" for t
    using that S S' by (metis not_le)
  from inv obtain n where n: "lock_tail l D fr V S M n" and b: "lock_base l D S M"
    unfolding lock_inv_def by blast
  have "lock_base l D S' M'"
    using b assms(2-6) hold unfolding lock_base_def by auto
  moreover have "lock_tail l D fr V S' M' n"
  proof -
    have "covers D (cur M' t) M \<and> (\<forall>ts. cur M' t (Ts l) \<le> ts \<longrightarrow> ts \<le> n \<longrightarrow> hist M l ts \<noteq> None)"
      if "t < nthreads M'" "S' t" for t
    proof -
      from hold [OF that] S have "cur M t \<le> cur M' t" and t: "t < nthreads M" "S t" by auto
      then show ?thesis using n covers_mono unfolding lock_tail_def
        by (meson view_le_apply order_trans)
    qed
    then show ?thesis
      using n unfolding lock_tail_def nb cov assms(2) by auto
  qed
  ultimately show ?thesis unfolding lock_inv_def by blast
qed


lemma lock_invE:
  assumes "lock_inv l D fr V S M"
  obtains n where "lock_base l D S M" "lock_tail l D fr V S M n"
  using assms unfolding lock_inv_def by blast

lemma lock_inv_data:
  assumes inv: "lock_inv l D fr V S M" and t: "t < nthreads M" "S t" and d: "d \<in> D"
    and M': "hist M' = hist M" "nthreads M' = nthreads M" "freed M' = freed M" "ub M' = ub (touch k t d M)"
      "log M' = log (touch k t d M)" "cur M' = cur (touch k t d M)"
    and cell: "\<And>d. d \<in> D \<Longrightarrow> cell M' d \<noteq> Uninit"
  shows "lock_inv l D fr V S M'"
proof -
  from inv obtain n where b: "lock_base l D S M" and n: "lock_tail l D fr V S M n"
    by (rule lock_invE)
  let ?n = "Suc (cur M t (Clk t))"
  have cov: "covers D (cur M t) M" using n t unfolding lock_tail_def by blast
  then have cd: "covered (log M d) (cur M t)" using d by (simp add: covers_def)
  have le: "cur M t \<le> cur M' t" by (simp add: M'(6) touch_def Let_def le_fun_def)
  have "cur M' t (Clk t) = ?n" by (simp add: M'(6) touch_def Let_def)
  with cov le have cov': "covers D (cur M' t) M'"
    by (auto simp: covers_def M'(5) touch_def Let_def intro: covered_mono)
  have nb: "\<not> nobody S M" "\<not> nobody S M'" using t M'(2) by (auto simp: nobody_def)
  have uniq: "u = t" if "u < nthreads M" "S u" for u
    using that t b unfolding lock_base_def by blast
  have "lock_base l D S M'"
    using b cell cd d by (auto simp: lock_base_def M' touch_def Let_def)
  moreover have "lock_tail l D fr V S M' n"
  proof -
    have "hist M l ts \<noteq> None" if "cur M' t (Ts l) \<le> ts" "ts \<le> n" for ts
      using that n t order_trans [OF view_le_apply [OF le]] unfolding lock_tail_def by blast
    then show ?thesis
      using n cov' nb uniq unfolding lock_tail_def M'(1,2) by blast
  qed
  ultimately show ?thesis unfolding lock_inv_def by blast
qed

text \<open>The holder releases: a free message after every other one, with the holder's view.\<close>

lemma lock_inv_release:
  assumes inv: "lock_inv l D fr V S M" and t: "t < nthreads M" "S t"
    and ts: "hist M l ts = None" "cur M t (Ts l) \<le> ts"
    and M': "hist M' l = (hist M l)(ts \<mapsto> m)" "mval m = fr" "cur M t \<le> mview m"
      "nthreads M' = nthreads M" "freed M' = freed M" "\<not> ub M'" "cell M' = cell M"
      "\<And>d. d \<in> D \<Longrightarrow> log M' d = log M d" "atomic_only (log M' l)"
  shows "lock_inv l D fr V (S(t := False)) M'"
proof -
  from inv obtain n where b: "lock_base l D S M" and n: "lock_tail l D fr V S M n"
    by (rule lock_invE)
  have "n < ts" using n t ts unfolding lock_tail_def by (meson not_le)
  have uniq: "u = t" if "u < nthreads M" "S u" for u
    using that t b unfolding lock_base_def by blast
  have nb: "\<not> nobody S M" "nobody (S(t := False)) M'"
    using t M'(4) by (auto simp: nobody_def dest: uniq)
  have "covers D (cur M t) M" using n t unfolding lock_tail_def by blast
  then have cov: "covers D (mview m) M'"
    using M'(8) covered_mono [OF _ M'(3)] by (auto simp: covers_def)
  have "lock_base l D (S(t := False)) M'"
    using b M' by (auto simp: lock_base_def)
  moreover have "lock_tail l D fr V (S(t := False)) M' ts"
  proof -
    have fr: "hist M l (Suc k) \<noteq> None" if "hist M l k = Some m'" "mval m' = fr" for k m'
      using n nb(1) that unfolding lock_tail_def by blast
    have "last_ts ((hist M l)(ts \<mapsto> m)) ts"
      using n \<open>n < ts\<close> by (auto simp: lock_tail_def intro: last_ts_upd_new)
    moreover have "fr \<in> V" "\<And>ts m. hist M l ts = Some m \<Longrightarrow> mval m \<in> V"
      using n by (auto simp: lock_tail_def)
    ultimately show ?thesis
      using nb(2) cov M'(2) fr unfolding lock_tail_def M'(1) by (auto simp: nobody_def)
  qed
  ultimately show ?thesis unfolding lock_inv_def by blast
qed

text \<open>A thread without the lock finds it taken and overwrites it with another taken value.\<close>

lemma lock_inv_spin:
  assumes inv: "lock_inv l D fr V S M"
    and ts: "hist M l ts = Some m0" "mval m0 \<noteq> fr" "hist M l (Suc ts) = None"
    and M': "hist M' l = (hist M l)(Suc ts \<mapsto> m)" "mval m \<noteq> fr \<and> mval m \<in> V"
      "nthreads M' = nthreads M" "freed M' = freed M" "\<not> ub M'" "cell M' = cell M"
      "\<And>d. d \<in> D \<Longrightarrow> log M' d = log M d" "atomic_only (log M' l)"
      "\<And>u. u < nthreads M \<Longrightarrow> S u \<Longrightarrow> cur M' u = cur M u"
  shows "lock_inv l D fr V S M'"
proof -
  from inv obtain n where b: "lock_base l D S M" and n: "lock_tail l D fr V S M n"
    by (rule lock_invE)
  have nb: "nobody S M' = nobody S M" using M'(3) by (simp add: nobody_def)
  have cov: "covers D V M' = covers D V M" for V using M'(7) by (simp add: covers_def)
  have le: "ts \<le> n" using n ts(1) by (auto simp: lock_tail_def intro: last_ts_bound)
  have b': "lock_base l D S M'"
    using b M' by (auto simp: lock_base_def)
  show ?thesis
  proof (cases "ts = n")
    case True
    then have "\<not> nobody S M" using n ts by (auto simp: lock_tail_def)
    then have "lock_tail l D fr V S M' (Suc n)"
      using n ts True M'(2,3,9) unfolding lock_tail_def nb cov M'(1)
      by (auto intro: last_ts_upd_new simp: le_Suc_eq)
    with b' show ?thesis unfolding lock_inv_def by blast
  next
    case False
    then have "Suc ts < n" using le n ts unfolding lock_tail_def last_ts_def
      by (metis Suc_leI le_neq_implies_less)
    then have "lock_tail l D fr V S M' n"
      using n ts M'(2,3,9) unfolding lock_tail_def nb cov M'(1)
      by (auto intro: last_ts_upd_old)
    with b' show ?thesis unfolding lock_inv_def by blast
  qed
qed

text \<open>A thread finds the lock free: it reads the last message and takes over its view.\<close>

lemma lock_inv_acquire:
  assumes inv: "lock_inv l D fr V S M" and t: "t < nthreads M"
    and ts: "hist M l ts = Some m0" "mval m0 = fr" "hist M l (Suc ts) = None"
    and M': "hist M' l = (hist M l)(Suc ts \<mapsto> m)" "mval m \<noteq> fr \<and> mval m \<in> V" "mview m0 \<le> cur M' t"
      "Suc ts \<le> cur M' t (Ts l)"
      "nthreads M' = nthreads M" "freed M' = freed M" "\<not> ub M'" "cell M' = cell M"
      "\<And>d. d \<in> D \<Longrightarrow> log M' d = log M d" "atomic_only (log M' l)"
  shows "lock_inv l D fr V (S(t := True)) M'"
proof -
  from inv obtain n where b: "lock_base l D S M" and n: "lock_tail l D fr V S M n"
    by (rule lock_invE)
  from n have lt: "last_ts (hist M l) n" and V: "fr \<in> V" "\<And>ts m. hist M l ts = Some m \<Longrightarrow> mval m \<in> V"
    and fr: "\<And>ts m. hist M l ts = Some m \<Longrightarrow> mval m = fr \<Longrightarrow>
      (ts = n \<and> nobody S M) \<or> hist M l (Suc ts) \<noteq> None"
    and free: "nobody S M \<Longrightarrow> \<exists>m. hist M l n = Some m \<and> mval m = fr \<and> covers D (mview m) M"
    unfolding lock_tail_def by auto
  have "ts = n" and nb: "nobody S M" using fr [OF ts(1,2)] ts(3) by auto
  have nb': "\<not> nobody (S(t := True)) M'" using t M'(5) by (auto simp: nobody_def)
  have cov: "covers D (cur M' t) M'"
    using free [OF nb] ts M'(3,9) \<open>ts = n\<close> covered_mono by (fastforce simp: covers_def)
  have "lock_base l D (S(t := True)) M'"
    using b nb M' by (auto simp: lock_base_def nobody_def)
  moreover have "lock_tail l D fr V (S(t := True)) M' (Suc n)"
    unfolding lock_tail_def M'(1)
  proof (intro conjI allI impI)
    fix k m' assume *: "((hist M l)(Suc ts \<mapsto> m)) k = Some m'" "mval m' = fr"
    then show "(k = Suc n \<and> nobody (S(t := True)) M') \<or> ((hist M l)(Suc ts \<mapsto> m)) (Suc k) \<noteq> None"
      using fr [of k m'] M'(2) \<open>ts = n\<close> by (auto split: if_splits)
  next
    fix u k assume "u < nthreads M'" "(S(t := True)) u" "cur M' u (Ts l) \<le> k" "k \<le> Suc n"
    then show "((hist M l)(Suc ts \<mapsto> m)) k \<noteq> None"
      using nb M'(4,5) \<open>ts = n\<close> by (auto simp: nobody_def split: if_splits)
  qed (use lt V nb nb' cov M'(2,5) \<open>ts = n\<close> in \<open>auto simp: nobody_def intro: last_ts_upd_new split: if_splits\<close>)
  ultimately show ?thesis unfolding lock_inv_def by blast
qed


lemma lock_inv_load:
  assumes inv: "lock_inv l D fr V S M" and "m_load ts t o1 l M = Some (v, M')"
  shows "lock_inv l D fr V S M'"
proof -
  have "lock_base l D S M" using inv by (rule lock_invE)
  then show ?thesis
    using assms(2)
    by (intro lock_inv_frame [OF inv])
       (auto simp: lock_base_def m_load_def touch_def observe_def Let_def le_fun_def le_max_iff_disj
          split: option.splits if_splits)
qed

lemma lock_inv_rmw:
  assumes inv: "lock_inv l D fr V S M" and t: "t < nthreads M"
    and ex: "m_rmw ts sp t os of1 l f M = Some (b, v, M')"
    and tr: "lock_tr l D fr V (S t) (IRmw os of1 w l f) (RCas b v) h'"
  shows "lock_inv l D fr V (S(t := h')) M'"
proof (cases b)
  case False
  with ex have "m_load ts t of1 l M = Some (v, M')"
    by (auto simp: m_rmw_def Let_def split: option.splits if_splits)
  from lock_inv_load [OF inv this] tr False show ?thesis by simp
next
  case True
  have b: "lock_base l D S M" using inv by (rule lock_invE)
  from ex True obtain m v' where m: "hist M l ts = Some m" "mval m = v" "f v = Some v'"
      "hist M l (Suc ts) = None" "readable os t l ts M"
    and M': "M' = (let M1 = observe os t l (Suc ts) (mview m) (touch AtWrite t l M)
               in post l (Suc ts) v' (sup (mview m) (released os t l (Suc ts) M1)) M1)"
    by (auto simp: m_rmw_def Let_def split: option.splits if_splits)
  let ?m = "\<lparr>mval = v', mview = sup (mview m) (released os t l (Suc ts)
    (observe os t l (Suc ts) (mview m) (touch AtWrite t l M)))\<rparr>"
  have facts: "hist M' l = (hist M l)(Suc ts \<mapsto> ?m)" "nthreads M' = nthreads M" "freed M' = freed M"
      "\<not> ub M'" "cell M' = cell M" "\<And>d. d \<in> D \<Longrightarrow> log M' d = log M d" "atomic_only (log M' l)"
    using b by (auto simp: lock_base_def M' Let_def post_def observe_def touch_def)
  consider (release) "S t" "releases os" "v' = fr" "\<not> h'"
    | (acquire) "\<not> S t" "v' \<noteq> fr" "v' \<in> V" "v = fr" "acquires os" "h'"
    | (spin) "\<not> S t" "v' \<noteq> fr" "v' \<in> V" "v \<noteq> fr" "\<not> h'"
    using tr m True by (auto split: if_splits)
  then show ?thesis
  proof cases
    case release
    have "cur M t \<le> mview ?m"
      using release by (simp add: released_def observe_def touch_def Let_def le_fun_def le_max_iff_disj)
    with release m show ?thesis
      using lock_inv_release [OF inv t release(1) m(4) _ facts(1)] facts by (auto simp: readable_def)
  next
    case acquire
    have "mview m \<le> cur M' t" "Suc ts \<le> cur M' t (Ts l)"
      using acquire by (simp_all add: M' Let_def post_def observe_def touch_def le_fun_def le_max_iff_disj)
    with acquire m show ?thesis
      using lock_inv_acquire [OF inv t m(1) _ m(4) facts(1)] facts by auto
  next
    case spin
    have "cur M' u = cur M u" if "S u" for u
      using that spin(1) by (auto simp: M' Let_def post_def observe_def touch_def)
    with spin m show ?thesis
      using lock_inv_spin [OF inv m(1) _ m(4) facts(1)] facts by (auto simp: fun_upd_idem)
  qed
qed

lemma lock_inv_store:
  assumes inv: "lock_inv l D fr V S M" and t: "t < nthreads M" "S t"
    and ex: "m_store ts t o1 l fr M = Some M'" and "releases o1"
  shows "lock_inv l D fr V (S(t := False)) M'"
proof -
  have b: "lock_base l D S M" using inv by (rule lock_invE)
  from ex have ts: "hist M l ts = None" "cur M t (Ts l) \<le> ts"
    by (auto simp: m_store_def split: if_splits)
  let ?m = "\<lparr>mval = fr, mview = cur (observe o1 t l ts bot (touch AtWrite t l M)) t\<rparr>"
  have "hist M' l = (hist M l)(ts \<mapsto> ?m)" "nthreads M' = nthreads M" "freed M' = freed M"
      "\<not> ub M'" "cell M' = cell M" "\<And>d. d \<in> D \<Longrightarrow> log M' d = log M d" "atomic_only (log M' l)"
    using b ex \<open>releases o1\<close>
    by (auto simp: lock_base_def m_store_def Let_def post_def observe_def touch_def released_def
        split: if_splits)
  moreover have "cur M t \<le> mview ?m"
    by (simp add: observe_def touch_def Let_def le_fun_def le_max_iff_disj)
  ultimately show ?thesis
    using lock_inv_release [OF inv t ts] by auto
qed

lemma lock_inv_access:
  assumes inv: "lock_inv l D fr V S M" and "t < nthreads M" "S t" "d \<in> D"
  shows "lock_inv l D fr V S (m_read t d M)" and "v \<noteq> Uninit \<Longrightarrow> lock_inv l D fr V S (m_write t d v M)"
proof -
  have "cell M d \<noteq> Uninit" if "d \<in> D" for d
    using inv that by (auto simp: lock_base_def elim: lock_invE)
  with assms show "lock_inv l D fr V S (m_read t d M)"
    and "v \<noteq> Uninit \<Longrightarrow> lock_inv l D fr V S (m_write t d v M)"
    by (auto simp: m_read_def m_write_def touch_def Let_def split: if_splits
        intro!: lock_inv_data [OF inv, of t d])
qed

lemma lock_inv_quiet:
  assumes inv: "lock_inv l D fr V S M" and "t < nthreads M" and q: "quiet i"
    and ex: "mexec fx ch t i M = Some (r, M')"
  shows "lock_inv l D fr V (upd_state (\<lambda>_. False) S t i (S t) (nthreads M)) M'"
proof -
  have b: "lock_base l D S M" using inv by (rule lock_invE)
  then show ?thesis
    using assms(2) mexec_quiet [OF q ex] mexec_nthreads [OF ex] mexec_cur_mono [OF ex]
    by (intro lock_inv_frame [OF inv])
       (auto simp: lock_base_def upd_state_def split: instr.splits if_splits)
qed

lemma lock_inv_step:
  assumes inv: "lock_inv l D fr V S M" and t: "t < nthreads M"
    and ex: "mexec fx ch t i M = Some (r, M')" and tr: "lock_tr l D fr V (S t) i r h'"
  shows "lock_inv l D fr V (upd_state (\<lambda>_. False) S t i h' (nthreads M)) M'"
proof (cases "quiet i")
  case True
  with tr have "h' = S t" by (cases i) auto
  with lock_inv_quiet [OF inv t True ex] show ?thesis by simp
next
  case False
  with tr ex inv t show ?thesis
    by (cases i) (auto simp: upd_state_def fun_upd_idem
        intro: lock_inv_load lock_inv_store lock_inv_access lock_inv_rmw [OF inv t])
qed

section \<open>The theorem for all clients\<close>

lemma lock_inv_pos:
  assumes "lock_inv l D fr V S M" and "mexec fx ch t i M = Some (r, M')"
  shows "lock_pos l V s i r"
proof -
  have "mval m \<in> V" if "hist M l ts = Some m" for ts m
    using assms(1) that by (auto simp: lock_tail_def elim: lock_invE)
  with assms(2) show ?thesis
    by (cases i) (auto simp: m_load_def m_rmw_def Let_def split: option.splits if_splits)
qed

interpretation lk: protocol "lock_pos l V" "lock_tr l D fr V" "\<lambda>h. \<not> h" "\<lambda>_. False" "\<lambda>h. \<not> h"
    "lock_inv l D fr V" for l D fr V
  by unfold_locales (auto intro: lock_inv_step lock_inv_pos)

abbreviation lock_prog :: "loc \<Rightarrow> loc set \<Rightarrow> 'a val \<Rightarrow> 'a val set \<Rightarrow> ('r \<Rightarrow> bool \<Rightarrow> bool) \<Rightarrow> bool \<Rightarrow> ('a, 'r) prog \<Rightarrow> bool" where
  "lock_prog l D fr V Q h p \<equiv> conforms (lock_pos l V) (lock_tr l D fr V) (\<lambda>h. \<not> h) Q h p"

lemma lock_inv_init:
  assumes "l \<notin> D" and "fr \<in> V" and "static_val vs l = fr" and "\<And>d. d \<in> D \<Longrightarrow> static_val vs d \<noteq> Uninit"
  shows "lock_inv l D fr V (\<lambda>_. False) (init_mem vs)"
proof -
  have "lock_tail l D fr V (\<lambda>_. False) (init_mem vs) 0"
    using assms by (auto simp: lock_tail_def init_mem_def last_ts_def nobody_def covers_def)
  moreover have "lock_base l D (\<lambda>_. False) (init_mem vs)"
    using assms by (auto simp: lock_base_def init_mem_def)
  ultimately show ?thesis unfolding lock_inv_def by blast
qed

lemma lock_safe:
  assumes "l \<notin> D" and "fr \<in> V" and "static_val vs l = fr" and "\<And>d. d \<in> D \<Longrightarrow> static_val vs d \<noteq> Uninit"
    and "lock_prog l D fr V (\<lambda>_ h. \<not> h) False main"
    and "\<And>a. lock_prog l D fr V (\<lambda>_ h. \<not> h) False (code a)"
    and "reach fx code (init_config vs main) c"
  shows "lk.safe l V D fr c"
  using assms(5-) lock_inv_init [OF assms(1-4)]
  by (intro lk.safe_reach [OF _ lk.safe_init]) auto

lemma safe_no_ub: "lk.safe l V D fr c \<Longrightarrow> \<not> ub (mem c)"
  unfolding lk.safe_def by (auto simp: lock_base_def elim: lock_invE)

text \<open>A thread is at the data when its next instruction accesses it.\<close>

definition at_data :: "loc set \<Rightarrow> ('a, 'r) prog \<Rightarrow> bool" where
  "at_data D p = (case p of Do (IRead d) k \<Rightarrow> d \<in> D | Do (IWrite d v) k \<Rightarrow> d \<in> D | _ \<Rightarrow> False)"

text \<open>At most one thread is at the data.\<close>

definition exclusive :: "loc set \<Rightarrow> 'a config \<Rightarrow> bool" where
  "exclusive D c \<longleftrightarrow> (\<forall>t u p q. progs c t = Some p \<and> at_data D p \<and>
     progs c u = Some q \<and> at_data D q \<longrightarrow> t = u)"

lemma safe_exclusive:
  assumes safe: "lk.safe l V D fr c"
  shows "exclusive D c"
  unfolding exclusive_def
proof (intro allI impI, elim conjE)
  fix t u p q
  assume p: "progs c t = Some p" "at_data D p" and q: "progs c u = Some q" "at_data D q"
  from safe obtain S where inv: "lock_inv l D fr V S (mem c)"
    and conf: "\<And>t p. progs c t = Some p \<Longrightarrow> t < nthreads (mem c) \<and>
      conforms (lock_pos l V) (lock_tr l D fr V) (\<lambda>h. \<not> h) (\<lambda>_ h. \<not> h) (S t) p"
    unfolding lk.safe_def by blast
  have holds: "S t" if "progs c t = Some p" "at_data D p" for t p
  proof -
    from that obtain i k where "p = Do i k" "(\<exists>d. i = IRead d) \<or> (\<exists>d v. i = IWrite d v)"
      by (auto simp: at_data_def split: prog.splits instr.splits)
    with conf [OF that(1)] show ?thesis
      by (auto simp: conforms_Do_iff dest: spec [of _ "RVal VUnit"])
  qed
  have "lock_base l D S (mem c)" using inv by (rule lock_invE)
  with holds [OF p] holds [OF q] conf [OF p(1)] conf [OF q(1)] show "t = u"
    unfolding lock_base_def by blast
qed

section \<open>The interface of an implementation\<close>

text \<open>Implementations use only their atomic variable, and they never panic.\<close>

abbreviation impl_prog :: "loc \<Rightarrow> 'a val \<Rightarrow> 'a val set \<Rightarrow> ('r \<Rightarrow> bool \<Rightarrow> bool) \<Rightarrow> bool \<Rightarrow> ('a, 'r) prog \<Rightarrow> bool" where
  "impl_prog l fr V Q h p \<equiv> conforms (lock_pos l V) (impl_tr l fr V) (\<lambda>_. False) Q h p"

locale lock_impl =
  fixes l :: loc and fr :: "'a val" and V :: "'a val set" and lock :: "('a, unit) prog" and unlock :: "('a, unit) prog"
  assumes free_val: "fr \<in> V"
    and lock_ok: "impl_prog l fr V (\<lambda>_ h. h) False lock"
    and unlock_ok: "impl_prog l fr V (\<lambda>_ h. \<not> h) True unlock"
begin

lemma impl_client:
  assumes "impl_prog l fr V Q h p"
  shows "lock_prog l D fr V Q h p"
proof -
  have "lock_tr l D fr V h i r h'" if "impl_tr l fr V h i r h'" for h i r and h'
    using that by (cases i) auto
  then show ?thesis
    by (auto intro: conforms_weaken [OF assms])
qed

lemma lock_client: "lock_prog l D fr V (\<lambda>_ h. h) False lock"
  by (rule impl_client) (rule lock_ok)

lemma unlock_client: "lock_prog l D fr V (\<lambda>_ h. \<not> h) True unlock"
  by (rule impl_client) (rule unlock_ok)

text \<open>A critical section: the data may be used between \<open>lock\<close> and \<open>unlock\<close>.\<close>

lemma critical_client:
  assumes "lock_prog l D fr V (\<lambda>_ h. h) True body"
  shows "lock_prog l D fr V (\<lambda>_ h. \<not> h) False (seqp lock (seqp body unlock))"
  using lock_client assms unlock_client
  by (auto intro!: conforms_seq [where Q = "\<lambda>_ h. h"])

end

section \<open>Clients of a lock\<close>

text \<open>
  A program accesses only \<open>D\<close> when it reads and writes cells in \<open>D\<close>, spawns and joins threads,
  prints and so on, but touches no other location; and it does not panic.
\<close>

fun access_tr :: "loc set \<Rightarrow> unit \<Rightarrow> 'a instr \<Rightarrow> 'a resp \<Rightarrow> unit \<Rightarrow> bool" where
  "access_tr D s (IRead d) r s' = (d \<in> D)"
| "access_tr D s (IWrite d v) r s' = (d \<in> D \<and> v \<noteq> Uninit)"
| "access_tr D s i r s' = quiet i"

definition accesses :: "loc set \<Rightarrow> ('a, 'r) prog \<Rightarrow> bool" where
  "accesses D p = conforms (\<lambda>_ _ _. True) (access_tr D) (\<lambda>_. False) (\<lambda>_ _. True) () p"

text \<open>A client is a sequence of code outside of the lock and of critical sections.\<close>

datatype 'a client_code =
    Plain "('a, unit) prog"
  | Critical "('a, unit) prog"

primrec section_prog :: "('a, unit) prog \<Rightarrow> ('a, unit) prog \<Rightarrow> 'a client_code \<Rightarrow> ('a, unit) prog" where
  "section_prog lock unlock (Plain p) = p"
| "section_prog lock unlock (Critical b) = seqp lock (seqp b unlock)"

definition client :: "('a, unit) prog \<Rightarrow> ('a, unit) prog \<Rightarrow> 'a client_code list \<Rightarrow> ('a, unit) prog" where
  "client lock unlock cs = for_list cs (section_prog lock unlock)"

primrec section_ok :: "loc set \<Rightarrow> 'a client_code \<Rightarrow> bool" where
  "section_ok D (Plain p) = accesses {} p"
| "section_ok D (Critical b) = accesses D b"

lemma accesses_lock_prog:
  assumes "accesses D' p" and "D' = {} \<or> D' \<subseteq> D \<and> h"
  shows "lock_prog l D fr V (\<lambda>_ h'. h' = h) h p"
proof -
  have "conforms (lock_pos l V) (lock_tr l D fr V) (\<lambda>h. \<not> h) (\<lambda>_ h'. True \<and> h' = h) h p"
  proof (rule conforms_lift [where \<pi> = "\<lambda>_. ()" and P = "\<lambda>h'. h' = h"])
    show "conforms (\<lambda>_ _ _. True) (access_tr D') (\<lambda>_. False) (\<lambda>_ _. True) () p"
      using assms(1) by (simp add: accesses_def)
    fix s and i :: "'a instr" and r y assume "s = h" "access_tr D' () i r y"
    then show "\<exists>s'. lock_tr l D fr V s i r s' \<and> () = y \<and> s' = h"
      using assms(2) by (cases i) auto
  qed simp_all
  then show ?thesis by simp
qed

context lock_impl
begin

lemma lock_prog_client:
  assumes "list_all (section_ok D) cs"
  shows "lock_prog l D fr V (\<lambda>_ h. \<not> h) False (client lock unlock cs)"
  unfolding client_def
proof -
  have "lock_prog l D fr V (\<lambda>_ h. list_all (section_ok D) ([] :: 'a client_code list) \<and> \<not> h) False (for_list cs (section_prog lock unlock))"
  proof (rule conforms_for_list [where J = "\<lambda>cs h. list_all (section_ok D) cs \<and> \<not> h"])
    fix x :: "'a client_code" and xs h assume *: "list_all (section_ok D) (x # xs) \<and> \<not> h"
    show "lock_prog l D fr V (\<lambda>_ h. list_all (section_ok D) xs \<and> \<not> h) h (section_prog lock unlock x)"
    proof (cases x)
      case (Plain p)
      with * accesses_lock_prog [of "{}" p D h] show ?thesis by (auto elim: conforms_mono)
    next
      case (Critical b)
      with * have "lock_prog l D fr V (\<lambda>_ h. h) True b"
        using accesses_lock_prog [of D b D True] by (auto elim: conforms_mono)
      from critical_client [OF this] * Critical show ?thesis by (auto elim: conforms_mono)
    qed
  qed (use assms in simp)
  then show "lock_prog l D fr V (\<lambda>_ h. \<not> h) False (for_list cs (section_prog lock unlock))" by simp
qed

theorem client_safe:
  assumes "l \<notin> D" "static_val vs l = fr" "\<And>d. d \<in> D \<Longrightarrow> static_val vs d \<noteq> Uninit"
    and "list_all (section_ok D) main" "\<And>a. list_all (section_ok D) (thread a)"
    and "reach fx (\<lambda>a. client lock unlock (thread a)) (init_config vs (client lock unlock main)) c"
  shows "\<not> ub (mem c)" "exclusive D c"
proof -
  have "lk.safe l V D fr c"
    using assms lock_prog_client by (intro lock_safe [OF assms(1) free_val assms(2,3)]) auto
  then show "\<not> ub (mem c)" "exclusive D c"
    by (rule safe_no_ub, rule safe_exclusive)
qed

end

end
