(* ===== verification/Locked_Data.thy ===== *)
theory Locked_Data
  imports Lock_Protocol "HOL-Library.Multiset"
begin

text \<open>
  What a program computes in data behind a lock. The threads have a stock of updates to
  perform on the data, which the main thread hands out when it spawns them; an update is a read
  and a write inside one critical section. The protocol shows that no update is lost: what was
  done and what is still to do is the stock of the beginning, so that after all threads are
  joined the data is the result of all updates. The data, the updates and what they do are
  given by a \<open>task\<close>; the counter and the vector of the example programs are two tasks. The code
  of the lock is again any implementation of \<open>lock_impl\<close>.
\<close>

section \<open>Tasks\<close>

text \<open>
  \<open>outcome U v\<close>: \<open>v\<close> is the data after the updates \<open>U\<close> in some order; \<open>update u v v'\<close>: update \<open>u\<close>
  turns \<open>v\<close> into \<open>v'\<close>; \<open>job a\<close>: the updates given to a thread that is spawned with \<open>a\<close>; \<open>stock\<close>:
  all updates; \<open>prints\<close>: what the main thread prints.
\<close>

record ('a, 'u) task =
  outcome :: "'u multiset \<Rightarrow> 'a val \<Rightarrow> bool"
  update :: "'u \<Rightarrow> 'a val \<Rightarrow> 'a val \<Rightarrow> bool"
  job :: "'a val \<Rightarrow> 'u multiset"
  stock :: "'u multiset"
  prints :: "'a val list"

locale accumulator =
  fixes J :: "('a, 'u) task"
  assumes outcome_init: "\<not> outcome J U Uninit"
    and outcome_update: "outcome J U v \<Longrightarrow> update J u v v' \<Longrightarrow> outcome J (add_mset u U) v'"

section \<open>The automaton\<close>

datatype 'a phase = Outside | Inside | Loaded "'a val"

record ('a, 'u) dst =
  todo :: "'u multiset"
  phase :: "'a phase"
  spawned_n :: nat
  joined_n :: nat
  is_main :: bool
  printed :: "'a val list"

definition held :: "('a, 'u) dst \<Rightarrow> bool" where
  "held s = (phase s \<noteq> Outside)"

definition enter_leave :: "bool \<Rightarrow> ('a, 'u) dst \<Rightarrow> ('a, 'u) dst" where
  "enter_leave h s = s\<lparr>phase := (if h then (if held s then phase s else Inside) else Outside)\<rparr>"

fun dtr :: "loc \<Rightarrow> loc \<Rightarrow> 'a val \<Rightarrow> 'a val set \<Rightarrow> ('a, 'u) task \<Rightarrow> ('a, 'u) dst \<Rightarrow> 'a instr \<Rightarrow> 'a resp \<Rightarrow> ('a, 'u) dst \<Rightarrow> bool" where
  "dtr l d fr V J s (IRead x) r s' = (x = d \<and> held s \<and> s' = s\<lparr>phase := Loaded (rval r)\<rparr>)"
| "dtr l d fr V J s (IWrite x v) r s' =
     (x = d \<and> v \<noteq> Uninit \<and> (\<exists>w u. phase s = Loaded w \<and> u \<in># todo s \<and> update J u w v \<and>
      s' = s\<lparr>phase := Inside, todo := todo s - {#u#}\<rparr>))"
| "dtr l d fr V J s (ISpawn a) r s' =
     (is_main s \<and> job J a \<subseteq># todo s \<and> s' = s\<lparr>todo := todo s - job J a, spawned_n := Suc (spawned_n s)\<rparr>)"
| "dtr l d fr V J s (IJoin u) r s' = (is_main s \<and> u = Suc (joined_n s) \<and> s' = s\<lparr>joined_n := u\<rparr>)"
| "dtr l d fr V J s (IPrint v) r s' =
     (is_main s \<and> (\<exists>vs. printed s @ v # vs = prints J) \<and> s' = s\<lparr>printed := printed s @ [v]\<rparr>)"
| "dtr l d fr V J s i r s' =
     (\<exists>h'. impl_tr l fr V (held s) i r h' \<and> s' = enter_leave h' s)"

text \<open>
  A thread that reads the data finds the result of updates among those it need not do itself,
  and the main thread, when it has nothing to do and has joined all threads, of all updates.
\<close>

fun dpos :: "loc \<Rightarrow> loc \<Rightarrow> 'a val set \<Rightarrow> ('a, 'u) task \<Rightarrow> ('a, 'u) dst \<Rightarrow> 'a instr \<Rightarrow> 'a resp \<Rightarrow> bool" where
  "dpos l d V J s (IRead x) r = (x = d \<longrightarrow> (\<exists>U. outcome J U (rval r) \<and> U + todo s \<subseteq># stock J \<and>
     (todo s = {#} \<longrightarrow> is_main s \<longrightarrow> joined_n s = spawned_n s \<longrightarrow> U = stock J)))"
| "dpos l d V J s (ISpawn a) r = (is_main s \<longrightarrow> r = RVal (VTid (Suc (spawned_n s))))"
| "dpos l d V J s i r = lock_pos l V s i r"

definition dfin :: "('a, 'u) task \<Rightarrow> ('a, 'u) dst \<Rightarrow> bool" where
  "dfin J s \<longleftrightarrow> todo s = {#} \<and> phase s = Outside \<and> (is_main s \<longrightarrow> printed s = prints J)"

definition dworker :: "'u multiset \<Rightarrow> ('a, 'u) dst" where
  "dworker U = \<lparr>todo = U, phase = Outside, spawned_n = 0, joined_n = 0, is_main = False, printed = []\<rparr>"

definition dmain :: "('a, 'u) task \<Rightarrow> ('a, 'u) dst" where
  "dmain J = \<lparr>todo = stock J, phase = Outside, spawned_n = 0, joined_n = 0, is_main = True, printed = []\<rparr>"

section \<open>The invariant\<close>

definition remaining :: "(tid \<Rightarrow> ('a, 'u) dst) \<Rightarrow> nat \<Rightarrow> 'u multiset" where
  "remaining S n = (\<Sum>t<n. todo (S t))"

definition dres :: "loc \<Rightarrow> ('a, 'u) task \<Rightarrow> (tid \<Rightarrow> ('a, 'u) dst) \<Rightarrow> 'a mem \<Rightarrow> bool" where
  "dres d J S M \<longleftrightarrow> 0 < nthreads M \<and> nthreads M = Suc (spawned_n (S 0)) \<and>
     (\<forall>t < nthreads M. is_main (S t) = (t = 0)) \<and>
     (\<exists>U. outcome J U (cell M d) \<and> U + remaining S (nthreads M) = stock J) \<and>
     (\<forall>t < nthreads M. \<forall>w. phase (S t) = Loaded w \<longrightarrow> cell M d = w) \<and>
     (\<forall>u < nthreads M. 0 < u \<longrightarrow> u \<le> joined_n (S 0) \<longrightarrow> todo (S u) = {#}) \<and>
     joined_n (S 0) \<le> spawned_n (S 0) \<and>
     out M = printed (S 0) \<and> (\<exists>vs. printed (S 0) @ vs = prints J)"

definition dinv :: "loc \<Rightarrow> loc \<Rightarrow> 'a val \<Rightarrow> 'a val set \<Rightarrow> ('a, 'u) task \<Rightarrow> (tid \<Rightarrow> ('a, 'u) dst) \<Rightarrow> 'a mem \<Rightarrow> bool" where
  "dinv l d fr V J S M \<longleftrightarrow> lock_inv l {d} fr V (held \<circ> S) M \<and> dres d J S M"

lemma held_simps [simp]:
  "held (enter_leave h s) = h" "held (s\<lparr>phase := p\<rparr>) = (p \<noteq> Outside)" "held (s\<lparr>todo := U\<rparr>) = held s"
  "held (s\<lparr>spawned_n := n\<rparr>) = held s" "held (s\<lparr>joined_n := n\<rparr>) = held s"
  "held (s\<lparr>printed := vs\<rparr>) = held s" "phase s = Inside \<Longrightarrow> held s" "phase s = Loaded w \<Longrightarrow> held s"
  by (auto simp: held_def enter_leave_def)

lemma enter_leave_simps [simp]:
  "todo (enter_leave h s) = todo s" "spawned_n (enter_leave h s) = spawned_n s"
  "joined_n (enter_leave h s) = joined_n s" "is_main (enter_leave h s) = is_main s"
  "printed (enter_leave h s) = printed s"
  by (simp_all add: enter_leave_def)

lemma enter_leave_Loaded: "phase (enter_leave h s) = Loaded w \<Longrightarrow> phase s = Loaded w"
  by (auto simp: enter_leave_def split: if_splits)

lemma dtr_lock:
  assumes "dtr l d fr V J s i r s'"
  shows "lock_tr l {d} fr V (held s) i r (held s')"
  using assms by (cases i) auto

lemma dtr_impl: "impl_tr l fr V (held s) i r h' \<Longrightarrow> dtr l d fr V J s i r (enter_leave h' s)"
  by (cases i; simp only: dtr.simps impl_tr.simps silent.simps; blast)

lemma remaining_upd: "t < n \<Longrightarrow> remaining (S(t := s)) n + todo (S t) = remaining S n + todo s"
  unfolding remaining_def by (rule sum_upd)

lemma remaining_spawn: "remaining (S(n := s)) (Suc n) = remaining S n + todo s"
  unfolding remaining_def by (simp add: sum_upd_new)

lemma remaining_ge: "t < n \<Longrightarrow> todo (S t) \<subseteq># remaining S n"
  unfolding remaining_def by (simp add: sum.remove [of "{..<n}" t])

lemma dres_same:
  assumes "dres d J S M" and "t < nthreads M"
    and "cell M' d = cell M d" "nthreads M' = nthreads M" "out M' = out M"
    and s': "todo s' = todo (S t)" "spawned_n s' = spawned_n (S t)" "joined_n s' = joined_n (S t)"
      "is_main s' = is_main (S t)" "printed s' = printed (S t)"
    and "\<And>w. phase s' = Loaded w \<Longrightarrow> cell M d = w"
  shows "dres d J (S(t := s')) M'"
proof -
  have "remaining (S(t := s')) (nthreads M) = remaining S (nthreads M)"
    using remaining_upd [OF assms(2), of S s'] s'(1) by simp
  with assms show ?thesis unfolding dres_def by (auto split: if_splits)
qed

lemma dres_impl:
  assumes cr: "dres d J S M" and t: "t < nthreads M"
    and "cell M' d = cell M d" "nthreads M' = nthreads M" "out M' = out M"
  shows "dres d J (S(t := enter_leave h (S t))) M'"
proof (rule dres_same [OF cr t assms(3-5)])
  fix w assume "phase (enter_leave h (S t)) = Loaded w"
  then have "phase (S t) = Loaded w" by (rule enter_leave_Loaded)
  with cr t show "cell M d = w" unfolding dres_def by blast
qed simp_all

lemma dres_spawn:
  assumes "dres d J S M" and "is_main (S t)" "U \<subseteq># todo (S t)" "t < nthreads M"
    and M': "cell M' d = cell M d" "nthreads M' = Suc (nthreads M)" "out M' = out M"
  shows "dres d J ((S(t := (S t)\<lparr>todo := todo (S t) - U, spawned_n := Suc (spawned_n (S t))\<rparr>))
    (nthreads M := dworker U)) M'"
proof -
  let ?s = "(S t)\<lparr>todo := todo (S t) - U, spawned_n := Suc (spawned_n (S t))\<rparr>"
  have "t = 0" using assms(1,2,4) unfolding dres_def by auto
  obtain R where R: "todo (S t) = U + R" using assms(3) by (metis subset_mset.add_diff_inverse)
  have "remaining (S(t := ?s)) (nthreads M) + U = remaining S (nthreads M)"
    using remaining_upd [OF assms(4), of S ?s] by (simp add: R)
  then have "remaining ((S(t := ?s))(nthreads M := dworker U)) (nthreads M') = remaining S (nthreads M)"
    by (simp add: M' remaining_spawn dworker_def)
  with assms \<open>t = 0\<close> show ?thesis
    unfolding dres_def M'(1,3) by (auto simp: dworker_def less_Suc_eq split: if_splits)
qed

lemma dres_join:
  assumes "dres d J S M" and "is_main (S t)" "t < nthreads M"
    and u: "u < nthreads M" "dfin J (S u)" "u = Suc (joined_n (S t))"
    and M': "cell M' d = cell M d" "nthreads M' = nthreads M" "out M' = out M"
  shows "dres d J (S(t := (S t)\<lparr>joined_n := u\<rparr>)) M'"
proof -
  have "t = 0" using assms(1-3) unfolding dres_def by auto
  have "remaining (S(t := (S t)\<lparr>joined_n := u\<rparr>)) (nthreads M) = remaining S (nthreads M)"
    using remaining_upd [OF assms(3), of S "(S t)\<lparr>joined_n := u\<rparr>"] by simp
  with assms \<open>t = 0\<close> show ?thesis
    unfolding dres_def by (auto simp: dfin_def le_Suc_eq split: if_splits)
qed

lemma dres_print:
  assumes "dres d J S M" and "is_main (S t)" "t < nthreads M" "\<exists>vs. printed (S t) @ v # vs = prints J"
    and M': "cell M' d = cell M d" "nthreads M' = nthreads M" "out M' = out M @ [v]"
  shows "dres d J (S(t := (S t)\<lparr>printed := printed (S t) @ [v]\<rparr>)) M'"
proof -
  have "t = 0" using assms(1-3) unfolding dres_def by auto
  have "remaining (S(t := (S t)\<lparr>printed := printed (S t) @ [v]\<rparr>)) (nthreads M) = remaining S (nthreads M)"
    using remaining_upd [OF assms(3), of S "(S t)\<lparr>printed := printed (S t) @ [v]\<rparr>"] by simp
  with assms \<open>t = 0\<close> show ?thesis
    unfolding dres_def by (auto split: if_splits)
qed

lemma dinv_pos:
  assumes inv: "dinv l d fr V J S M" and t: "t < nthreads M"
    and ex: "mexec fx ch t i M = Some (r, M')"
  shows "dpos l d V J (S t) i r"
proof (cases i)
  case (IRead x)
  from inv obtain U where U: "outcome J U (cell M d)" "U + remaining S (nthreads M) = stock J"
    unfolding dinv_def dres_def by blast
  have "remaining S (nthreads M) = {#}"
    if "todo (S t) = {#}" "is_main (S t)" "joined_n (S t) = spawned_n (S t)"
  proof -
    have "todo (S u) = {#}" if u: "u < nthreads M" for u
      using u that t inv \<open>todo (S t) = {#}\<close> \<open>is_main (S t)\<close> \<open>joined_n (S t) = spawned_n (S t)\<close>
      unfolding dinv_def dres_def by (cases "u = 0") auto
    then show ?thesis by (simp add: remaining_def)
  qed
  moreover have "U + todo (S t) \<subseteq># stock J"
    using remaining_ge [OF t, of S] U(2) by (metis subset_mset.add_left_mono)
  ultimately show ?thesis
    using IRead ex U by auto
next
  case (ISpawn a)
  with inv t ex show ?thesis unfolding dinv_def dres_def by auto
qed (use ex lock_inv_pos [OF _ ex] inv in \<open>auto simp: dinv_def\<close>)

context accumulator
begin

lemma dres_write:
  assumes "dres d J S M" and "lock_inv l {d} fr V (held \<circ> S) M" and t: "t < nthreads M"
    and w: "phase (S t) = Loaded w" "u \<in># todo (S t)" "update J u w v"
    and "cell M' d = v" "nthreads M' = nthreads M" "out M' = out M"
  shows "dres d J (S(t := (S t)\<lparr>phase := Inside, todo := todo (S t) - {#u#}\<rparr>)) M'"
proof -
  let ?s = "(S t)\<lparr>phase := Inside, todo := todo (S t) - {#u#}\<rparr>"
  from assms(1) t w(1) obtain U where U: "outcome J U w" "U + remaining S (nthreads M) = stock J"
    unfolding dres_def by metis
  have "add_mset u (remaining (S(t := ?s)) (nthreads M)) = remaining S (nthreads M)"
    using remaining_upd [OF t, of S ?s] w(2) by (auto dest!: multi_member_split)
  then have U': "add_mset u U + remaining (S(t := ?s)) (nthreads M) = stock J" "outcome J (add_mset u U) v"
    using outcome_update [OF U(1) w(3)] by (simp_all add: U(2) [symmetric] flip: add_mset_add_single)
  have "lock_base l {d} (held \<circ> S) M" using assms(2) by (rule lock_invE)
  then have uniq: "u = t" if "u < nthreads M" "phase (S u) = Loaded w'" for u w'
    using that t w(1) unfolding lock_base_def by auto
  have "\<forall>u < nthreads M. \<forall>w'. phase ((S(t := ?s)) u) \<noteq> Loaded w'"
    by (auto dest: uniq)
  with U' show ?thesis
    using assms(1,3,7-9) unfolding dres_def by (auto split: if_splits)
qed

lemma dinv_step:
  assumes inv: "dinv l d fr V J S M" and t: "t < nthreads M" and j: "joins_final (dfin J) S M i"
    and ex: "mexec fx ch t i M = Some (r, M')" and tr: "dtr l d fr V J (S t) i r s'"
  shows "dinv l d fr V J (upd_state (\<lambda>a. dworker (job J a)) S t i s' (nthreads M)) M'"
proof -
  let ?S = "upd_state (\<lambda>a. dworker (job J a)) S t i s' (nthreads M)"
  from inv have li: "lock_inv l {d} fr V (held \<circ> S) M" and dr: "dres d J S M" by (auto simp: dinv_def)
  have "held \<circ> ?S = upd_state (\<lambda>_. False) (held \<circ> S) t i (held s') (nthreads M)"
    by (auto simp: upd_state_def dworker_def held_def fun_eq_iff split: instr.splits)
  then have "lock_inv l {d} fr V (held \<circ> ?S) M'"
    using lock_inv_step [OF li t ex] dtr_lock [OF tr] by simp
  moreover have "dres d J ?S M'"
  proof (cases i)
    case (IRead x)
    with ex tr show ?thesis
      using mexec_cell [OF ex, of d] mexec_nthreads [OF ex] mexec_out [OF ex]
      by (auto simp: upd_state_def intro!: dres_same [OF dr t])
  next
    case (IWrite x v)
    with tr obtain w u where w: "phase (S t) = Loaded w" "u \<in># todo (S t)" "update J u w v" "x = d"
      and s': "s' = (S t)\<lparr>phase := Inside, todo := todo (S t) - {#u#}\<rparr>" by auto
    have "dres d J (S(t := s')) M'"
      unfolding s' using IWrite w mexec_cell [OF ex, of d] mexec_nthreads [OF ex] mexec_out [OF ex]
      by (intro dres_write [OF dr li t w(1-3)]) auto
    with IWrite show ?thesis by (simp add: upd_state_def)
  next
    case (ISpawn a)
    with tr show ?thesis
      using mexec_cell [OF ex, of d] mexec_nthreads [OF ex] mexec_out [OF ex]
      by (auto simp: upd_state_def intro!: dres_spawn [OF dr _ _ t])
  next
    case (IJoin u)
    with tr j show ?thesis
      using mexec_cell [OF ex, of d] mexec_nthreads [OF ex] mexec_out [OF ex]
      by (auto simp: upd_state_def joins_final_def intro!: dres_join [OF dr _ t])
  next
    case (IPrint v)
    with tr show ?thesis
      using mexec_cell [OF ex, of d] mexec_nthreads [OF ex] mexec_out [OF ex]
      by (auto simp: upd_state_def intro!: dres_print [OF dr _ t])
  qed (use tr mexec_cell [OF ex, of d] mexec_nthreads [OF ex] mexec_out [OF ex] in
      \<open>auto simp: upd_state_def intro!: dres_impl [OF dr t]\<close>)
  ultimately show ?thesis by (simp add: dinv_def)
qed

end

sublocale accumulator \<subseteq> dp: protocol "dpos l d V J" "dtr l d fr V J" "\<lambda>_. False" "\<lambda>a. dworker (job J a)"
    "dfin J" "dinv l d fr V J" for l d fr V
proof
  show "dtr l d fr V J s ITau r s" for s r
    by (auto simp: enter_leave_def held_def)
qed (auto intro: dinv_pos dinv_step)

section \<open>Programs that obey the protocol\<close>

abbreviation dprog :: "loc \<Rightarrow> loc \<Rightarrow> 'a val \<Rightarrow> 'a val set \<Rightarrow> ('a, 'u) task \<Rightarrow> ('r \<Rightarrow> ('a, 'u) dst \<Rightarrow> bool) \<Rightarrow>
    ('a, 'u) dst \<Rightarrow> ('a, 'r) prog \<Rightarrow> bool" where
  "dprog l d fr V J \<equiv> conforms (dpos l d V J) (dtr l d fr V J) (\<lambda>_. False)"

lemma dpos_lock: "dpos l d V J s i r \<Longrightarrow> lock_pos l V h i r"
  by (cases i) auto

text \<open>The code of the lock changes only the phase: it leaves the critical section or enters it.\<close>

lemma dprog_impl:
  assumes p: "impl_prog l fr V Q (held s0) p"
  shows "dprog l d fr V J
    (\<lambda>x s. Q x (held s) \<and> (s = s0 \<or> s = s0\<lparr>phase := Outside\<rparr> \<or> s = s0\<lparr>phase := Inside\<rparr>)) s0 p"
proof (rule conforms_lift [where \<pi> = held, OF p])
  fix s i r y
  assume s: "s = s0 \<or> s = s0\<lparr>phase := Outside\<rparr> \<or> s = s0\<lparr>phase := Inside\<rparr>"
    and tr: "impl_tr l fr V (held s) i r y"
  have "enter_leave y s = s0 \<or> enter_leave y s = s0\<lparr>phase := Outside\<rparr> \<or>
      enter_leave y s = s0\<lparr>phase := Inside\<rparr>"
    using s by (auto simp: enter_leave_def)
  then show "\<exists>s'. dtr l d fr V J s i r s' \<and> held s' = y \<and>
      (s' = s0 \<or> s' = s0\<lparr>phase := Outside\<rparr> \<or> s' = s0\<lparr>phase := Inside\<rparr>)"
    using dtr_impl [OF tr] by (intro exI [of _ "enter_leave y s"]) simp
qed (simp_all add: dpos_lock)

lemma dprog_spawn_all:
  assumes "is_main s" "sum_list (map (job J) as) \<subseteq># todo s"
  shows "dprog l d fr V J (\<lambda>ts s'. ts = [Suc (spawned_n s)..<Suc (spawned_n s + length as)] \<and>
    s' = s\<lparr>todo := todo s - sum_list (map (job J) as), spawned_n := spawned_n s + length as\<rparr>) s (spawn_all as)"
  using assms
proof (induction "as" arbitrary: s)
  case (Cons a "as")
  let ?s = "s\<lparr>todo := todo s - job J a, spawned_n := Suc (spawned_n s)\<rparr>"
  have sub: "job J a \<subseteq># todo s" "sum_list (map (job J) as) \<subseteq># todo ?s"
    using Cons.prems(2) by (auto dest!: subset_mset.le_iff_add [THEN iffD1] simp: ac_simps)
  have "is_main ?s" using Cons.prems by simp
  from Cons.IH [OF this sub(2)] Cons.prems sub(1) show ?case
    by (auto simp: conf_simps upt_conv_Cons elim!: conforms_bind simp del: upt_Suc)
qed simp

lemma dprog_join_all:
  assumes "is_main s"
  shows "dprog l d fr V J (\<lambda>_ s'. s' = s\<lparr>joined_n := joined_n s + n\<rparr>) s
    (join_all [Suc (joined_n s)..<Suc (joined_n s + n)])"
  using assms
proof (induction n arbitrary: s)
  case (Suc n)
  let ?s = "s\<lparr>joined_n := Suc (joined_n s)\<rparr>"
  from Suc.IH [of ?s] Suc.prems show ?case
    by (simp add: conf_simps join_all_def upt_conv_Cons del: upt_Suc)
qed (simp add: join_all_def)

text \<open>A scope that hands out the whole stock and joins all threads.\<close>

lemma dprog_scope:
  assumes "sum_list (map (job J) as) = stock J"
    and "dprog l d fr V J Q ((dmain J)\<lparr>todo := {#}, spawned_n := length as, joined_n := length as\<rparr>) p"
  shows "dprog l d fr V J Q (dmain J) (bindp (spawn_all as) (\<lambda>ts. seqp (join_all ts) p))"
proof (rule conforms_bind)
  let ?s = "(dmain J)\<lparr>todo := {#}, spawned_n := length as\<rparr>"
  show "dprog l d fr V J (\<lambda>ts s. ts = [Suc 0..<Suc (length as)] \<and> s = ?s) (dmain J) (spawn_all as)"
    by (rule conforms_mono [OF dprog_spawn_all]) (simp_all add: dmain_def assms(1) del: upt_Suc)
  fix ts s assume *: "ts = [Suc 0..<Suc (length as)] \<and> s = ?s"
  have "dprog l d fr V J (\<lambda>_ s. s = ?s\<lparr>joined_n := length as\<rparr>) ?s (join_all [Suc 0..<Suc (length as)])"
    using dprog_join_all [where s = ?s and n = "length as"] by (simp add: dmain_def del: upt_Suc)
  then show "dprog l d fr V J Q s (seqp (join_all ts) p)"
    unfolding conjunct1 [OF *] conjunct2 [OF *] by (rule conforms_then) (use assms(2) in simp)
qed

context lock_impl
begin

lemma dprog_lock:
  assumes "phase s = Outside"
  shows "dprog l d fr V J (\<lambda>_ s'. s' = s\<lparr>phase := Inside\<rparr>) s lock"
proof -
  have "impl_prog l fr V (\<lambda>_ h. h) (held s) lock" using lock_ok assms by (simp add: held_def)
  then show ?thesis
    by (rule conforms_mono [OF dprog_impl]) (use assms in \<open>auto simp: held_def\<close>)
qed

lemma dprog_unlock:
  assumes "held s"
  shows "dprog l d fr V J (\<lambda>_ s'. s' = s\<lparr>phase := Outside\<rparr>) s unlock"
proof -
  have "impl_prog l fr V (\<lambda>_ h. \<not> h) (held s) unlock" using unlock_ok assms by simp
  then show ?thesis
    by (rule conforms_mono [OF dprog_impl]) (use assms in auto)
qed

end

section \<open>The theorem\<close>

context accumulator
begin

theorem task_safe:
  assumes "l \<noteq> d" "fr \<in> V" "static_val vs l = fr" "outcome J {#} (static_val vs d)"
    and main: "dprog l d fr V J (\<lambda>_ s. dfin J s) (dmain J) main"
    and code: "\<And>a. dprog l d fr V J (\<lambda>_ s. dfin J s) (dworker (job J a)) (code a)"
    and reach: "reach fx code (init_config vs main) c"
  shows "\<not> ub (mem c)" "progs c t \<noteq> Some (Panic msg)"
    "\<exists>vs. out (mem c) @ vs = prints J"
    "finished c 0 \<Longrightarrow> out (mem c) = prints J"
proof -
  have "static_val vs d \<noteq> Uninit" using assms(4) outcome_init by metis
  with assms(1-3) have "lock_inv l {d} fr V (\<lambda>_. False) (init_mem vs)"
    by (intro lock_inv_init) auto
  moreover have "dres d J (\<lambda>_. dmain J) (init_mem vs)"
    using assms(4) by (auto simp: dres_def dmain_def remaining_def init_mem_def)
  ultimately have init: "dinv l d fr V J (\<lambda>_. dmain J) (init_mem vs)"
    by (simp add: dinv_def comp_def held_def dmain_def)
  have "dp.safe l d V fr c"
    by (rule dp.safe_reach [OF code dp.safe_init [OF init main] reach])
  then obtain S where inv: "dinv l d fr V J S (mem c)"
    and conf: "\<And>t p. progs c t = Some p \<Longrightarrow> dprog l d fr V J (\<lambda>_ s. dfin J s) (S t) p"
    unfolding dp.safe_def by blast
  have "lock_base l {d} (held \<circ> S) (mem c)" using inv unfolding dinv_def by (auto elim: lock_invE)
  then show "\<not> ub (mem c)" by (simp add: lock_base_def)
  show "progs c t \<noteq> Some (Panic msg)" using conf [of t "Panic msg"] by auto
  have out: "out (mem c) = printed (S 0)" "\<exists>vs. printed (S 0) @ vs = prints J"
    and main: "is_main (S 0)" using inv by (auto simp: dinv_def dres_def)
  then show "\<exists>vs. out (mem c) @ vs = prints J" by simp
  assume "finished c 0"
  then have "dfin J (S 0)" using conf [of 0]
    by (auto simp: finished_def split: option.splits prog.splits)
  with out main show "out (mem c) = prints J" by (simp add: dfin_def)
qed

end

end
