(* ===== verification/Lock_Clients.thy ===== *)
theory Lock_Clients
  imports Locked_Data
begin

text \<open>
  The two kinds of programs that the examples run on their locks: threads that increment a
  shared counter (04-02, 09-01 and its improvements), and threads that push to a shared vector
  (04-03). They are written over any \<open>lock\<close> and \<open>unlock\<close>, and shown to conform for every
  implementation of \<open>lock_impl\<close>.
\<close>

section \<open>The counter\<close>

text \<open>\<open>*m.lock() += 1\<close>: the guard is dropped at the end of the statement.\<close>

definition incr_locked :: "('a, unit) prog \<Rightarrow> ('a, unit) prog \<Rightarrow> loc \<Rightarrow> ('a, unit) prog" where
  "incr_locked lock unlock d = seqp lock (seqp (add_assign_i32 d 1) unlock)"

text \<open>\<open>for _ in 0..k { *m.lock() += 1; }\<close>\<close>

definition count_worker :: "('a, unit) prog \<Rightarrow> ('a, unit) prog \<Rightarrow> loc \<Rightarrow> nat \<Rightarrow> ('a, unit) prog" where
  "count_worker lock unlock d k = for_range 0 k (\<lambda>_. incr_locked lock unlock d)"

text \<open>\<open>println!("{}", *m.lock())\<close>\<close>

definition print_locked :: "('a, unit) prog \<Rightarrow> ('a, unit) prog \<Rightarrow> loc \<Rightarrow> ('a, unit) prog" where
  "print_locked lock unlock d = seqp lock (bindp (read_cell d) (\<lambda>v. seqp (println v) unlock))"

text \<open>A scope of \<open>n\<close> counting threads; then the main thread prints the counter.\<close>

definition count_main :: "('a, unit) prog \<Rightarrow> ('a, unit) prog \<Rightarrow> loc \<Rightarrow> nat \<Rightarrow> ('a, unit) prog" where
  "count_main lock unlock d n =
     bindp (spawn_all (replicate n VUnit)) (\<lambda>ts. seqp (join_all ts) (print_locked lock unlock d))"

text \<open>The task: \<open>tot\<close> increments, \<open>k\<close> for every spawned thread.\<close>

definition count_task :: "nat \<Rightarrow> nat \<Rightarrow> ('a, unit) task" where
  "count_task tot k = \<lparr>
     outcome = (\<lambda>U v. v = VI32 (of_nat (size U))),
     update = (\<lambda>_ v v'. \<exists>w. v = VI32 w \<and> v' = VI32 (w + 1)),
     job = (\<lambda>_. replicate_mset k ()),
     stock = replicate_mset tot (),
     prints = [VI32 (of_nat tot)]\<rparr>"

interpretation ct: accumulator "count_task tot k" for tot k
  by unfold_locales (auto simp: count_task_def)

lemma count_todo: "todo s \<noteq> {#} \<Longrightarrow> (u :: unit) \<in># todo s"
  by (metis (full_types) multiset_nonemptyE old.unit.exhaust)

lemma dprog_add:
  assumes "phase s = Inside" "todo s \<noteq> {#}" "tot < 2 ^ 31"
  shows "dprog l d fr V (count_task tot k) (\<lambda>_ s'. s' = s\<lparr>todo := todo s - {#()#}\<rparr>) s (add_assign_i32 d 1)"
proof -
  let ?J = "count_task tot k"
  have "dprog l d fr V ?J (\<lambda>_ s'. s' = s\<lparr>todo := todo s - {#()#}\<rparr>) (s\<lparr>phase := Loaded v\<rparr>)
      (bindp (i32_add (as_i32 v) 1) (\<lambda>w. Do (IWrite d (VI32 w)) (\<lambda>_. Ret ())))"
    if U: "outcome ?J U v" "U + todo s \<subseteq># stock ?J" for U v
  proof -
    have v: "v = VI32 (of_nat (size U))" using U(1) by (simp add: count_task_def)
    have "size U + size (todo s) \<le> tot"
      using size_mset_mono [OF U(2)] by (simp add: count_task_def)
    moreover have "0 < size (todo s)" using assms(2) by (simp add: nonempty_has_size)
    moreover have "unat (of_nat (size U) :: 32 word) \<le> size U" by (simp add: unat_of_nat)
    ultimately have "i32_add (of_nat (size U)) 1 = (Ret (of_nat (size U) + 1) :: ('a, 32 word) prog)"
      using assms(3) by (intro i32_add_1) linarith
    moreover have "s\<lparr>phase := Inside, todo := V\<rparr> = s\<lparr>todo := V\<rparr>" for V using assms(1) by simp
    ultimately show ?thesis
      using count_todo [OF assms(2)] by (simp add: v conf_simps count_task_def)
  qed
  with assms(1) show ?thesis by (auto simp: add_assign_i32_def conf_simps)
qed

context lock_impl
begin

lemma dprog_incr:
  assumes "phase s = Outside" "todo s \<noteq> {#}" "tot < 2 ^ 31"
  shows "dprog l d fr V (count_task tot k) (\<lambda>_ s'. s' = s\<lparr>todo := todo s - {#()#}\<rparr>) s (incr_locked lock unlock d)"
proof -
  let ?J = "count_task tot k" and ?s = "s\<lparr>phase := Inside\<rparr>"
  have "dprog l d fr V ?J (\<lambda>_ s'. s' = ?s\<lparr>todo := todo s - {#()#}\<rparr>) ?s (add_assign_i32 d 1)"
    by (rule conforms_mono [OF dprog_add]) (use assms(2,3) in simp_all)
  moreover have "dprog l d fr V ?J (\<lambda>_ s'. s' = s\<lparr>todo := todo s - {#()#}\<rparr>) (?s\<lparr>todo := todo s - {#()#}\<rparr>) unlock"
    by (rule conforms_mono [OF dprog_unlock]) (use assms(1) in simp_all)
  ultimately show ?thesis
    unfolding incr_locked_def using dprog_lock [OF assms(1)] by (blast intro: conforms_then)
qed

lemma dprog_count_worker:
  assumes "tot < 2 ^ 31"
  shows "dprog l d fr V (count_task tot k) (\<lambda>_ s. dfin (count_task tot k) s)
    (dworker (job (count_task tot k) a)) (count_worker lock unlock d k)"
proof -
  let ?J = "count_task tot k" and ?s = "\<lambda>n. dworker (replicate_mset n ()) :: ('a, unit) dst"
  have "dprog l d fr V ?J (\<lambda>_ s. s = ?s (length ([] :: nat list))) (?s k)
      (for_list [0..<k] (\<lambda>_. incr_locked lock unlock d))"
  proof (rule conforms_for_list)
    fix i :: nat and "is" s assume s: "s = ?s (length (i # is))"
    show "dprog l d fr V ?J (\<lambda>_ s. s = ?s (length is)) s (incr_locked lock unlock d)"
      by (rule conforms_mono [OF dprog_incr]) (use s assms in \<open>simp_all add: dworker_def\<close>)
  qed simp
  then show ?thesis
    unfolding count_worker_def for_range_def
    by (auto elim!: conforms_mono simp: count_task_def dfin_def dworker_def)
qed

lemma dprog_print:
  assumes "phase s = Outside" "todo s = {#}" "is_main s" "joined_n s = spawned_n s" "printed s = []"
  shows "dprog l d fr V (count_task tot k) (\<lambda>_ s. dfin (count_task tot k) s) s (print_locked lock unlock d)"
proof -
  let ?J = "count_task tot k" and ?v = "VI32 (of_nat tot)"
  have "dprog l d fr V ?J (\<lambda>_ s. dfin ?J s) (s\<lparr>phase := Loaded ?v, printed := [?v]\<rparr>) unlock"
    by (rule conforms_mono [OF dprog_unlock]) (use assms in \<open>auto simp: dfin_def count_task_def\<close>)
  then have "dprog l d fr V ?J (\<lambda>_ s. dfin ?J s) (s\<lparr>phase := Inside\<rparr>)
      (bindp (read_cell d) (\<lambda>v. seqp (println v) unlock))"
    using assms(2-) by (auto simp: conf_simps seqp_def count_task_def)
  with dprog_lock [OF assms(1)] show ?thesis
    unfolding print_locked_def by (rule conforms_then)
qed

lemma dprog_count_main:
  "dprog l d fr V (count_task (n * k) k) (\<lambda>_ s. dfin (count_task (n * k) k) s) (dmain (count_task (n * k) k))
     (count_main lock unlock d n)"
  unfolding count_main_def
proof (rule dprog_scope)
  show "sum_list (map (job (count_task (n * k) k)) (replicate n VUnit)) = stock (count_task (n * k) k)"
    by (induction n) (simp_all add: count_task_def multiset_eq_iff)
qed (rule dprog_print; simp add: dmain_def count_task_def)

theorem count_safe:
  assumes "l \<noteq> d" "static_val vs l = fr" "static_val vs d = VI32 0" "n * k < 2 ^ 31"
    and "reach fx (\<lambda>_. count_worker lock unlock d k) (init_config vs (count_main lock unlock d n)) c"
  shows "\<not> ub (mem c)" "progs c t \<noteq> Some (Panic msg)"
    "out (mem c) \<in> {[], [VI32 (of_nat (n * k))]}"
    "finished c 0 \<Longrightarrow> out (mem c) = [VI32 (of_nat (n * k))]"
proof -
  have "outcome (count_task (n * k) k) {#} (static_val vs d)"
    using assms(3) by (simp add: count_task_def)
  note safe = ct.task_safe [OF assms(1) free_val assms(2) this dprog_count_main dprog_count_worker [OF assms(4)] assms(5)]
  from safe show "\<not> ub (mem c)" "progs c t \<noteq> Some (Panic msg)"
    "finished c 0 \<Longrightarrow> out (mem c) = [VI32 (of_nat (n * k))]"
    by (simp_all add: count_task_def)
  from safe(3) show "out (mem c) \<in> {[], [VI32 (of_nat (n * k))]}"
    by (auto simp: count_task_def append_eq_Cons_conv)
qed

theorem incr_print_safe:
  assumes "l \<noteq> d" "static_val vs l = fr" "static_val vs d = VI32 0"
    and reach: "reach fx code (init_config vs (seqp (incr_locked lock unlock d) (print_locked lock unlock d))) c"
    and code: "code = (\<lambda>_. Ret ())"
  shows "\<not> ub (mem c)" "progs c t \<noteq> Some (Panic msg)" "out (mem c) \<in> {[], [VI32 1]}"
    "finished c 0 \<Longrightarrow> out (mem c) = [VI32 1]"
proof -
  let ?J = "count_task 1 0 :: ('a, unit) task"
  have "outcome ?J {#} (static_val vs d)" using assms(3) by (simp add: count_task_def)
  moreover have "dprog l d fr V ?J (\<lambda>_ s. dfin ?J s) (dmain ?J)
      (seqp (incr_locked lock unlock d) (print_locked lock unlock d))"
    by (rule conforms_then [OF dprog_incr dprog_print]) (simp_all add: dmain_def count_task_def)
  moreover have "dprog l d fr V ?J (\<lambda>_ s. dfin ?J s) (dworker (job ?J a)) (code a)" for a
    by (simp add: code dworker_def count_task_def dfin_def)
  ultimately have safe: "\<not> ub (mem c)" "progs c t \<noteq> Some (Panic msg)" "\<exists>vs. out (mem c) @ vs = prints ?J"
      "finished c 0 \<Longrightarrow> out (mem c) = prints ?J"
    using ct.task_safe [OF assms(1) free_val assms(2) _ _ _ reach, of 1 0] by blast+
  from safe show "\<not> ub (mem c)" "progs c t \<noteq> Some (Panic msg)"
    "finished c 0 \<Longrightarrow> out (mem c) = [VI32 1]" by (simp_all add: count_task_def)
  from safe(3) show "out (mem c) \<in> {[], [VI32 1]}"
    by (auto simp: count_task_def append_eq_Cons_conv)
qed

end

section \<open>The vector\<close>

text \<open>\<open>let mut guard = x.lock(); guard.push(..); ..\<close>; the guard is dropped at the end.\<close>

definition push_locked :: "('a, unit) prog \<Rightarrow> ('a, unit) prog \<Rightarrow> loc \<Rightarrow> 'a val list \<Rightarrow> ('a, unit) prog" where
  "push_locked lock unlock d vs = seqp lock (seqp (for_list vs (vec_push d)) unlock)"

text \<open>\<open>assert!(guard.as_slice().contains(&v))\<close>\<close>

definition assert_contains :: "loc \<Rightarrow> 'a val \<Rightarrow> ('a, unit) prog" where
  "assert_contains d v =
     bindp (read_cell d) (\<lambda>vs. assert_that (v \<in> set (as_list vs)) ''assertion failed'')"

definition vec_main :: "('a, unit) prog \<Rightarrow> ('a, unit) prog \<Rightarrow> loc \<Rightarrow> ('a, unit) prog" where
  "vec_main lock unlock d = bindp (spawn_all [VUsize 0, VUsize 1]) (\<lambda>ts. seqp (join_all ts)
     (seqp lock (seqp (for_list [VI32 1, VI32 2, VI32 3] (assert_contains d)) unlock)))"

definition vec_code :: "('a, unit) prog \<Rightarrow> ('a, unit) prog \<Rightarrow> loc \<Rightarrow> 'a code" where
  "vec_code lock unlock d a =
     (if a = VUsize 0 then push_locked lock unlock d [VI32 1]
      else push_locked lock unlock d [VI32 2, VI32 3])"

definition vec_task :: "('a, 'a val) task" where
  "vec_task = \<lparr>
     outcome = (\<lambda>U v. \<exists>vs. v = VList vs \<and> mset vs = U),
     update = (\<lambda>u v v'. v' = VList (as_list v @ [u])),
     job = (\<lambda>a. if a = VUsize 0 then {#VI32 1#} else {#VI32 2, VI32 3#}),
     stock = {#VI32 1, VI32 2, VI32 3#},
     prints = []\<rparr>"

interpretation vt: accumulator vec_task
  by unfold_locales (auto simp: vec_task_def)

lemma dprog_push:
  assumes "phase s = Inside" "u \<in># todo s"
  shows "dprog l d fr V vec_task (\<lambda>_ s'. s' = s\<lparr>todo := todo s - {#u#}\<rparr>) s (vec_push d u)"
proof -
  have "s\<lparr>phase := Inside, todo := V\<rparr> = s\<lparr>todo := V\<rparr>" for V using assms(1) by simp
  with assms show ?thesis by (auto simp: vec_push_def conf_simps vec_task_def)
qed

lemma dprog_pushes:
  assumes "phase s = Inside" "todo s = mset us"
  shows "dprog l d fr V vec_task (\<lambda>_ s'. s' = s\<lparr>todo := {#}\<rparr>) s (for_list us (vec_push d))"
proof -
  have "dprog l d fr V vec_task (\<lambda>_ s'. s' = s\<lparr>todo := mset []\<rparr>) s (for_list us (vec_push d))"
  proof (rule conforms_for_list)
    fix i "is" s' assume "s' = s\<lparr>todo := mset (i # is)\<rparr>"
    then show "dprog l d fr V vec_task (\<lambda>_ s'. s' = s\<lparr>todo := mset is\<rparr>) s' (vec_push d i)"
      using assms(1) by (intro conforms_mono [OF dprog_push]) auto
  qed (use assms(2) in simp)
  then show ?thesis by simp
qed

lemma dprog_asserts:
  assumes "held s" "todo s = {#}" "is_main s" "joined_n s = spawned_n s"
    and "set vs \<subseteq> {VI32 1, VI32 2, VI32 3}"
  shows "dprog l d fr V vec_task (\<lambda>_ s'. \<exists>w. s' = s\<lparr>phase := w\<rparr> \<and> w \<noteq> Outside) s (for_list vs (assert_contains d))"
proof -
  let ?J = "\<lambda>us s'. set us \<subseteq> set vs \<and> (\<exists>w. s' = s\<lparr>phase := w\<rparr> \<and> w \<noteq> Outside)"
  have "dprog l d fr V vec_task (\<lambda>_ s'. ?J [] s') s (for_list vs (assert_contains d))"
  proof (rule conforms_for_list)
    fix v us s' assume "?J (v # us) s'"
    then obtain w where s': "s' = s\<lparr>phase := w\<rparr>" "w \<noteq> Outside" and v: "v \<in> {VI32 1, VI32 2, VI32 3}"
      and us: "set us \<subseteq> set vs" using assms(5) by auto
    have "v \<in> set (as_list x)" if "outcome vec_task (stock vec_task) x" for x
      using that v by (auto simp: vec_task_def simp flip: set_mset_mset)
    with assms s' us show "dprog l d fr V vec_task (\<lambda>_ s'. ?J us s') s' (assert_contains d v)"
      by (auto simp: assert_contains_def assert_that_def conf_simps)
  next
    show "?J vs s" using assms(1) by (auto simp: held_def intro!: exI [of _ "phase s"])
  qed
  then show ?thesis by simp
qed

context lock_impl
begin

lemma dprog_vec_code:
  "dprog l d fr V vec_task (\<lambda>_ s. dfin vec_task s) (dworker (job vec_task a)) (vec_code lock unlock d a)"
proof -
  have "dprog l d fr V vec_task (\<lambda>_ s. dfin vec_task s) (dworker (mset us)) (push_locked lock unlock d us)" for us
  proof -
    let ?s = "(dworker (mset us))\<lparr>phase := Inside\<rparr>"
    have "dprog l d fr V vec_task (\<lambda>_ s. s = ?s) (dworker (mset us)) lock"
      by (rule dprog_lock) (simp add: dworker_def)
    moreover have "dprog l d fr V vec_task (\<lambda>_ s. s = ?s\<lparr>todo := {#}\<rparr>) ?s (for_list us (vec_push d))"
      by (rule dprog_pushes) (simp_all add: dworker_def)
    moreover have "dprog l d fr V vec_task (\<lambda>_ s. dfin vec_task s) (?s\<lparr>todo := {#}\<rparr>) unlock"
      by (rule conforms_mono [OF dprog_unlock]) (simp_all add: dworker_def dfin_def)
    ultimately show ?thesis
      unfolding push_locked_def by (blast intro: conforms_then)
  qed
  from this [of "[VI32 1]"] this [of "[VI32 2, VI32 3]"] show ?thesis
    by (simp add: vec_code_def vec_task_def)
qed

lemma dprog_vec_main:
  "dprog l d fr V vec_task (\<lambda>_ s. dfin vec_task s) (dmain vec_task) (vec_main lock unlock d)"
  unfolding vec_main_def
proof (rule dprog_scope)
  let ?as = "[VUsize 0, VUsize 1] :: 'a val list"
  let ?s = "(dmain vec_task)\<lparr>todo := {#}, spawned_n := length ?as, joined_n := length ?as\<rparr> :: ('a, 'a val) dst"
  have "dprog l d fr V vec_task (\<lambda>_ s. s = ?s\<lparr>phase := Inside\<rparr>) ?s lock"
    by (rule dprog_lock) (simp add: dmain_def)
  moreover have "dprog l d fr V vec_task (\<lambda>_ s. dfin vec_task s) (?s\<lparr>phase := Inside\<rparr>)
      (seqp (for_list [VI32 1, VI32 2, VI32 3] (assert_contains d)) unlock)"
  proof (rule conforms_seq [OF dprog_asserts])
    fix x s assume "\<exists>w. s = ?s\<lparr>phase := Inside, phase := w\<rparr> \<and> w \<noteq> Outside"
    then show "dprog l d fr V vec_task (\<lambda>_ s. dfin vec_task s) s unlock"
      by (intro conforms_mono [OF dprog_unlock]) (auto simp: dmain_def dfin_def vec_task_def held_def)
  qed (simp_all add: dmain_def)
  ultimately show "dprog l d fr V vec_task (\<lambda>_ s. dfin vec_task s) ?s
      (seqp lock (seqp (for_list [VI32 1, VI32 2, VI32 3] (assert_contains d)) unlock))"
    by (rule conforms_then)
qed (simp add: vec_task_def)

theorem vec_safe:
  assumes "l \<noteq> d" "static_val vs l = fr" "static_val vs d = VList []"
    and "reach fx (vec_code lock unlock d) (init_config vs (vec_main lock unlock d)) c"
  shows "\<not> ub (mem c)" "progs c t \<noteq> Some (Panic msg)"
proof -
  have "outcome vec_task {#} (static_val vs d)" using assms(3) by (simp add: vec_task_def)
  from vt.task_safe [OF assms(1) free_val assms(2) this dprog_vec_main dprog_vec_code assms(4)]
  show "\<not> ub (mem c)" "progs c t \<noteq> Some (Panic msg)" by auto
qed

end

end
