(* ===== verification/Spin_Locks.thy ===== *)
theory Spin_Locks
  imports Lock_Clients
begin

text \<open>
  The spin locks of chapter 4 (04-01, 04-02, 04-03) and the lock of 03-05-01, which gives up when
  the lock is taken. Every method is a definition; every lock is shown to implement \<open>lock_impl\<close>,
  and the main programs are shown to be free of data races and panics and to print what they
  should.
\<close>

section \<open>04-01: the minimal spin lock\<close>

text \<open>\<open>SpinLock { locked }\<close>, and later \<open>SpinLock { locked, value }\<close>, at block \<open>self\<close>.\<close>

definition locked :: "nat \<Rightarrow> loc" where
  "locked self = Loc self 0"

definition value_cell :: "nat \<Rightarrow> loc" where
  "value_cell self = Loc self 1"

definition bools :: "'a val set" where
  "bools = {VBool False, VBool True}"

lemma bools_free: "VBool False \<in> bools"
  by (simp add: bools_def)

definition SpinLock1_default :: "'a val list" where
  "SpinLock1_default = [VBool False]"

definition SpinLock1_lock :: "nat \<Rightarrow> ('a, unit) prog" where
  "SpinLock1_lock self =
     while_do
       (bindp (compare_exchange_weak (locked self) (VBool False) (VBool True) Acquire Relaxed)
          (\<lambda>r. Ret (is_err r)))
       spin_loop"

definition SpinLock1_unlock :: "nat \<Rightarrow> ('a, unit) prog" where
  "SpinLock1_unlock self = store (locked self) (VBool False) Release"

definition SpinLock1_main :: "('a, unit) prog" where
  "SpinLock1_main =
     seqp (SpinLock1_lock 0)
     (seqp sleep
     (seqp (println (VStr ''1 second passed in critical section''))
     (SpinLock1_unlock 0)))"

lemma SpinLock1_lock_ok: "impl_prog (locked self) (VBool False) bools (\<lambda>_ h. h) False (SpinLock1_lock self)"
  unfolding SpinLock1_lock_def
  by (rule conforms_while [where J = "\<lambda>h. \<not> h" and C = "\<lambda>h. \<not> h"]) (auto simp: conf_simps bools_def)

lemma SpinLock1_unlock_ok: "impl_prog (locked self) (VBool False) bools (\<lambda>_ h. \<not> h) True (SpinLock1_unlock self)"
  by (auto simp: SpinLock1_unlock_def conf_simps bools_def)

interpretation s1: lock_impl "locked self" "VBool False" bools "SpinLock1_lock self" "SpinLock1_unlock self" for self
  by unfold_locales (rule bools_free SpinLock1_lock_ok SpinLock1_unlock_ok)+

section \<open>04-02: the spin lock with data\<close>

definition SpinLock2_new :: "'a val \<Rightarrow> 'a val list" where
  "SpinLock2_new v = [VBool False, v]"

text \<open>\<open>lock\<close> returns \<open>&mut T\<close>: the location of the value.\<close>

definition SpinLock2_lock :: "nat \<Rightarrow> ('a, loc) prog" where
  "SpinLock2_lock self =
     seqp (while_do (bindp (swap (locked self) (VBool True) Acquire) (\<lambda>v. Ret (as_bool v))) spin_loop)
       (Ret (value_cell self))"

definition SpinLock2_unlock :: "nat \<Rightarrow> ('a, unit) prog" where
  "SpinLock2_unlock self = store (locked self) (VBool False) Release"

definition SpinLock2_main :: "('a, unit) prog" where
  "SpinLock2_main =
     bindp (SpinLock2_lock 0) (\<lambda>value.
     seqp (add_assign_i32 value 1)
     (seqp (SpinLock2_unlock 0)
     (bindp (SpinLock2_lock 0) (\<lambda>value.
     bindp (read_cell value) (\<lambda>v.
     seqp (println v)
     (SpinLock2_unlock 0))))))"

lemma SpinLock2_lock_then:
  "bindp (SpinLock2_lock self) k = seqp (seqp (SpinLock2_lock self) (Ret ())) (k (value_cell self))"
  by (simp add: SpinLock2_lock_def seqp_def bindp_assoc)

lemma SpinLock2_main_alt:
  "SpinLock2_main = seqp (incr_locked (seqp (SpinLock2_lock 0) (Ret ())) (SpinLock2_unlock 0) (value_cell 0))
     (print_locked (seqp (SpinLock2_lock 0) (Ret ())) (SpinLock2_unlock 0) (value_cell 0))"
  by (simp add: SpinLock2_main_def SpinLock2_lock_then incr_locked_def print_locked_def seqp_assoc)

lemma SpinLock2_lock_ok:
  "impl_prog (locked self) (VBool False) bools (\<lambda>_ h. h) False (seqp (SpinLock2_lock self) (Ret ()))"
proof -
  have "impl_prog (locked self) (VBool False) bools (\<lambda>_ h. h) False
      (while_do (bindp (swap (locked self) (VBool True) Acquire) (\<lambda>v. Ret (as_bool v))) spin_loop)"
    by (rule conforms_while [where J = "\<lambda>h. \<not> h" and C = "\<lambda>h. \<not> h"]) (auto simp: conf_simps bools_def)
  then show ?thesis
    unfolding SpinLock2_lock_def seqp_assoc
    by (rule conforms_seq) (simp add: seqp_def)
qed

lemma SpinLock2_unlock_ok: "impl_prog (locked self) (VBool False) bools (\<lambda>_ h. \<not> h) True (SpinLock2_unlock self)"
  by (auto simp: SpinLock2_unlock_def conf_simps)

interpretation s2: lock_impl "locked self" "VBool False" bools "seqp (SpinLock2_lock self) (Ret ())"
    "SpinLock2_unlock self" for self
  by unfold_locales (rule bools_free SpinLock2_lock_ok SpinLock2_unlock_ok)+

section \<open>04-03: the spin lock with a guard\<close>

text \<open>The guard \<open>Guard { lock: self }\<close> is the block of its lock.\<close>

definition SpinLock3_new :: "'a val \<Rightarrow> 'a val list" where
  "SpinLock3_new v = [VBool False, v]"

definition SpinLock3_lock :: "nat \<Rightarrow> ('a, nat) prog" where
  "SpinLock3_lock self =
     seqp (while_do (bindp (swap (locked self) (VBool True) Acquire) (\<lambda>v. Ret (as_bool v))) spin_loop)
       (Ret self)"

definition Guard_deref :: "nat \<Rightarrow> loc" where
  "Guard_deref g = value_cell g"

definition Guard_deref_mut :: "nat \<Rightarrow> loc" where
  "Guard_deref_mut g = value_cell g"

definition Guard_drop :: "nat \<Rightarrow> ('a, unit) prog" where
  "Guard_drop g = store (locked g) (VBool False) Release"

definition SpinLock3_thread :: "'a code" where
  "SpinLock3_thread a =
     (if a = VUsize 0
      then bindp (SpinLock3_lock 0) (\<lambda>guard. seqp (vec_push (Guard_deref_mut guard) (VI32 1)) (Guard_drop guard))
      else bindp (SpinLock3_lock 0) (\<lambda>guard.
        seqp (vec_push (Guard_deref_mut guard) (VI32 2))
        (seqp (vec_push (Guard_deref_mut guard) (VI32 3))
        (Guard_drop guard))))"

definition SpinLock3_main :: "('a, unit) prog" where
  "SpinLock3_main =
     bindp (spawn_all [VUsize 0, VUsize 1]) (\<lambda>ts. seqp (join_all ts)
     (bindp (SpinLock3_lock 0) (\<lambda>guard.
      seqp (assert_contains (Guard_deref guard) (VI32 1))
      (seqp (assert_contains (Guard_deref guard) (VI32 2))
      (seqp (assert_contains (Guard_deref guard) (VI32 3))
      (Guard_drop guard))))))"

lemma SpinLock3_lock_then:
  "bindp (SpinLock3_lock self) k = seqp (seqp (SpinLock3_lock self) (Ret ())) (k self)"
  by (simp add: SpinLock3_lock_def seqp_def bindp_assoc)

lemma SpinLock3_acquire: "seqp (SpinLock3_lock self) (Ret ()) = seqp (SpinLock2_lock self) (Ret ())"
  by (simp add: SpinLock3_lock_def SpinLock2_lock_def seqp_def bindp_assoc)

lemma Guard_drop_ok: "impl_prog (locked self) (VBool False) bools (\<lambda>_ h. \<not> h) True (Guard_drop self)"
  by (auto simp: Guard_drop_def conf_simps)

interpretation s3: lock_impl "locked self" "VBool False" bools "seqp (SpinLock3_lock self) (Ret ())"
    "Guard_drop self" for self
  by (unfold SpinLock3_acquire, unfold_locales) (rule bools_free SpinLock2_lock_ok Guard_drop_ok)+

lemma SpinLock3_thread_alt:
  "SpinLock3_thread = vec_code (seqp (SpinLock3_lock 0) (Ret ())) (Guard_drop 0) (value_cell 0)"
  by (simp add: fun_eq_iff SpinLock3_thread_def vec_code_def push_locked_def SpinLock3_lock_then
      Guard_deref_mut_def seqp_assoc, simp add: seqp_def bindp_assoc)

lemma SpinLock3_main_alt:
  "SpinLock3_main = vec_main (seqp (SpinLock3_lock 0) (Ret ())) (Guard_drop 0) (value_cell 0)"
  by (simp add: SpinLock3_main_def vec_main_def SpinLock3_lock_then Guard_deref_def seqp_assoc,
      simp add: seqp_def bindp_assoc)

section \<open>03-05-01: a lock that is given up when taken\<close>

definition LOCKED :: loc where
  "LOCKED = Loc 0 0"

definition DATA :: loc where
  "DATA = Loc 1 0"

definition try_push :: "('a, unit) prog" where
  "try_push =
     bindp (compare_exchange LOCKED (VBool False) (VBool True) Acquire Relaxed) (\<lambda>r.
       if is_ok r
       then seqp (vec_push DATA (VStr ''!'')) (store LOCKED (VBool False) Release)
       else Ret ())"

definition try_main :: "('a, unit) prog" where
  "try_main = bindp (spawn_all (replicate 100 VUnit)) join_all"

lemma try_push_ok: "lock_prog LOCKED {DATA} (VBool False) bools (\<lambda>_ h. \<not> h) False try_push"
  by (auto simp: try_push_def vec_push_def seqp_def conf_simps bools_def)

lemma lock_prog_spawn_all: "lock_prog l D fr V (\<lambda>_ h. \<not> h) False (spawn_all as)"
proof (induction "as")
  case (Cons a "as")
  show ?case using conforms_bind [OF Cons, where f = "\<lambda>ts. Ret (_ # ts)"] by (auto simp: conf_simps)
qed simp

lemma lock_prog_join_all: "lock_prog l D fr V (\<lambda>_ h. \<not> h) False (join_all ts)"
  unfolding join_all_def by (rule conforms_for_list [where J = "\<lambda>_ h. \<not> h"]) (auto simp: conf_simps)

section \<open>Properties\<close>

text \<open>
  C5. Mutual exclusion and data race freedom of the spin lock of 04-01, for all data
  \<open>D\<close> that the clients access only in critical sections.
\<close>

theorem SpinLock1_clients_safe:
  assumes "locked 0 \<notin> D" "\<And>d. d \<in> D \<Longrightarrow> static_val (SpinLock1_default # vs) d \<noteq> Uninit"
    and "list_all (section_ok D) main" "\<And>a. list_all (section_ok D) (thread a)"
    and "reach fx (\<lambda>a. client (SpinLock1_lock 0) (SpinLock1_unlock 0) (thread a))
      (init_config (SpinLock1_default # vs) (client (SpinLock1_lock 0) (SpinLock1_unlock 0) main)) c"
  shows "\<not> ub (mem c) \<and> exclusive D c"
  using s1.client_safe [OF assms(1) _ assms(2-5)]
  by (simp add: SpinLock1_default_def static_val_def locked_def)

text \<open>
  The main program of 04-02 increments the value in one critical section and prints it in the
  next: no undefined behaviour, no panic, and it prints 1.
\<close>

theorem SpinLock2_main_prints:
  assumes "reach fx (\<lambda>_. Ret ()) (init_config [SpinLock2_new (VI32 0)] SpinLock2_main) c"
  shows "\<not> ub (mem c) \<and> (\<forall>t msg. progs c t \<noteq> Some (Panic msg)) \<and> out (mem c) \<in> {[], [VI32 1]} \<and>
    (finished c 0 \<longrightarrow> out (mem c) = [VI32 1])"
  using assms unfolding SpinLock2_main_alt
  by (intro conjI allI impI; elim s2.incr_print_safe [rotated 3])
     (simp_all add: SpinLock2_new_def static_val_def locked_def value_cell_def)

text \<open>
  C6. The main program of 04-03: two threads push 1 and 2, 3 to a vector behind the spin lock; no
  execution has a data race and none of the assertions that the vector contains 1, 2 and 3
  fails.
\<close>

theorem SpinLock3_main_asserts:
  assumes "reach fx SpinLock3_thread (init_config [SpinLock3_new (VList [])] SpinLock3_main) c"
  shows "\<not> ub (mem c) \<and> (\<forall>t msg. progs c t \<noteq> Some (Panic msg))"
  using assms unfolding SpinLock3_main_alt SpinLock3_thread_alt
  by (intro conjI allI; elim s3.vec_safe [rotated 3])
     (simp_all add: SpinLock3_new_def static_val_def locked_def value_cell_def)

text \<open>
  C7. 03-05-01: a hundred threads try to take the lock once and push to \<open>DATA\<close> only if
  they succeed; there is no data race on \<open>DATA\<close> and never are two threads at it.
\<close>

theorem try_main_safe:
  assumes "reach fx (\<lambda>_. try_push) (init_config [[VBool False], [VList []]] try_main) c"
  shows "\<not> ub (mem c) \<and> exclusive {DATA} c"
proof -
  have main: "lock_prog LOCKED {DATA} (VBool False) bools (\<lambda>_ h. \<not> h) False try_main"
    unfolding try_main_def
    by (rule conforms_bind [OF lock_prog_spawn_all]) (auto intro: lock_prog_join_all)
  have "lk.safe LOCKED bools {DATA} (VBool False) c"
    by (rule lock_safe [OF _ bools_free _ _ main try_push_ok assms])
       (simp_all add: LOCKED_def DATA_def static_val_def)
  then show ?thesis by (intro conjI, rule safe_no_ub, rule safe_exclusive)
qed


theorem SpinLock1_clients_safe_witness:
  "\<exists>c :: nat config. \<not> ub (mem c) \<and> exclusive {Loc 1 0} c \<and> cell (mem c) (Loc 1 0) = VList [VI32 7] \<and> finished c 0"
proof -
  let ?main = "[Critical (vec_push (Loc 1 0) (VI32 7))] :: nat client_code list"
  let ?code = "\<lambda>a. client (SpinLock1_lock 0) (SpinLock1_unlock 0) []"
  let ?c0 = "init_config [SpinLock1_default, [VList []]] (client (SpinLock1_lock 0) (SpinLock1_unlock 0) ?main)"
  obtain c where c: "run (\<lambda>_ _ _ _. True) ?code (sched [(0, 0), (0, 0), (0, 0), (0, 2)]) ?c0 = Some c"
      "cell (mem c) (Loc 1 0) = VList [VI32 7]" "finished c 0"
    by (simp add: run_simps SpinLock1_default_def SpinLock1_lock_def SpinLock1_unlock_def client_def
        vec_push_def locked_def cas_result_def is_err_def)
  have "accesses {Loc 1 0} (vec_push (Loc 1 0) (VI32 7) :: (nat, unit) prog)"
    by (auto simp: accesses_def vec_push_def conf_simps)
  with SpinLock1_clients_safe [of "{Loc 1 0}" "[[VList []]]" ?main "\<lambda>_. []", OF _ _ _ _ run_reach [OF c(1)]] c
  show ?thesis by (auto simp: static_val_def locked_def SpinLock1_default_def)
qed

theorem SpinLock2_main_prints_witness:
  "\<exists>c :: nat config. finished c 0 \<and> \<not> ub (mem c) \<and> out (mem c) = [VI32 1]"
proof -
  obtain c :: "nat config" where c: "run (\<lambda>_ _ _ _. True) (\<lambda>_. Ret ())
      (sched [(0, 0), (0, 0), (0, 0), (0, 2), (0, 2), (0, 0), (0, 0), (0, 4)])
      (init_config [SpinLock2_new (VI32 0)] SpinLock2_main) = Some c" "finished c 0"
    by (simp add: run_simps SpinLock2_main_def SpinLock2_lock_def SpinLock2_unlock_def SpinLock2_new_def
        add_assign_i32_def i32_add_def locked_def value_cell_def)
  from SpinLock2_main_prints [OF run_reach [OF c(1)]] c(2) show ?thesis by blast
qed

theorem SpinLock3_main_asserts_witness:
  "\<exists>c :: nat config. finished c 0 \<and> \<not> ub (mem c) \<and> cell (mem c) (value_cell 0) = VList [VI32 1, VI32 2, VI32 3]"
proof -
  obtain c :: "nat config" where c: "run (\<lambda>_ _ _ _. True) SpinLock3_thread
      (sched [(0, 0), (0, 0), (1, 0), (1, 0), (1, 0), (1, 2), (2, 2), (2, 0), (2, 0), (2, 0), (2, 0), (2, 4),
        (0, 0), (0, 0), (0, 4), (0, 0), (0, 0), (0, 0), (0, 6)])
      (init_config [SpinLock3_new (VList [])] SpinLock3_main) = Some c" "finished c 0"
      "cell (mem c) (value_cell 0) = VList [VI32 1, VI32 2, VI32 3]"
    by (simp add: run_simps SpinLock3_main_def SpinLock3_lock_def SpinLock3_new_def SpinLock3_thread_def
        Guard_drop_def Guard_deref_def Guard_deref_mut_def vec_push_def assert_contains_def assert_that_def
        locked_def value_cell_def join_all_def)
  from SpinLock3_main_asserts [OF run_reach [OF c(1)]] c(2,3) show ?thesis by blast
qed

theorem try_main_safe_witness:
  "\<exists>c :: nat config. \<not> ub (mem c) \<and> exclusive {DATA} c \<and> cell (mem c) DATA = VList [VStr ''!'']"
proof -
  have two_threads: "replicate 100 VUnit = VUnit # VUnit # replicate 98 (VUnit :: nat val)"
    by (simp add: numeral_eq_Suc)
  obtain c :: "nat config" where c: "run (\<lambda>_ _ _ _. True) (\<lambda>_. try_push)
      (sched [(0, 0), (0, 0), (1, 0), (2, 1), (1, 0), (1, 0), (1, 2)])
      (init_config [[VBool False], [VList []]] try_main) = Some c" "cell (mem c) DATA = VList [VStr ''!'']"
    by (simp add: run_simps try_main_def try_push_def vec_push_def LOCKED_def DATA_def cas_result_def is_ok_def
        two_threads)
  from try_main_safe [OF run_reach [OF c(1)]] c(2) show ?thesis by blast
qed

end
