(* ===== verification/Mutexes.thy ===== *)
theory Mutexes
  imports Lock_Clients
begin

text \<open>
  The mutexes of chapter 9, built on the futex calls \<open>wait\<close> and \<open>wake_one\<close>: the basic one (09-01),
  the one that avoids system calls (09-01-01) and the one that spins first (09-01-02 and its copy
  09-01-03). Their proofs do not depend on when \<open>wait\<close> returns, so they hold for every futex.
\<close>

section \<open>09-01: the basic mutex\<close>

text \<open>\<open>Mutex { state, value }\<close> at block \<open>self\<close>; the guard \<open>MutexGuard { mutex: self }\<close> is the block.\<close>

definition state :: "nat \<Rightarrow> loc" where
  "state self = Loc self 0"

definition mutex_value :: "nat \<Rightarrow> loc" where
  "mutex_value self = Loc self 1"

definition Mutex_new :: "'a val \<Rightarrow> 'a val list" where
  "Mutex_new v = [VU32 0, v]"

definition MutexGuard_deref :: "nat \<Rightarrow> loc" where
  "MutexGuard_deref g = mutex_value g"

definition MutexGuard_deref_mut :: "nat \<Rightarrow> loc" where
  "MutexGuard_deref_mut g = mutex_value g"

definition Mutex1_lock :: "nat \<Rightarrow> ('a, nat) prog" where
  "Mutex1_lock self =
     seqp (while_do (bindp (swap (state self) (VU32 1) Acquire) (\<lambda>v. Ret (as_u32 v = 1)))
             (wait (state self) (VU32 1)))
       (Ret self)"

definition MutexGuard1_drop :: "nat \<Rightarrow> ('a, unit) prog" where
  "MutexGuard1_drop g = seqp (swap (state g) (VU32 0) Release) (wake_one (state g))"

definition Mutex1_thread :: "'a code" where
  "Mutex1_thread _ =
     for_range 0 5000000 (\<lambda>_.
       bindp (Mutex1_lock 0) (\<lambda>g.
       seqp (add_assign_i32 (MutexGuard_deref_mut g) 1) (MutexGuard1_drop g)))"

definition Mutex1_main :: "('a, unit) prog" where
  "Mutex1_main =
     bindp (spawn_all (replicate 4 VUnit)) (\<lambda>ts. seqp (join_all ts)
     (bindp (Mutex1_lock 0) (\<lambda>g.
      bindp (read_cell (MutexGuard_deref g)) (\<lambda>v. seqp (println v) (MutexGuard1_drop g)))))"

section \<open>09-01-01: no system call without contention\<close>

definition Mutex2_lock :: "nat \<Rightarrow> ('a, nat) prog" where
  "Mutex2_lock self =
     bindp (compare_exchange (state self) (VU32 0) (VU32 1) Acquire Relaxed) (\<lambda>r.
     seqp (if is_err r
           then while_do (bindp (swap (state self) (VU32 2) Acquire) (\<lambda>v. Ret (as_u32 v \<noteq> 0)))
                  (wait (state self) (VU32 2))
           else Ret ())
       (Ret self))"

definition MutexGuard2_drop :: "nat \<Rightarrow> ('a, unit) prog" where
  "MutexGuard2_drop g =
     bindp (swap (state g) (VU32 0) Release) (\<lambda>v.
       if as_u32 v = 2 then wake_one (state g) else Ret ())"

definition Mutex2_thread :: "'a code" where
  "Mutex2_thread _ =
     for_range 0 5000000 (\<lambda>_.
       bindp (Mutex2_lock 0) (\<lambda>g.
       seqp (add_assign_i32 (MutexGuard_deref_mut g) 1) (MutexGuard2_drop g)))"

definition Mutex2_main :: "('a, unit) prog" where
  "Mutex2_main =
     bindp (spawn_all (replicate 4 VUnit)) (\<lambda>ts. seqp (join_all ts)
     (bindp (Mutex2_lock 0) (\<lambda>g.
      bindp (read_cell (MutexGuard_deref g)) (\<lambda>v. seqp (println v) (MutexGuard2_drop g)))))"

section \<open>09-01-02: spinning before waiting\<close>

text \<open>
  The first loop of \<open>lock_contented\<close> has the spin count as its variable; the condition is
  evaluated from the left, with the load first.
\<close>

definition spin_while_locked :: "loc \<Rightarrow> ('a, unit) prog" where
  "spin_while_locked st =
     loop (\<lambda>spin_count :: nat.
       bindp (load st Relaxed) (\<lambda>v.
         if as_u32 v = 1 \<and> spin_count < 100
         then seqp spin_loop (Ret (Inl (spin_count + 1)))
         else Ret (Inr ()))) 0"

definition lock_contented :: "loc \<Rightarrow> ('a, unit) prog" where
  "lock_contented st =
     seqp (spin_while_locked st)
     (bindp (compare_exchange st (VU32 0) (VU32 1) Acquire Relaxed) (\<lambda>r.
       if is_ok r then Ret ()
       else while_do (bindp (swap st (VU32 2) Acquire) (\<lambda>v. Ret (as_u32 v \<noteq> 0))) (wait st (VU32 2))))"

definition Mutex3_lock :: "nat \<Rightarrow> ('a, nat) prog" where
  "Mutex3_lock self =
     bindp (compare_exchange (state self) (VU32 0) (VU32 1) Acquire Relaxed) (\<lambda>r.
     seqp (if is_err r then lock_contented (state self) else Ret ()) (Ret self))"

definition MutexGuard3_drop :: "nat \<Rightarrow> ('a, unit) prog" where
  "MutexGuard3_drop g =
     bindp (swap (state g) (VU32 0) Release) (\<lambda>v.
       if as_u32 v = 2 then wake_one (state g) else Ret ())"

definition Mutex3_thread :: "'a code" where
  "Mutex3_thread _ =
     for_range 0 5000000 (\<lambda>_.
       bindp (Mutex3_lock 0) (\<lambda>g.
       seqp (add_assign_i32 (MutexGuard_deref_mut g) 1) (MutexGuard3_drop g)))"

definition Mutex3_main :: "('a, unit) prog" where
  "Mutex3_main =
     bindp (spawn_all (replicate 4 VUnit)) (\<lambda>ts. seqp (join_all ts)
     (bindp (Mutex3_lock 0) (\<lambda>g.
      bindp (read_cell (MutexGuard_deref g)) (\<lambda>v. seqp (println v) (MutexGuard3_drop g)))))"

section \<open>They implement the lock interface\<close>

definition states1 :: "'a val set" where
  "states1 = {VU32 0, VU32 1}"

definition states2 :: "'a val set" where
  "states2 = {VU32 0, VU32 1, VU32 2}"

lemma states_free: "VU32 0 \<in> states1" "VU32 0 \<in> states2"
  by (simp_all add: states1_def states2_def)

lemma Mutex1_lock_ok:
  "impl_prog (state self) (VU32 0) states1 (\<lambda>_ h. h) False (seqp (Mutex1_lock self) (Ret ()))"
proof -
  have "impl_prog (state self) (VU32 0) states1 (\<lambda>_ h. h) False
      (while_do (bindp (swap (state self) (VU32 1) Acquire) (\<lambda>v. Ret (as_u32 v = 1))) (wait (state self) (VU32 1)))"
    by (rule conforms_while [where J = "\<lambda>h. \<not> h" and C = "\<lambda>h. \<not> h"]) (auto simp: conf_simps states1_def)
  then show ?thesis
    unfolding Mutex1_lock_def seqp_assoc by (rule conforms_seq) (simp add: seqp_def)
qed

lemma MutexGuard1_drop_ok:
  "impl_prog (state self) (VU32 0) states1 (\<lambda>_ h. \<not> h) True (MutexGuard1_drop self)"
  by (auto simp: MutexGuard1_drop_def seqp_def conf_simps states1_def)

text \<open>The waiting loop that the two improved versions share.\<close>

lemma swap_2_loop_ok:
  "impl_prog l (VU32 0) states2 (\<lambda>_ h. h) False
     (while_do (bindp (swap l (VU32 2) Acquire) (\<lambda>v. Ret (as_u32 v \<noteq> 0))) (wait l (VU32 2)))"
  by (rule conforms_while [where J = "\<lambda>h. \<not> h" and C = "\<lambda>h. \<not> h"]) (auto simp: conf_simps states2_def)

lemma cas_0_1_ok:
  "impl_prog l (VU32 0) states2 (\<lambda>r h. h = is_ok r) False
     (compare_exchange l (VU32 0) (VU32 1) Acquire Relaxed)"
  by (auto simp: conf_simps states2_def)

lemma Mutex2_lock_ok:
  "impl_prog (state self) (VU32 0) states2 (\<lambda>_ h. h) False (seqp (Mutex2_lock self) (Ret ()))"
  unfolding Mutex2_lock_def seqp_def bindp_assoc
  by (rule conforms_bind [OF cas_0_1_ok])
     (auto simp: is_ok_def is_err_def intro!: swap_2_loop_ok)

lemma MutexGuard2_drop_ok:
  "impl_prog (state self) (VU32 0) states2 (\<lambda>_ h. \<not> h) True (MutexGuard2_drop self)"
  by (auto simp: MutexGuard2_drop_def conf_simps states2_def)

lemma spin_while_locked_ok: "impl_prog l (VU32 0) states2 (\<lambda>_ h. \<not> h) False (spin_while_locked l)"
  unfolding spin_while_locked_def
  by (rule conforms_loop [where J = "\<lambda>_ h. \<not> h"]) (auto simp: conf_simps seqp_def states2_def)

lemma lock_contented_ok: "impl_prog l (VU32 0) states2 (\<lambda>_ h. h) False (lock_contented l)"
proof -
  have "impl_prog l (VU32 0) states2 (\<lambda>_ h. h) False
     (bindp (compare_exchange l (VU32 0) (VU32 1) Acquire Relaxed) (\<lambda>r.
       if is_ok r then Ret ()
       else while_do (bindp (swap l (VU32 2) Acquire) (\<lambda>v. Ret (as_u32 v \<noteq> 0))) (wait l (VU32 2))))"
    by (rule conforms_bind [OF cas_0_1_ok]) (auto simp: is_ok_def intro!: swap_2_loop_ok)
  then show ?thesis
    unfolding lock_contented_def by (auto intro: conforms_seq [OF spin_while_locked_ok])
qed

lemma Mutex3_lock_ok:
  "impl_prog (state self) (VU32 0) states2 (\<lambda>_ h. h) False (seqp (Mutex3_lock self) (Ret ()))"
  unfolding Mutex3_lock_def seqp_def bindp_assoc
  by (rule conforms_bind [OF cas_0_1_ok])
     (auto simp: is_ok_def is_err_def intro!: lock_contented_ok)

lemma MutexGuard3_drop_ok:
  "impl_prog (state self) (VU32 0) states2 (\<lambda>_ h. \<not> h) True (MutexGuard3_drop self)"
  by (auto simp: MutexGuard3_drop_def conf_simps states2_def)

interpretation m1: lock_impl "state self" "VU32 0" states1 "seqp (Mutex1_lock self) (Ret ())"
    "MutexGuard1_drop self" for self
  by unfold_locales (rule states_free Mutex1_lock_ok MutexGuard1_drop_ok)+

interpretation m2: lock_impl "state self" "VU32 0" states2 "seqp (Mutex2_lock self) (Ret ())"
    "MutexGuard2_drop self" for self
  by unfold_locales (rule states_free Mutex2_lock_ok MutexGuard2_drop_ok)+

interpretation m3: lock_impl "state self" "VU32 0" states2 "seqp (Mutex3_lock self) (Ret ())"
    "MutexGuard3_drop self" for self
  by unfold_locales (rule states_free Mutex3_lock_ok MutexGuard3_drop_ok)+

section \<open>The programs\<close>

lemma Mutex1_lock_then:
  "bindp (Mutex1_lock self) k = seqp (seqp (Mutex1_lock self) (Ret ())) (k self)"
  by (simp add: Mutex1_lock_def seqp_def bindp_assoc)

lemma Mutex1_alt:
  "Mutex1_thread = (\<lambda>_. count_worker (seqp (Mutex1_lock 0) (Ret ())) (MutexGuard1_drop 0) (mutex_value 0) 5000000)"
  "Mutex1_main = count_main (seqp (Mutex1_lock 0) (Ret ())) (MutexGuard1_drop 0) (mutex_value 0) 4"
  by (simp_all add: fun_eq_iff Mutex1_thread_def Mutex1_main_def count_worker_def count_main_def incr_locked_def
      print_locked_def Mutex1_lock_then MutexGuard_deref_def MutexGuard_deref_mut_def seqp_assoc)

lemma Mutex2_lock_then:
  "bindp (Mutex2_lock self) k = seqp (seqp (Mutex2_lock self) (Ret ())) (k self)"
  by (simp add: Mutex2_lock_def seqp_def bindp_assoc)

lemma Mutex2_alt:
  "Mutex2_thread = (\<lambda>_. count_worker (seqp (Mutex2_lock 0) (Ret ())) (MutexGuard2_drop 0) (mutex_value 0) 5000000)"
  "Mutex2_main = count_main (seqp (Mutex2_lock 0) (Ret ())) (MutexGuard2_drop 0) (mutex_value 0) 4"
  by (simp_all add: fun_eq_iff Mutex2_thread_def Mutex2_main_def count_worker_def count_main_def incr_locked_def
      print_locked_def Mutex2_lock_then MutexGuard_deref_def MutexGuard_deref_mut_def seqp_assoc)

lemma Mutex3_lock_then:
  "bindp (Mutex3_lock self) k = seqp (seqp (Mutex3_lock self) (Ret ())) (k self)"
  by (simp add: Mutex3_lock_def seqp_def bindp_assoc)

lemma Mutex3_alt:
  "Mutex3_thread = (\<lambda>_. count_worker (seqp (Mutex3_lock 0) (Ret ())) (MutexGuard3_drop 0) (mutex_value 0) 5000000)"
  "Mutex3_main = count_main (seqp (Mutex3_lock 0) (Ret ())) (MutexGuard3_drop 0) (mutex_value 0) 4"
  by (simp_all add: fun_eq_iff Mutex3_thread_def Mutex3_main_def count_worker_def count_main_def incr_locked_def
      print_locked_def Mutex3_lock_then MutexGuard_deref_def MutexGuard_deref_mut_def seqp_assoc)

section \<open>Properties\<close>

text \<open>
  C1. Mutual exclusion and data race freedom of the basic mutex of 09-01: whatever threads run, as
  sequences of code outside of the lock and critical sections that access only the protected
  value, no reachable state has undefined behaviour and never are two threads at an access of
  the value.
\<close>

theorem Mutex1_clients_safe:
  assumes "v \<noteq> Uninit"
    and "list_all (section_ok {mutex_value 0}) main" "\<And>a. list_all (section_ok {mutex_value 0}) (thread a)"
    and "reach fx (\<lambda>a. client (seqp (Mutex1_lock 0) (Ret ())) (MutexGuard1_drop 0) (thread a))
      (init_config [Mutex_new v] (client (seqp (Mutex1_lock 0) (Ret ())) (MutexGuard1_drop 0) main)) c"
  shows "\<not> ub (mem c) \<and> exclusive {mutex_value 0} c"
  using m1.client_safe [OF _ _ _ assms(2-4)] assms(1)
  by (simp add: Mutex_new_def static_val_def state_def mutex_value_def)

theorem Mutex1_clients_safe_witness:
  "\<exists>c :: nat config. \<not> ub (mem c) \<and> exclusive {mutex_value 0} c \<and> finished c 0 \<and> finished c 1 \<and>
     cell (mem c) (mutex_value 0) = VList [VU8 2, VU8 1]"
proof -
  let ?lock = "seqp (Mutex1_lock 0) (Ret ()) :: (nat, unit) prog" and ?unlock = "MutexGuard1_drop 0 :: (nat, unit) prog"
  let ?main = "[Plain (seqp (spawn VUnit) (Ret ())), Critical (vec_push (mutex_value 0) (VU8 1))]"
  let ?thread = "\<lambda>_ :: nat val. [Critical (vec_push (mutex_value 0) (VU8 2))]"
  obtain c where c: "run (\<lambda>_ _ _ _. True) (\<lambda>a. client ?lock ?unlock (?thread a))
      (sched [(0, 0), (1, 0), (0, 1), (0, 0), (0, 0), (1, 0), (1, 0), (1, 2), (1, 0), (0, 3), (0, 0), (0, 0), (0, 4), (0, 0)])
      (init_config [Mutex_new (VList [])] (client ?lock ?unlock ?main)) = Some c"
      "finished c 0" "finished c 1" "cell (mem c) (mutex_value 0) = VList [VU8 2, VU8 1]"
    by (simp add: run_simps client_def vec_push_def Mutex_new_def Mutex1_lock_def MutexGuard1_drop_def
        state_def mutex_value_def cas_result_def is_err_def is_ok_def)
  have "list_all (section_ok {mutex_value 0}) ?main" "\<And>a. list_all (section_ok {mutex_value 0}) (?thread a)"
    by (simp_all add: accesses_def vec_push_def seqp_def conf_simps)
  from Mutex1_clients_safe [OF _ this run_reach [OF c(1)]] c(2-) show ?thesis by simp blast
qed

text \<open>
  The main program on the basic mutex of 09-01: four threads increment the value 5 000 000 times
  each under the lock. No execution has a data race or panics, nothing but 20 000 000 is
  printed, and it has been printed when the main thread ends.
\<close>

theorem Mutex1_main_counts:
  assumes "reach fx Mutex1_thread (init_config [Mutex_new (VI32 0)] Mutex1_main) c"
  shows "\<not> ub (mem c) \<and> (\<forall>t msg. progs c t \<noteq> Some (Panic msg)) \<and> out (mem c) \<in> {[], [VI32 20000000]} \<and>
    (finished c 0 \<longrightarrow> out (mem c) = [VI32 20000000])"
  using m1.count_safe [OF _ _ _ _ assms [unfolded Mutex1_alt]]
  by (simp add: Mutex_new_def static_val_def state_def mutex_value_def)

theorem Mutex1_main_counts_witness:
  "\<exists>c :: nat config. \<not> ub (mem c) \<and> out (mem c) = [] \<and> cell (mem c) (mutex_value 0) = VI32 1"
proof -
  obtain rest where rest: "(Mutex1_thread VUnit :: (nat, unit) prog) = bindp (bindp (Mutex1_lock 0)
      (\<lambda>g. seqp (add_assign_i32 (MutexGuard_deref_mut g) 1) (MutexGuard1_drop g))) rest"
    by (rule that, unfold Mutex1_thread_def, rule for_range_unroll, simp)
  have four: "replicate 4 VUnit = [VUnit, VUnit, VUnit, VUnit :: nat val]"
    by (simp add: numeral_eq_Suc)
  obtain c :: "nat config" where c: "run (\<lambda>_ _ _ _. True) Mutex1_thread
      (sched [(0, 0), (0, 0), (0, 0), (0, 0), (1, 0), (1, 0), (1, 0)])
      (init_config [Mutex_new (VI32 0)] Mutex1_main) = Some c"
      "out (mem c) = []" "cell (mem c) (mutex_value 0) = VI32 1"
    by (simp add: run_simps rest Mutex1_main_def Mutex_new_def Mutex1_lock_def MutexGuard1_drop_def
        MutexGuard_deref_mut_def add_assign_i32_def i32_add_def four
        state_def mutex_value_def cas_result_def is_err_def)
  from Mutex1_main_counts [OF run_reach [OF c(1)]] c(2-) show ?thesis by blast
qed

text \<open>
  C2. Mutual exclusion and data race freedom of the mutex of 09-01-01, which calls the futex only
  under contention: whatever threads run, as sequences of code outside of the lock and critical
  sections that access only the protected value, no reachable state has undefined behaviour and
  never are two threads at an access of the value.
\<close>

theorem Mutex2_clients_safe:
  assumes "v \<noteq> Uninit"
    and "list_all (section_ok {mutex_value 0}) main" "\<And>a. list_all (section_ok {mutex_value 0}) (thread a)"
    and "reach fx (\<lambda>a. client (seqp (Mutex2_lock 0) (Ret ())) (MutexGuard2_drop 0) (thread a))
      (init_config [Mutex_new v] (client (seqp (Mutex2_lock 0) (Ret ())) (MutexGuard2_drop 0) main)) c"
  shows "\<not> ub (mem c) \<and> exclusive {mutex_value 0} c"
  using m2.client_safe [OF _ _ _ assms(2-4)] assms(1)
  by (simp add: Mutex_new_def static_val_def state_def mutex_value_def)

theorem Mutex2_clients_safe_witness:
  "\<exists>c :: nat config. \<not> ub (mem c) \<and> exclusive {mutex_value 0} c \<and> finished c 0 \<and> finished c 1 \<and>
     cell (mem c) (mutex_value 0) = VList [VU8 2, VU8 1]"
proof -
  let ?lock = "seqp (Mutex2_lock 0) (Ret ()) :: (nat, unit) prog" and ?unlock = "MutexGuard2_drop 0 :: (nat, unit) prog"
  let ?main = "[Plain (seqp (spawn VUnit) (Ret ())), Critical (vec_push (mutex_value 0) (VU8 1))]"
  let ?thread = "\<lambda>_ :: nat val. [Critical (vec_push (mutex_value 0) (VU8 2))]"
  obtain c where c: "run (\<lambda>_ _ _ _. True) (\<lambda>a. client ?lock ?unlock (?thread a))
      (sched [(0, 0), (1, 0), (0, 1), (0, 1), (0, 0), (0, 0), (1, 0), (1, 0), (1, 2), (1, 0), (0, 3), (0, 0), (0, 0), (0, 4), (0, 0)])
      (init_config [Mutex_new (VList [])] (client ?lock ?unlock ?main)) = Some c"
      "finished c 0" "finished c 1" "cell (mem c) (mutex_value 0) = VList [VU8 2, VU8 1]"
    by (simp add: run_simps client_def vec_push_def Mutex_new_def Mutex2_lock_def MutexGuard2_drop_def
        state_def mutex_value_def cas_result_def is_err_def is_ok_def)
  have "list_all (section_ok {mutex_value 0}) ?main" "\<And>a. list_all (section_ok {mutex_value 0}) (?thread a)"
    by (simp_all add: accesses_def vec_push_def seqp_def conf_simps)
  from Mutex2_clients_safe [OF _ this run_reach [OF c(1)]] c(2-) show ?thesis by simp blast
qed

text \<open>
  The main program on the mutex of 09-01-01, which calls the futex only under contention: four
  threads increment the value 5 000 000 times each under the lock. No execution has a data race
  or panics, nothing but 20 000 000 is printed, and it has been printed when the main thread
  ends.
\<close>

theorem Mutex2_main_counts:
  assumes "reach fx Mutex2_thread (init_config [Mutex_new (VI32 0)] Mutex2_main) c"
  shows "\<not> ub (mem c) \<and> (\<forall>t msg. progs c t \<noteq> Some (Panic msg)) \<and> out (mem c) \<in> {[], [VI32 20000000]} \<and>
    (finished c 0 \<longrightarrow> out (mem c) = [VI32 20000000])"
  using m2.count_safe [OF _ _ _ _ assms [unfolded Mutex2_alt]]
  by (simp add: Mutex_new_def static_val_def state_def mutex_value_def)

theorem Mutex2_main_counts_witness:
  "\<exists>c :: nat config. \<not> ub (mem c) \<and> out (mem c) = [] \<and> cell (mem c) (mutex_value 0) = VI32 1"
proof -
  obtain rest where rest: "(Mutex2_thread VUnit :: (nat, unit) prog) = bindp (bindp (Mutex2_lock 0)
      (\<lambda>g. seqp (add_assign_i32 (MutexGuard_deref_mut g) 1) (MutexGuard2_drop g))) rest"
    by (rule that, unfold Mutex2_thread_def, rule for_range_unroll, simp)
  have four: "replicate 4 VUnit = [VUnit, VUnit, VUnit, VUnit :: nat val]"
    by (simp add: numeral_eq_Suc)
  obtain c :: "nat config" where c: "run (\<lambda>_ _ _ _. True) Mutex2_thread
      (sched [(0, 0), (0, 0), (0, 0), (0, 0), (1, 0), (1, 0), (1, 0)])
      (init_config [Mutex_new (VI32 0)] Mutex2_main) = Some c"
      "out (mem c) = []" "cell (mem c) (mutex_value 0) = VI32 1"
    by (simp add: run_simps rest Mutex2_main_def Mutex_new_def Mutex2_lock_def MutexGuard2_drop_def
        MutexGuard_deref_mut_def add_assign_i32_def i32_add_def four
        state_def mutex_value_def cas_result_def is_err_def)
  from Mutex2_main_counts [OF run_reach [OF c(1)]] c(2-) show ?thesis by blast
qed

text \<open>
  C3. Mutual exclusion and data race freedom of the mutex of 09-01-02, which spins before it waits:
  whatever threads run, as sequences of code outside of the lock and critical sections that
  access only the protected value, no reachable state has undefined behaviour and never are two
  threads at an access of the value.
\<close>

theorem Mutex3_clients_safe:
  assumes "v \<noteq> Uninit"
    and "list_all (section_ok {mutex_value 0}) main" "\<And>a. list_all (section_ok {mutex_value 0}) (thread a)"
    and "reach fx (\<lambda>a. client (seqp (Mutex3_lock 0) (Ret ())) (MutexGuard3_drop 0) (thread a))
      (init_config [Mutex_new v] (client (seqp (Mutex3_lock 0) (Ret ())) (MutexGuard3_drop 0) main)) c"
  shows "\<not> ub (mem c) \<and> exclusive {mutex_value 0} c"
  using m3.client_safe [OF _ _ _ assms(2-4)] assms(1)
  by (simp add: Mutex_new_def static_val_def state_def mutex_value_def)

theorem Mutex3_clients_safe_witness:
  "\<exists>c :: nat config. \<not> ub (mem c) \<and> exclusive {mutex_value 0} c \<and> finished c 0 \<and> finished c 1 \<and>
     cell (mem c) (mutex_value 0) = VList [VU8 2, VU8 1]"
proof -
  let ?lock = "seqp (Mutex3_lock 0) (Ret ()) :: (nat, unit) prog" and ?unlock = "MutexGuard3_drop 0 :: (nat, unit) prog"
  let ?main = "[Plain (seqp (spawn VUnit) (Ret ())), Critical (vec_push (mutex_value 0) (VU8 1))]"
  let ?thread = "\<lambda>_ :: nat val. [Critical (vec_push (mutex_value 0) (VU8 2))]"
  obtain c where c: "run (\<lambda>_ _ _ _. True) (\<lambda>a. client ?lock ?unlock (?thread a))
      (sched [(0, 0), (1, 0), (0, 1), (0, 1), (0, 0), (0, 0), (1, 0), (1, 0), (1, 1), (0, 2), (0, 2), (0, 0), (0, 0), (0, 3)])
      (init_config [Mutex_new (VList [])] (client ?lock ?unlock ?main)) = Some c"
      "finished c 0" "finished c 1" "cell (mem c) (mutex_value 0) = VList [VU8 2, VU8 1]"
    by (simp add: run_simps client_def vec_push_def Mutex_new_def Mutex3_lock_def MutexGuard3_drop_def
        spin_while_locked_def lock_contented_def
        state_def mutex_value_def cas_result_def is_err_def is_ok_def)
  have "list_all (section_ok {mutex_value 0}) ?main" "\<And>a. list_all (section_ok {mutex_value 0}) (?thread a)"
    by (simp_all add: accesses_def vec_push_def seqp_def conf_simps)
  from Mutex3_clients_safe [OF _ this run_reach [OF c(1)]] c(2-) show ?thesis by simp blast
qed

text \<open>
  C4. The main program on the mutex of 09-01-02, which spins before it waits: four threads increment
  the value 5 000 000 times each under the lock. No execution has a data race or panics, nothing
  but 20 000 000 is printed, and it has been printed when the main thread ends.
\<close>

theorem Mutex3_main_counts:
  assumes "reach fx Mutex3_thread (init_config [Mutex_new (VI32 0)] Mutex3_main) c"
  shows "\<not> ub (mem c) \<and> (\<forall>t msg. progs c t \<noteq> Some (Panic msg)) \<and> out (mem c) \<in> {[], [VI32 20000000]} \<and>
    (finished c 0 \<longrightarrow> out (mem c) = [VI32 20000000])"
  using m3.count_safe [OF _ _ _ _ assms [unfolded Mutex3_alt]]
  by (simp add: Mutex_new_def static_val_def state_def mutex_value_def)

theorem Mutex3_main_counts_witness:
  "\<exists>c :: nat config. \<not> ub (mem c) \<and> out (mem c) = [] \<and> cell (mem c) (mutex_value 0) = VI32 1"
proof -
  obtain rest where rest: "(Mutex3_thread VUnit :: (nat, unit) prog) = bindp (bindp (Mutex3_lock 0)
      (\<lambda>g. seqp (add_assign_i32 (MutexGuard_deref_mut g) 1) (MutexGuard3_drop g))) rest"
    by (rule that, unfold Mutex3_thread_def, rule for_range_unroll, simp)
  have four: "replicate 4 VUnit = [VUnit, VUnit, VUnit, VUnit :: nat val]"
    by (simp add: numeral_eq_Suc)
  obtain c :: "nat config" where c: "run (\<lambda>_ _ _ _. True) Mutex3_thread
      (sched [(0, 0), (0, 0), (0, 0), (0, 0), (1, 0), (1, 0), (1, 0)])
      (init_config [Mutex_new (VI32 0)] Mutex3_main) = Some c"
      "out (mem c) = []" "cell (mem c) (mutex_value 0) = VI32 1"
    by (simp add: run_simps rest Mutex3_main_def Mutex_new_def Mutex3_lock_def MutexGuard3_drop_def
        MutexGuard_deref_mut_def add_assign_i32_def i32_add_def four
        state_def mutex_value_def cas_result_def is_err_def)
  from Mutex3_main_counts [OF run_reach [OF c(1)]] c(2-) show ?thesis by blast
qed

end
