(* ===== verification/Access.thy ===== *)
theory Access
  imports Well_Formed
begin

text \<open>
  What the accesses to a location do to the memory, as facts that the protocols of the
  components use: the location's log gets one entry, the thread knows more, and the histories,
  cells and views change in the way the operation says.
\<close>

section \<open>Accesses\<close>

definition accessed :: "tid \<Rightarrow> loc \<Rightarrow> akind \<Rightarrow> 'a mem \<Rightarrow> 'a mem \<Rightarrow> bool" where
  "accessed t x k M M' \<longleftrightarrow> nthreads M' = nthreads M \<and> freed M' = freed M \<and> bsize M' = bsize M \<and>
     nblocks M' = nblocks M \<and> out M' = out M \<and> token M' = token M \<and>
     (\<exists>n. n \<le> cur M' t (Clk t) \<and> log M' = (log M)(x := (t, n, k) # log M x)) \<and>
     (\<forall>u. cur M u \<le> cur M' u) \<and> (\<forall>u. u \<noteq> t \<longrightarrow> cur M' u = cur M u \<and> pend M' u = pend M u)"

lemma accessedD:
  assumes "accessed t x k M M'"
  shows "nthreads M' = nthreads M" "freed M' = freed M" "bsize M' = bsize M" "nblocks M' = nblocks M" "out M' = out M"
    "cur M u \<le> cur M' u" "u \<noteq> t \<Longrightarrow> cur M' u = cur M u" "u \<noteq> t \<Longrightarrow> pend M' u = pend M u"
    "y \<noteq> x \<Longrightarrow> log M' y = log M y" "token M' = token M"
  using assms by (auto simp: accessed_def)

text \<open>A load that reads message \<open>m\<close>.\<close>

definition load_step :: "tid \<Rightarrow> loc \<Rightarrow> ordering \<Rightarrow> nat \<Rightarrow> 'a mem \<Rightarrow> 'a mem \<Rightarrow> 'a msg \<Rightarrow> bool" where
  "load_step t x o1 ts M M' m \<longleftrightarrow> accessed t x AtRead M M' \<and>
     ub M' = (ub M \<or> freed M (blk x) \<or> races AtRead (cur M t) (log M x)) \<and>
     hist M x ts = Some m \<and> cur M t (Ts x) \<le> ts \<and> ts \<le> cur M' t (Ts x) \<and>
     mview m \<le> pend M' t \<and> (acquires o1 \<longrightarrow> mview m \<le> cur M' t) \<and>
     hist M' = hist M \<and> cell M' = cell M \<and> drops M' = drops M"

lemma m_load_step:
  assumes "m_load ts t o1 x M = Some (v, M')"
  shows "\<exists>m. v = mval m \<and> load_step t x o1 ts M M' m"
  using assms
  by (auto simp: m_load_def load_step_def accessed_def touch_def observe_def Let_def le_fun_def le_max_iff_disj
      readable_def split: option.splits if_splits)

text \<open>A store of message \<open>m\<close> at timestamp \<open>ts\<close>.\<close>

definition store_step :: "tid \<Rightarrow> loc \<Rightarrow> ordering \<Rightarrow> nat \<Rightarrow> 'a mem \<Rightarrow> 'a mem \<Rightarrow> 'a msg \<Rightarrow> bool" where
  "store_step t x o1 ts M M' m \<longleftrightarrow> accessed t x AtWrite M M' \<and>
     ub M' = (ub M \<or> freed M (blk x) \<or> races AtWrite (cur M t) (log M x)) \<and>
     hist M x ts = None \<and> cur M t (Ts x) < ts \<and> ts \<le> cur M' t (Ts x) \<and>
     hist M' = (hist M)(x := (hist M x)(ts \<mapsto> m)) \<and> (releases o1 \<longrightarrow> cur M' t \<le> mview m) \<and>
     cell M' = cell M \<and> drops M' = drops M"

lemma m_store_step:
  assumes "m_store ts t o1 x v M = Some M'"
  shows "\<exists>m. mval m = v \<and> store_step t x o1 ts M M' m"
proof -
  let ?m = "\<lparr>mval = v, mview = released o1 t x ts (observe o1 t x ts bot (touch AtWrite t x M))\<rparr>"
  have "store_step t x o1 ts M M' ?m"
    using assms
    by (auto simp: m_store_def store_step_def accessed_def touch_def observe_def post_def released_def Let_def
        le_fun_def le_max_iff_disj split: if_splits)
  then show ?thesis by (intro exI [of _ ?m]) simp
qed

text \<open>A successful read-modify-write that replaces message \<open>m\<close> by \<open>m'\<close>.\<close>

definition rmw_step :: "tid \<Rightarrow> loc \<Rightarrow> ordering \<Rightarrow> nat \<Rightarrow> 'a mem \<Rightarrow> 'a mem \<Rightarrow> 'a msg \<Rightarrow> 'a msg \<Rightarrow> bool" where
  "rmw_step t x os ts M M' m m' \<longleftrightarrow> accessed t x AtWrite M M' \<and>
     ub M' = (ub M \<or> freed M (blk x) \<or> races AtWrite (cur M t) (log M x)) \<and>
     hist M x ts = Some m \<and> hist M x (Suc ts) = None \<and> cur M t (Ts x) \<le> ts \<and> Suc ts \<le> cur M' t (Ts x) \<and>
     hist M' = (hist M)(x := (hist M x)(Suc ts \<mapsto> m')) \<and>
     mview m \<le> mview m' \<and> (releases os \<longrightarrow> cur M' t \<le> mview m') \<and>
     mview m \<le> pend M' t \<and> (acquires os \<longrightarrow> mview m \<le> cur M' t) \<and>
     cell M' = cell M \<and> drops M' = drops M"

lemma m_rmw_step:
  assumes "m_rmw ts sp t os of1 x f M = Some (True, v, M')"
  shows "\<exists>m m'. v = mval m \<and> f v = Some (mval m') \<and> rmw_step t x os ts M M' m m'"
proof -
  from assms obtain m v' where m: "hist M x ts = Some m" "v = mval m" "f v = Some v'" "hist M x (Suc ts) = None"
      "readable os t x ts M"
    and M': "M' = (let M1 = observe os t x (Suc ts) (mview m) (touch AtWrite t x M)
               in post x (Suc ts) v' (sup (mview m) (released os t x (Suc ts) M1)) M1)"
    by (auto simp: m_rmw_def Let_def split: option.splits if_splits)
  let ?m = "\<lparr>mval = v', mview = sup (mview m) (released os t x (Suc ts)
    (observe os t x (Suc ts) (mview m) (touch AtWrite t x M)))\<rparr>"
  have "rmw_step t x os ts M M' m ?m"
    using m
    by (auto simp: M' rmw_step_def accessed_def released_def touch_def observe_def post_def readable_def Let_def
        le_fun_def le_max_iff_disj)
  with m show ?thesis by (intro exI [of _ m] exI [of _ ?m]) simp
qed

lemma m_rmw_fail:
  assumes "m_rmw ts sp t os of1 x f M = Some (False, v, M')"
  shows "\<exists>m. v = mval m \<and> load_step t x of1 ts M M' m"
proof -
  from assms have "m_load ts t of1 x M = Some (v, M')"
    by (auto simp: m_rmw_def Let_def split: option.splits if_splits)
  then show ?thesis by (rule m_load_step)
qed

text \<open>Non-atomic accesses.\<close>

definition cell_step :: "tid \<Rightarrow> loc \<Rightarrow> akind \<Rightarrow> 'a mem \<Rightarrow> 'a mem \<Rightarrow> bool" where
  "cell_step t x k M M' \<longleftrightarrow> accessed t x k M M' \<and> hist M' = hist M \<and> pend M' = pend M \<and> (\<forall>y. y \<noteq> x \<longrightarrow> cell M' y = cell M y)"

lemma m_cell_step:
  "cell_step t x NaRead M (m_read t x M)" "cell_step t x NaWrite M (m_write t x v M)"
  "cell_step t x NaWrite M (m_drop t x M)"
  "ub (m_read t x M) = (ub M \<or> freed M (blk x) \<or> races NaRead (cur M t) (log M x) \<or> cell M x = Uninit)"
  "ub (m_write t x v M) = (ub M \<or> freed M (blk x) \<or> races NaWrite (cur M t) (log M x))"
  "ub (m_drop t x M) = (ub M \<or> freed M (blk x) \<or> races NaWrite (cur M t) (log M x) \<or> cell M x = Uninit)"
  "cell (m_read t x M) = cell M" "cell (m_write t x v M) = (cell M)(x := v)"
  "cell (m_drop t x M) = (cell M)(x := Uninit)"
  "drops (m_read t x M) = drops M" "drops (m_write t x v M) = drops M"
  "drops (m_drop t x M) = cell M x # drops M"
  by (auto simp: cell_step_def m_read_def m_write_def m_drop_def accessed_def touch_def Let_def le_fun_def)

section \<open>Which accesses race\<close>

text \<open>A view that is at least as late as the clock of every thread covers every access.\<close>

lemma covered_all:
  assumes "wf_mem M" and "\<And>u. u < nthreads M \<Longrightarrow> cur M u (Clk u) \<le> V (Clk u)"
  shows "covered (log M l) V"
  unfolding covered_def
proof (intro allI impI)
  fix u n k assume "(u, n, k) \<in> set (log M l)"
  then have "n \<le> cur M u (Clk u)" using assms(1) unfolding wf_mem_def wf_core_def by blast
  also have "\<dots> \<le> V (Clk u)"
    using assms by (cases "u < nthreads M") (auto simp: wf_mem_def)
  finally show "n \<le> V (Clk u)" .
qed

text \<open>
  An atomic access does not race when the non-atomic writes are known; a non-atomic read does
  not race with reads.
\<close>

definition wcovered :: "access list \<Rightarrow> view \<Rightarrow> bool" where
  "wcovered es V \<longleftrightarrow> (\<forall>u n. (u, n, NaWrite) \<in> set es \<longrightarrow> n \<le> V (Clk u))"

definition kinds_in :: "akind set \<Rightarrow> access list \<Rightarrow> bool" where
  "kinds_in K es = list_all (\<lambda>(u, n, k). k \<in> K) es"

lemma wcovered_simps [simp]:
  "wcovered [] V" "wcovered ((u, n, k) # es) V \<longleftrightarrow> (k = NaWrite \<longrightarrow> n \<le> V (Clk u)) \<and> wcovered es V"
  by (auto simp: wcovered_def)

lemma covered_wcovered: "covered es V \<Longrightarrow> wcovered es V"
  by (auto simp: covered_def wcovered_def)

lemma wcovered_mono: "wcovered es V \<Longrightarrow> V \<le> W \<Longrightarrow> wcovered es W"
  unfolding wcovered_def by (meson order_trans view_le_apply)

lemma kinds_in_simps [simp]:
  "kinds_in K []" "kinds_in K ((u, n, k) # es) \<longleftrightarrow> k \<in> K \<and> kinds_in K es"
  by (simp_all add: kinds_in_def)

lemma kinds_inD: "kinds_in K es \<Longrightarrow> (u, n, k) \<in> set es \<Longrightarrow> k \<in> K"
  by (auto simp: kinds_in_def list_all_iff)

lemma no_race_atomic_w:
  assumes "wcovered es V" and "kinds_in {NaWrite, AtRead, AtWrite} es" and "k \<in> {AtRead, AtWrite}"
  shows "\<not> races k V es"
proof -
  have "\<not> (conflicting k k' \<and> V (Clk u) < n)" if "(u, n, k') \<in> set es" for u n k'
    using that assms(1,3) kinds_inD [OF assms(2) that] by (auto simp: wcovered_def not_less)
  then show ?thesis by (auto simp: races_def list_ex_iff)
qed

lemma no_race_read_w:
  assumes "wcovered es V" and "kinds_in {NaRead, NaWrite} es"
  shows "\<not> races NaRead V es"
proof -
  have "\<not> (conflicting NaRead k' \<and> V (Clk u) < n)" if "(u, n, k') \<in> set es" for u n k'
    using that assms(1) kinds_inD [OF assms(2) that] by (auto simp: wcovered_def not_less)
  then show ?thesis by (auto simp: races_def list_ex_iff)
qed

end
