(* ===== verification/Arc_Protocol.thy ===== *)
theory Arc_Protocol
  imports Protocol Access
begin

text \<open>
  Reference counting, for every client at once. The threads own handles of one shared block,
  which holds a reference counter and the data. The protocol allows a thread that owns a handle
  to clone it, to drop it, to read the data, to pass handles to the threads it spawns, and to
  write the data after it has seen the counter at 1. The invariant shows that the counter is
  the number of handles, that the data is freed exactly when there are none left, and that there
  is no data race and no use after free, although the counter is incremented with relaxed
  ordering and decremented with release ordering only, followed by an acquire fence.
\<close>

section \<open>The automaton\<close>

text \<open>\<open>ArcData { ref_count, data }\<close> at block \<open>b\<close>.\<close>

definition ref_count :: "nat \<Rightarrow> loc" where
  "ref_count b = Loc b 0"

definition arc_data :: "nat \<Rightarrow> loc" where
  "arc_data b = Loc b 1"

lemma arc_locs [simp]:
  "ref_count b \<noteq> arc_data b" "arc_data b \<noteq> ref_count b" "blk (ref_count b) = b" "blk (arc_data b) = b"
  by (simp_all add: ref_count_def arc_data_def)

text \<open>
  A thread owns some handles and is in a mode: \<open>Fresh\<close> (the main thread before the block is
  allocated), \<open>Norm\<close>, \<open>Saw1\<close> (it has read 1 from the counter), \<open>Excl\<close> (and passed the fence: it may
  write the data), \<open>Abrt\<close> (it has seen a huge counter and is going to abort), and, after the last
  handle is gone, \<open>Last\<close>, \<open>Fenced\<close> and \<open>Dropped\<close>.
\<close>

datatype amode = Fresh | Norm | Saw1 | Excl | Abrt | Last | Fenced | Dropped

record ast =
  own :: nat
  mode :: amode

definition MAX_HALF :: "64 word" where
  "MAX_HALF = (- 1) div 2"

text \<open>
  \<open>gives a\<close> is the number of handles moved to a thread spawned with \<open>a\<close>, \<open>G\<close> the values that the
  data may have and \<open>P\<close> those that may be printed.
\<close>

fun atr :: "nat \<Rightarrow> 'a val set \<Rightarrow> 'a val set \<Rightarrow> ('a val \<Rightarrow> nat) \<Rightarrow> ast \<Rightarrow> 'a instr \<Rightarrow> 'a resp \<Rightarrow> ast \<Rightarrow> bool" where
  "atr b G P gives s (IAlloc vs) r s' =
     (mode s = Fresh \<and> (\<exists>v \<in> G. vs = [VUsize 1, v]) \<and> s' = \<lparr>own = 1, mode = Norm\<rparr>)"
| "atr b G P gives s (ILoad o1 l) r s' =
     (l = ref_count b \<and> mode s \<in> {Norm, Excl} \<and> 0 < own s \<and>
      (s' = s \<or> rval r = VUsize 1 \<and> s' = s\<lparr>mode := Saw1\<rparr>))"
| "atr b G P gives s (IRmw os of1 w l f) r s' =
     (l = ref_count b \<and> mode s \<in> {Norm, Excl} \<and> 0 < own s \<and> rok r \<and>
      (f = (\<lambda>v. Some (vadd v (VUsize 1))) \<and>
         s' = \<lparr>own = Suc (own s), mode = (if MAX_HALF < as_usize (rval r) then Abrt else Norm)\<rparr> \<or>
       f = (\<lambda>v. Some (vsub v (VUsize 1))) \<and> releases os \<and>
         s' = \<lparr>own = own s - 1, mode = (if rval r = VUsize 1 then Last else Norm)\<rparr>))"
| "atr b G P gives s (IFence o1) r s' =
     (acquires o1 \<and> s' = s\<lparr>mode := (case mode s of Last \<Rightarrow> Fenced | Saw1 \<Rightarrow> Excl | m \<Rightarrow> m)\<rparr>)"
| "atr b G P gives s (IRead l) r s' = (l = arc_data b \<and> mode s \<in> {Norm, Excl} \<and> 0 < own s \<and> s' = s)"
| "atr b G P gives s (IWrite l v) r s' = (l = arc_data b \<and> mode s = Excl \<and> v \<in> G \<and> s' = s)"
| "atr b G P gives s (IDrop l) r s' = (l = arc_data b \<and> mode s = Fenced \<and> s' = s\<lparr>mode := Dropped\<rparr>)"
| "atr b G P gives s (IFree b') r s' = (b' = b \<and> mode s = Dropped \<and> s' = s\<lparr>mode := Norm\<rparr>)"
| "atr b G P gives s (ISpawn a) r s' =
     (mode s \<in> {Norm, Excl} \<and> gives a \<le> own s \<and>
      s' = \<lparr>own = own s - gives a, mode = (if gives a = 0 then mode s else Norm)\<rparr>)"
| "atr b G P gives s (IPrint v) r s' = (v \<in> P \<and> s' = s)"
| "atr b G P gives s i r s' = (quiet i \<and> s' = s)"

definition achild :: "('a val \<Rightarrow> nat) \<Rightarrow> 'a val \<Rightarrow> ast" where
  "achild gives a = \<lparr>own = gives a, mode = Norm\<rparr>"

definition afin :: "ast \<Rightarrow> bool" where
  "afin s \<longleftrightarrow> own s = 0 \<and> mode s = Norm"

text \<open>What the code relies on: the counter is a number, and the data is in \<open>G\<close>.\<close>

fun apos :: "nat \<Rightarrow> 'a val set \<Rightarrow> ast \<Rightarrow> 'a instr \<Rightarrow> 'a resp \<Rightarrow> bool" where
  "apos b G s (ILoad o1 l) r = (l = ref_count b \<and> 0 < own s \<longrightarrow> (\<exists>w. rval r = VUsize w))"
| "apos b G s (IRmw os of1 w l f) r = (l = ref_count b \<and> 0 < own s \<longrightarrow> (\<exists>w. rval r = VUsize w))"
| "apos b G s (IRead l) r = (l = arc_data b \<and> 0 < own s \<longrightarrow> rval r \<in> G)"
| "apos b G s (IAlloc vs) r = (mode s = Fresh \<longrightarrow> r = RVal (VPtr (Some b)))"
| "apos b G s i r = True"

section \<open>The invariant\<close>

definition owns :: "(tid \<Rightarrow> ast) \<Rightarrow> nat \<Rightarrow> nat" where
  "owns S n = (\<Sum>t<n. own (S t))"

definition aborting :: "(tid \<Rightarrow> ast) \<Rightarrow> nat \<Rightarrow> nat" where
  "aborting S n = (\<Sum>t<n. if mode (S t) = Abrt then 1 else 0)"

text \<open>
  Every access is known to the message \<open>V\<close> of the last decrement or to a thread that still owns
  a handle; every non-atomic write (the allocation, writes through \<open>get_mut\<close>) is known to all of
  these threads.
\<close>

definition known :: "(tid \<Rightarrow> ast) \<Rightarrow> 'a mem \<Rightarrow> view \<Rightarrow> access list \<Rightarrow> bool" where
  "known S M V es \<longleftrightarrow> (\<forall>u n k. (u, n, k) \<in> set es \<longrightarrow>
     n \<le> V (Clk u) \<or> (\<exists>t < nthreads M. 0 < own (S t) \<and> n \<le> cur M t (Clk u)))"

definition counted :: "nat \<Rightarrow> (tid \<Rightarrow> ast) \<Rightarrow> 'a mem \<Rightarrow> nat \<Rightarrow> bool" where
  "counted b S M n \<longleftrightarrow> chain (hist M (ref_count b)) n \<and>
     (\<forall>k m. hist M (ref_count b) k = Some m \<longrightarrow> (\<exists>w. mval m = VUsize w)) \<and>
     (\<exists>m. hist M (ref_count b) n = Some m \<and> mval m = VUsize (of_nat (owns S (nthreads M))) \<and>
        known S M (mview m) (log M (ref_count b)) \<and> known S M (mview m) (log M (arc_data b))) \<and>
     (\<forall>k m t. hist M (ref_count b) k = Some m \<longrightarrow> mval m = VUsize 1 \<longrightarrow> k < n \<longrightarrow>
        t < nthreads M \<longrightarrow> 0 < own (S t) \<longrightarrow> k < cur M t (Ts (ref_count b)))"

definition kinds_ok :: "nat \<Rightarrow> 'a mem \<Rightarrow> bool" where
  "kinds_ok b M \<longleftrightarrow> kinds_in {NaWrite, AtRead, AtWrite} (log M (ref_count b)) \<and>
     kinds_in {NaRead, NaWrite} (log M (arc_data b))"

definition mode_ok :: "nat \<Rightarrow> (tid \<Rightarrow> ast) \<Rightarrow> 'a mem \<Rightarrow> tid \<Rightarrow> bool" where
  "mode_ok b S M t \<longleftrightarrow> (case mode (S t) of
      Norm \<Rightarrow> True
    | Abrt \<Rightarrow> 0 < own (S t)
    | Saw1 \<Rightarrow> own (S t) = 1 \<and> owns S (nthreads M) = 1 \<and> covered (log M (arc_data b)) (sup (cur M t) (pend M t))
    | Excl \<Rightarrow> own (S t) = 1 \<and> owns S (nthreads M) = 1 \<and> covered (log M (arc_data b)) (cur M t)
    | _ \<Rightarrow> False)"

definition alive :: "nat \<Rightarrow> 'a val set \<Rightarrow> (tid \<Rightarrow> ast) \<Rightarrow> 'a mem \<Rightarrow> bool" where
  "alive b G S M \<longleftrightarrow> 0 < owns S (nthreads M) \<and> (\<exists>n. counted b S M n) \<and> \<not> freed M b \<and> cell M (arc_data b) \<in> G \<and>
     kinds_ok b M \<and> bsize M b = 2 \<and> drops M = [] \<and>
     (\<forall>t < nthreads M. 0 < own (S t) \<longrightarrow>
        wcovered (log M (ref_count b)) (cur M t) \<and> wcovered (log M (arc_data b)) (cur M t)) \<and>
     (\<forall>t < nthreads M. mode_ok b S M t) \<and>
     owns S (nthreads M) \<le> 2 ^ 63 + aborting S (nthreads M)"

definition covered_block :: "nat \<Rightarrow> 'a mem \<Rightarrow> view \<Rightarrow> bool" where
  "covered_block b M V \<longleftrightarrow> covered (log M (ref_count b)) V \<and> covered (log M (arc_data b)) V"

text \<open>After the last handle is gone one thread frees the block, step by step.\<close>

definition ender :: "nat \<Rightarrow> 'a val set \<Rightarrow> (tid \<Rightarrow> ast) \<Rightarrow> 'a mem \<Rightarrow> tid \<Rightarrow> bool" where
  "ender b G S M t \<longleftrightarrow> t < nthreads M \<and> (\<forall>u < nthreads M. u \<noteq> t \<longrightarrow> mode (S u) = Norm) \<and>
     (case mode (S t) of
        Last \<Rightarrow> covered_block b M (sup (cur M t) (pend M t)) \<and> cell M (arc_data b) \<in> G \<and> drops M = []
      | Fenced \<Rightarrow> covered_block b M (cur M t) \<and> cell M (arc_data b) \<in> G \<and> drops M = []
      | Dropped \<Rightarrow> covered_block b M (cur M t) \<and> (\<exists>v \<in> G. drops M = [v])
      | _ \<Rightarrow> False)"

definition dying :: "nat \<Rightarrow> 'a val set \<Rightarrow> (tid \<Rightarrow> ast) \<Rightarrow> 'a mem \<Rightarrow> bool" where
  "dying b G S M \<longleftrightarrow> (\<forall>t < nthreads M. own (S t) = 0) \<and> bsize M b = 2 \<and> \<not> freed M b \<and>
     (\<exists>t. ender b G S M t)"

definition dead :: "nat \<Rightarrow> 'a val set \<Rightarrow> (tid \<Rightarrow> ast) \<Rightarrow> 'a mem \<Rightarrow> bool" where
  "dead b G S M \<longleftrightarrow> (\<forall>t < nthreads M. S t = \<lparr>own = 0, mode = Norm\<rparr>) \<and> freed M b \<and> (\<exists>v \<in> G. drops M = [v])"

definition unborn :: "nat \<Rightarrow> (tid \<Rightarrow> ast) \<Rightarrow> 'a mem \<Rightarrow> bool" where
  "unborn b S M \<longleftrightarrow> nblocks M = b \<and> \<not> freed M b \<and> drops M = [] \<and>
     (\<forall>k. k \<noteq> 0 \<longrightarrow> hist M (ref_count b) k = None) \<and>
     nthreads M = 1 \<and> S 0 = \<lparr>own = 0, mode = Fresh\<rparr>"

definition arc_phase :: "nat \<Rightarrow> 'a val set \<Rightarrow> (tid \<Rightarrow> ast) \<Rightarrow> 'a mem \<Rightarrow> bool" where
  "arc_phase b G S M \<longleftrightarrow> unborn b S M \<or> alive b G S M \<or> dying b G S M \<or> dead b G S M"

definition arc_inv :: "nat \<Rightarrow> 'a val set \<Rightarrow> 'a val set \<Rightarrow> (tid \<Rightarrow> ast) \<Rightarrow> 'a mem \<Rightarrow> bool" where
  "arc_inv b G P S M \<longleftrightarrow> Uninit \<notin> G \<and> \<not> ub M \<and> set (out M) \<subseteq> P \<and> arc_phase b G S M"

text \<open>The counter cannot overflow as long as there are fewer than \<open>2 ^ 63\<close> threads.\<close>

definition few_threads :: "'a mem \<Rightarrow> bool" where
  "few_threads M \<longleftrightarrow> nthreads M < 2 ^ 63"

section \<open>Facts on the parts of the invariant\<close>

lemma known_mono:
  assumes "known S M V es" and "V \<le> W" and "nthreads M \<le> nthreads M'"
    and "\<And>t. t < nthreads M \<Longrightarrow> 0 < own (S t) \<Longrightarrow>
      \<exists>t' < nthreads M'. 0 < own (S' t') \<and> cur M t \<le> cur M' t'"
  shows "known S' M' W es"
  unfolding known_def
proof (intro allI impI)
  fix u n k assume "(u, n, k) \<in> set es"
  with assms(1) consider "n \<le> V (Clk u)" | t where "t < nthreads M" "0 < own (S t)" "n \<le> cur M t (Clk u)"
    unfolding known_def by blast
  then show "n \<le> W (Clk u) \<or> (\<exists>t < nthreads M'. 0 < own (S' t) \<and> n \<le> cur M' t (Clk u))"
  proof cases
    case 1
    with assms(2) show ?thesis by (meson order_trans view_le_apply)
  next
    case 2
    with assms(4) show ?thesis by (meson order_trans view_le_apply)
  qed
qed

lemma known_Cons: "known S M V (e # es) \<longleftrightarrow> known S M V [e] \<and> known S M V es"
  unfolding known_def list.set by blast

lemma known_own:
  "t < nthreads M \<Longrightarrow> 0 < own (S t) \<Longrightarrow> n \<le> cur M t (Clk t) \<Longrightarrow> known S M V [(t, n, k)]"
  by (auto simp: known_def)

lemma known_covered:
  assumes "known S M V es" and "V \<le> W"
    and "\<And>u. u < nthreads M \<Longrightarrow> 0 < own (S u) \<Longrightarrow> cur M u \<le> W"
  shows "covered es W"
  unfolding covered_def
proof (intro allI impI)
  fix u n k assume "(u, n, k) \<in> set es"
  with assms(1) have "n \<le> V (Clk u) \<or> (\<exists>t < nthreads M. 0 < own (S t) \<and> n \<le> cur M t (Clk u))"
    unfolding known_def by blast
  with assms(2,3) show "n \<le> W (Clk u)" by (meson order_trans view_le_apply)
qed

lemma owns_upd: "t < n \<Longrightarrow> owns (S(t := s)) n + own (S t) = owns S n + own s"
  unfolding owns_def by (rule sum_upd)

lemma owns_spawn: "owns (S(n := s)) (Suc n) = owns S n + own s"
  unfolding owns_def by (simp add: sum_upd_new)

lemma owns_ge: "t < n \<Longrightarrow> own (S t) \<le> owns S n"
  unfolding owns_def by (intro member_le_sum) auto

lemma owns_0: "owns S n = 0 \<longleftrightarrow> (\<forall>t < n. own (S t) = 0)"
  by (auto simp: owns_def)

lemma aborting_upd:
  "t < n \<Longrightarrow> aborting (S(t := s)) n + (if mode (S t) = Abrt then 1 else 0) =
     aborting S n + (if mode s = Abrt then 1 else 0)"
  unfolding aborting_def using sum_upd [of t n "\<lambda>s. if mode s = Abrt then 1 else 0" S s] by simp

lemma aborting_spawn: "aborting (S(n := s)) (Suc n) = aborting S n + (if mode s = Abrt then 1 else 0)"
  unfolding aborting_def using sum_upd_new [of "\<lambda>s. if mode s = Abrt then 1 else 0" S n s] by simp

lemma aborting_le: "aborting S n \<le> n"
proof -
  have "aborting S n \<le> (\<Sum>t<n. 1)" unfolding aborting_def by (rule sum_mono) simp
  then show ?thesis by simp
qed

text \<open>When the counter is 1, there is one handle and it has one owner.\<close>

lemma sole_owner:
  assumes "owns S n = 1" and "t < n" "0 < own (S t)"
  shows "own (S t) = 1" "u < n \<Longrightarrow> 0 < own (S u) \<Longrightarrow> u = t"
proof -
  show 1: "own (S t) = 1" using owns_ge [of t n S] assms by simp
  have "owns (S(t := (S t)\<lparr>own := 0\<rparr>)) n = 0"
    using owns_upd [OF assms(2), of S "(S t)\<lparr>own := 0\<rparr>"] 1 assms(1) by simp
  then show "u < n \<Longrightarrow> 0 < own (S u) \<Longrightarrow> u = t"
    by (auto simp: owns_0 split: if_splits)
qed

section \<open>Steps that only make the threads know more\<close>

definition grows :: "'a mem \<Rightarrow> 'a mem \<Rightarrow> bool" where
  "grows M M' \<longleftrightarrow> hist M' = hist M \<and> log M' = log M \<and> cell M' = cell M \<and> freed M' = freed M \<and> ub M' = ub M \<and>
     drops M' = drops M \<and> bsize M' = bsize M \<and> nblocks M' = nblocks M \<and> nthreads M' = nthreads M \<and>
     (\<forall>u < nthreads M. cur M u \<le> cur M' u \<and> pend M u \<le> pend M' u)"

lemma counted_grows:
  assumes "counted b S M n" and g: "grows M M'"
  shows "counted b S M' n"
proof -
  have "known S M' V es" if "known S M V es" for V es
    by (rule known_mono [OF that]) (use g in \<open>auto simp: grows_def\<close>)
  moreover have "k < cur M' t (Ts l)" if "t < nthreads M" "k < cur M t (Ts l)" for t k l
    using that g unfolding grows_def by (meson order_less_le_trans view_le_apply)
  ultimately show ?thesis
    using assms unfolding counted_def grows_def by metis
qed

lemma grows_views:
  assumes "grows M M'" and "t < nthreads M"
  shows "cur M t \<le> cur M' t" "sup (cur M t) (pend M t) \<le> sup (cur M' t) (pend M' t)"
  using assms unfolding grows_def by (blast, blast intro: sup_mono)

lemma mode_ok_grows:
  assumes "mode_ok b S M t" and g: "grows M M'" and "t < nthreads M"
  shows "mode_ok b S M' t"
proof -
  have "cur M t \<le> cur M' t" "sup (cur M t) (pend M t) \<le> sup (cur M' t) (pend M' t)"
    using grows_views [OF g assms(3)] .
  then show ?thesis
    using assms(1) g unfolding mode_ok_def grows_def
    by (auto split: amode.splits intro: covered_mono)
qed

lemma alive_grows:
  assumes "alive b G S M" and g: "grows M M'"
  shows "alive b G S M'"
proof -
  have eq: "nthreads M' = nthreads M" "freed M' = freed M" "cell M' = cell M" "log M' = log M"
      "bsize M' = bsize M" "drops M' = drops M" and cur: "\<And>t. t < nthreads M \<Longrightarrow> cur M t \<le> cur M' t"
    using g by (auto simp: grows_def)
  have "\<forall>t < nthreads M. mode_ok b S M' t"
    using assms by (auto simp: alive_def intro: mode_ok_grows)
  moreover have "\<exists>n. counted b S M' n"
    using assms by (auto simp: alive_def intro: counted_grows)
  ultimately show ?thesis
    using assms(1) wcovered_mono [OF _ cur]
    unfolding alive_def eq kinds_ok_def by blast
qed

lemma ender_grows:
  assumes "ender b G S M t" and g: "grows M M'"
  shows "ender b G S M' t"
proof -
  have eq: "nthreads M' = nthreads M" "cell M' = cell M" "log M' = log M" "drops M' = drops M"
    using g by (auto simp: grows_def)
  have "t < nthreads M" using assms(1) by (simp add: ender_def)
  note cur = grows_views [OF g this]
  have "covered_block b M V \<Longrightarrow> V \<le> W \<Longrightarrow> covered_block b M' W" for V W
    unfolding covered_block_def eq by (auto intro: covered_mono)
  with assms(1) cur show ?thesis
    unfolding ender_def eq by (auto split: amode.splits)
qed

lemma dying_grows:
  assumes "dying b G S M" and g: "grows M M'"
  shows "dying b G S M'"
proof -
  have "nthreads M' = nthreads M" "freed M' = freed M" "bsize M' = bsize M"
    using g by (auto simp: grows_def)
  with assms(1) show ?thesis
    unfolding dying_def by (auto intro: ender_grows [OF _ g])
qed

lemma arc_phase_grows:
  assumes "arc_phase b G S M" and g: "grows M M'"
  shows "arc_phase b G S M'"
proof -
  have eq: "nthreads M' = nthreads M" "freed M' = freed M" "nblocks M' = nblocks M" "drops M' = drops M" "hist M' = hist M"
    using g by (auto simp: grows_def)
  have "unborn b S M \<Longrightarrow> unborn b S M'" "dead b G S M \<Longrightarrow> dead b G S M'"
    unfolding unborn_def dead_def eq by auto
  with assms show ?thesis
    unfolding arc_phase_def by (auto intro: alive_grows dying_grows)
qed

lemma quiet_grows:
  assumes "quiet i" and ex: "mexec fx ch t i M = Some (r, M')" and "\<And>a. i \<noteq> ISpawn a"
  shows "grows M M'"
  using mexec_quiet [OF assms(1) ex] mexec_quiet_pend [OF assms(1) ex] mexec_nthreads [OF ex]
    mexec_cur_mono [OF ex] assms(3)
  unfolding grows_def by (auto split: instr.splits)

section \<open>Steps of a thread that owns a handle\<close>

lemma other_modes:
  assumes "alive b G S M" and "t < nthreads M" "0 < own (S t)" and u: "u < nthreads M" "u \<noteq> t"
  shows "mode (S u) \<in> {Norm, Abrt}"
proof -
  have "mode_ok b S M u" using assms(1) u by (simp add: alive_def)
  moreover have False if "owns S (nthreads M) = 1" "own (S u) = 1"
    using sole_owner(2) [OF that(1) u(1) _ assms(2,3)] that(2) u(2) by simp
  ultimately show ?thesis
    by (auto simp: mode_ok_def split: amode.splits)
qed

lemma other_mode_ok:
  assumes "alive b G S M" and "t < nthreads M" "0 < own (S t)" and u: "u < nthreads M" "u \<noteq> t" and "S' u = S u"
  shows "mode_ok b S' M' u"
  using other_modes [OF assms(1-5)] assms(1,4,6) by (auto simp: alive_def mode_ok_def)

lemma known_accessed:
  assumes "accessed t x k M M'" and "t < nthreads M" and known: "known S M V (log M y)" and "V \<le> W"
    and own: "\<And>u. u < nthreads M \<Longrightarrow> 0 < own (S u) \<Longrightarrow> 0 < own (S' u) \<or> u = t \<and> cur M' t \<le> W"
    and new: "0 < own (S' t) \<or> cur M' t \<le> W"
  shows "known S' M' W (log M' y)"
proof -
  from assms(1) obtain n where n: "n \<le> cur M' t (Clk t)" "log M' = (log M)(x := (t, n, k) # log M x)"
    and eq: "nthreads M' = nthreads M" and cur: "\<And>u. cur M u \<le> cur M' u"
    unfolding accessed_def by blast
  have "known S' M' W (log M y)"
    unfolding known_def
  proof (intro allI impI)
    fix u m k' assume "(u, m, k') \<in> set (log M y)"
    with known consider "m \<le> V (Clk u)" | v where "v < nthreads M" "0 < own (S v)" "m \<le> cur M v (Clk u)"
      unfolding known_def by blast
    then show "m \<le> W (Clk u) \<or> (\<exists>v < nthreads M'. 0 < own (S' v) \<and> m \<le> cur M' v (Clk u))"
    proof cases
      case 1
      with assms(4) show ?thesis by (meson order_trans view_le_apply)
    next
      case 2
      have "m \<le> cur M' v (Clk u)" using 2(3) cur [of v] by (meson order_trans view_le_apply)
      with own [OF 2(1,2)] 2(1) eq show ?thesis by (metis order_trans view_le_apply)
    qed
  qed
  moreover have "known S' M' W [(t, n, k)]"
    using new n(1) assms(2) eq unfolding known_def by (auto dest: view_le_apply [of _ _ "Clk t"] intro: order_trans)
  ultimately show ?thesis
    using n(2) known_Cons [of S' M' W "(t, n, k)" "log M y"] by (cases "y = x") auto
qed

lemma alive_accessed:
  assumes al: "alive b G S M" and t: "t < nthreads M" "0 < own (S t)" and ac: "accessed t x k M M'"
    and kinds: "kinds_ok b M'" and w: "k = NaWrite \<Longrightarrow> owns S (nthreads M) = 1"
    and "drops M' = drops M" "cell M' (arc_data b) \<in> G"
    and S': "\<And>u. u \<noteq> t \<Longrightarrow> S' u = S u" and "counted b S' M' n" and "0 < owns S' (nthreads M)"
    and "mode_ok b S' M' t" and "owns S' (nthreads M) \<le> 2 ^ 63 + aborting S' (nthreads M)"
  shows "alive b G S' M'"
proof -
  from ac obtain m where m: "m \<le> cur M' t (Clk t)" "log M' = (log M)(x := (t, m, k) # log M x)"
    and eq: "nthreads M' = nthreads M" "freed M' = freed M" "bsize M' = bsize M" and cur: "\<And>u. cur M u \<le> cur M' u"
    unfolding accessed_def by blast
  have "wcovered (log M' y) (cur M' u)"
    if u: "u < nthreads M" "0 < own (S' u)" and y: "y = ref_count b \<or> y = arc_data b" for u y
  proof -
    have own: "0 < own (S u)" using u S' t(2) by (cases "u = t") auto
    then have "wcovered (log M y) (cur M u)" using al u y unfolding alive_def by blast
    then have 1: "wcovered (log M y) (cur M' u)" using cur by (rule wcovered_mono)
    have "u = t" if "k = NaWrite" using sole_owner(2) [OF w [OF that] t u(1) own] .
    with 1 m show ?thesis by auto
  qed
  moreover have "mode_ok b S' M' u" if "u < nthreads M" for u
    using that assms(12) other_mode_ok [OF al t, of u S'] S' by (cases "u = t") auto
  ultimately show ?thesis
    using al assms(5,7,8,10,11,13) unfolding alive_def eq by auto
qed

lemma counted_accessed:
  assumes c: "counted b S M n" and ac: "accessed t x k M M'" and t: "t < nthreads M" "0 < own (S t)"
    and "hist M' = hist M" and own: "\<And>u. own (S' u) = own (S u)"
  shows "counted b S' M' n"
proof -
  have eq: "nthreads M' = nthreads M" and cur: "\<And>u. cur M u \<le> cur M' u"
    using ac by (auto simp: accessed_def)
  have "owns S' (nthreads M) = owns S (nthreads M)" by (simp add: owns_def own)
  moreover have "known S' M' V (log M' y)" if "known S M V (log M y)" for V y
    using own t by (intro known_accessed [OF ac t(1) that]) auto
  moreover have "k < cur M' u (Ts l)" if "k < cur M u (Ts l)" for u k l
    using that cur [of u] by (meson order_less_le_trans view_le_apply)
  ultimately show ?thesis
    using c unfolding counted_def assms(5) eq own by metis
qed

lemma counted_rmw:
  assumes c: "counted b S M n" and ac: "accessed t x k M M'" and t: "t < nthreads M"
    and m: "hist M (ref_count b) n = Some m"
    and M': "hist M' (ref_count b) = (hist M (ref_count b))(Suc n \<mapsto> m')"
      "mval m' = VUsize (of_nat (owns S' (nthreads M)))" "mview m \<le> mview m'" "Suc n \<le> cur M' t (Ts (ref_count b))"
    and own: "\<And>u. u \<noteq> t \<Longrightarrow> own (S' u) = own (S u)" "0 < own (S' t) \<or> cur M' t \<le> mview m'"
    and one: "\<And>u. mval m = VUsize 1 \<Longrightarrow> u < nthreads M \<Longrightarrow> 0 < own (S' u) \<Longrightarrow> u = t"
    and gain: "\<And>u. 0 < own (S' u) \<Longrightarrow> 0 < own (S u)"
  shows "counted b S' M' (Suc n)"
proof -
  have eq: "nthreads M' = nthreads M" and cur: "\<And>u. cur M u \<le> cur M' u"
    using ac by (auto simp: accessed_def)
  have ch: "chain (hist M (ref_count b)) n" using c by (simp add: counted_def)
  have "0 < own (S' u) \<or> u = t \<and> cur M' t \<le> mview m'" if "0 < own (S u)" for u
    using that own by (cases "u = t") auto
  then have "known S' M' (mview m') (log M' y)" if "known S M (mview m) (log M y)" for y
    using own(2) by (intro known_accessed [OF ac t that M'(3)])
  moreover have "known S M (mview m) (log M (ref_count b))" "known S M (mview m) (log M (arc_data b))"
    using c m by (auto simp: counted_def)
  moreover have "j < cur M' u (Ts (ref_count b))"
    if j: "hist M' (ref_count b) j = Some mj" "mval mj = VUsize 1" "j < Suc n"
      and u: "u < nthreads M" "0 < own (S' u)" for j mj u
  proof (cases "j = n")
    case True
    with j m M'(1) have "mj = m" by simp
    with one [OF _ u] j True M'(4) show ?thesis by simp
  next
    case False
    with j M'(1) have "hist M (ref_count b) j = Some mj" "j < n" by auto
    with c j(2) u gain have "j < cur M u (Ts (ref_count b))" unfolding counted_def by blast
    then show ?thesis using cur [of u] by (meson order_less_le_trans view_le_apply)
  qed
  ultimately show ?thesis
    using c chain_upd [OF ch, of m'] M'(1,2) unfolding counted_def eq by (auto split: if_splits)
qed

section \<open>The steps of the automaton\<close>

lemma alive_no_race:
  assumes "alive b G S M" and "t < nthreads M" "0 < own (S t)"
  shows "k \<in> {AtRead, AtWrite} \<Longrightarrow> \<not> races k (cur M t) (log M (ref_count b))"
    "\<not> races NaRead (cur M t) (log M (arc_data b))" "\<not> freed M b"
  using assms no_race_atomic_w no_race_read_w
  by (auto simp: alive_def kinds_ok_def)

lemma aliveD:
  assumes "alive b G S M"
  shows "kinds_ok b M" "drops M = []" "cell M (arc_data b) \<in> G" "0 < owns S (nthreads M)"
    "owns S (nthreads M) \<le> 2 ^ 63 + aborting S (nthreads M)" "bsize M b = 2" "\<exists>n. counted b S M n"
    "t < nthreads M \<Longrightarrow> mode_ok b S M t"
  using assms by (auto simp: alive_def)

lemma alive_small:
  assumes "alive b G S M" and "nthreads M < 2 ^ 63"
  shows "owns S (nthreads M) < 2 ^ 64"
    "(of_nat (owns S (nthreads M)) :: 64 word) = 1 \<longleftrightarrow> owns S (nthreads M) = 1"
proof -
  have "owns S (nthreads M) \<le> 2 ^ 63 + aborting S (nthreads M)" using assms(1) by (simp add: alive_def)
  with aborting_le [of S "nthreads M"] assms(2) show lt: "owns S (nthreads M) < 2 ^ 64" by simp
  show "(of_nat (owns S (nthreads M)) :: 64 word) = 1 \<longleftrightarrow> owns S (nthreads M) = 1"
    using lt by (simp add: word_unat_eq_iff unat_of_nat)
qed

lemma kinds_ok_accessed:
  assumes "kinds_ok b M" and "accessed t x k M M'"
    and "x = ref_count b \<and> k \<noteq> NaRead \<or> x = arc_data b \<and> (k = NaRead \<or> k = NaWrite)"
  shows "kinds_ok b M'"
  using assms by (cases k) (auto simp: kinds_ok_def accessed_def)

lemma arc_load:
  assumes al: "alive b G S M" and n63: "nthreads M < 2 ^ 63" and "\<not> ub M" and t: "t < nthreads M" "0 < own (S t)"
    and mode: "mode (S t) \<in> {Norm, Excl}"
    and ex: "load_step t (ref_count b) o1 ts M M' m"
    and s': "s' = S t \<or> mval m = VUsize 1 \<and> s' = (S t)\<lparr>mode := Saw1\<rparr>"
  shows "\<not> ub M' \<and> alive b G (S(t := s')) M'"
proof
  from ex have ac: "accessed t (ref_count b) AtRead M M'"
    and m: "hist M (ref_count b) ts = Some m" "cur M t (Ts (ref_count b)) \<le> ts" "mview m \<le> pend M' t"
    and M': "hist M' = hist M" "cell M' = cell M" "drops M' = drops M"
      "ub M' = (ub M \<or> freed M b \<or> races AtRead (cur M t) (log M (ref_count b)))"
    unfolding load_step_def by auto
  show "\<not> ub M'" using M'(4) assms(3) alive_no_race [OF al t] by simp
  from al obtain n where c: "counted b S M n" by (auto simp: alive_def)
  have eq: "nthreads M' = nthreads M" and cur: "cur M t \<le> cur M' t" and log: "log M' (arc_data b) = log M (arc_data b)"
    using ac by (auto simp: accessed_def)
  have own: "own ((S(t := s')) u) = own (S u)" for u using s' by auto
  have owns: "owns (S(t := s')) (nthreads M) = owns S (nthreads M)"
    using owns_upd [OF t(1), of S s'] s' by auto
  have "mode_ok b S M t" using al t by (simp add: alive_def)
  then have "mode_ok b (S(t := s')) M' t"
  proof (cases "s' = S t")
    case True
    with \<open>mode_ok b S M t\<close> mode cur show ?thesis
      by (auto simp: mode_ok_def log eq intro: covered_mono)
  next
    case False
    with s' have v: "mval m = VUsize 1" and s': "s' = (S t)\<lparr>mode := Saw1\<rparr>" by auto
    have "ts = n"
      using c m(1,2) v t chain_le [of "hist M (ref_count b)" n ts] unfolding counted_def
      by (metis le_neq_implies_less not_le)
    then have one: "owns S (nthreads M) = 1" and known: "known S M (mview m) (log M (arc_data b))"
      using c m(1) v alive_small [OF al n63] by (auto simp: counted_def)
    have "covered (log M (arc_data b)) (sup (cur M' t) (pend M' t))"
    proof (rule known_covered [OF known])
      show "mview m \<le> sup (cur M' t) (pend M' t)" using m(3) by (rule le_supI2)
      fix u assume "u < nthreads M" "0 < own (S u)"
      then have "u = t" using sole_owner(2) [OF one t] by simp
      then show "cur M u \<le> sup (cur M' t) (pend M' t)" using cur by (simp add: le_supI1)
    qed
    with s' one sole_owner(1) [OF one t] owns show ?thesis by (simp add: mode_ok_def log eq)
  qed
  moreover have "aborting (S(t := s')) (nthreads M) = aborting S (nthreads M)"
    using aborting_upd [OF t(1), of S s'] s' mode by auto
  moreover have "kinds_ok b M'" by (rule kinds_ok_accessed [OF aliveD(1) [OF al] ac]) simp
  moreover have "counted b (S(t := s')) M' n" using own by (rule counted_accessed [OF c ac t M'(1)])
  ultimately show "alive b G (S(t := s')) M'"
    using aliveD [OF al] M'(2,3) owns
    by (intro alive_accessed [OF al t ac, where n = n]) simp_all
qed

lemma arc_clone:
  assumes al: "alive b G S M" and n63: "nthreads M < 2 ^ 63" and "\<not> ub M" and t: "t < nthreads M" "0 < own (S t)"
    and mode: "mode (S t) \<in> {Norm, Excl}"
    and ex: "rmw_step t (ref_count b) os ts M M' m m'" and v': "mval m' = vadd (mval m) (VUsize 1)"
    and s': "s' = \<lparr>own = Suc (own (S t)), mode = (if MAX_HALF < as_usize (mval m) then Abrt else Norm)\<rparr>"
  shows "\<not> ub M' \<and> alive b G (S(t := s')) M'"
proof
  from ex have ac: "accessed t (ref_count b) AtWrite M M'"
    and m: "hist M (ref_count b) ts = Some m" "hist M (ref_count b) (Suc ts) = None"
    and M': "hist M' (ref_count b) = (hist M (ref_count b))(Suc ts \<mapsto> m')"
      "mview m \<le> mview m'" "Suc ts \<le> cur M' t (Ts (ref_count b))" "cell M' = cell M" "drops M' = drops M"
      "ub M' = (ub M \<or> freed M b \<or> races AtWrite (cur M t) (log M (ref_count b)))"
    unfolding rmw_step_def by auto
  show "\<not> ub M'" using M'(6) assms(3) alive_no_race [OF al t] by simp
  let ?S = "S(t := s')" and ?N = "nthreads M"
  from aliveD(7) [OF al] obtain n where c: "counted b S M n" ..
  then have "ts = n" and val: "mval m = VUsize (of_nat (owns S ?N))"
    using chain_last [OF _ m] m(1) by (auto simp: counted_def)
  have owns: "owns ?S ?N = Suc (owns S ?N)" using owns_upd [OF t(1), of S s'] s' by simp
  have one: "u = t" if "mval m = VUsize 1" "u < ?N" "0 < own (?S u)" for u
    using that sole_owner(2) [of S ?N t u] t alive_small [OF al n63] val by (auto split: if_splits)
  have "counted b ?S M' (Suc n)"
  proof (rule counted_rmw [OF c ac t(1)])
    show "hist M (ref_count b) n = Some m" "hist M' (ref_count b) = (hist M (ref_count b))(Suc n \<mapsto> m')"
      "Suc n \<le> cur M' t (Ts (ref_count b))"
      using m(1) M'(1,3) \<open>ts = n\<close> by simp_all
    show "mval m' = VUsize (of_nat (owns ?S ?N))" using v' val owns by simp
    show "\<And>u. mval m = VUsize 1 \<Longrightarrow> u < ?N \<Longrightarrow> 0 < own (?S u) \<Longrightarrow> u = t" by (rule one)
  qed (use M'(2) s' t(2) in \<open>simp_all split: if_splits\<close>)
  moreover have "owns ?S ?N \<le> 2 ^ 63 + aborting ?S ?N"
  proof (cases "MAX_HALF < as_usize (mval m)")
    case True
    then show ?thesis using aborting_upd [OF t(1), of S s'] s' mode aliveD(5) [OF al] owns by auto
  next
    case False
    have "unat MAX_HALF = 2 ^ 63 - 1" by (simp add: MAX_HALF_def)
    with False val have "owns S ?N \<le> 2 ^ 63 - 1"
      using alive_small(1) [OF al n63] by (simp add: word_less_nat_alt unat_of_nat)
    then show ?thesis using owns by simp
  qed
  moreover have "kinds_ok b M'" by (rule kinds_ok_accessed [OF aliveD(1) [OF al] ac]) simp
  ultimately show "alive b G ?S M'"
    using aliveD [OF al] M'(4,5) owns s'
    by (intro alive_accessed [OF al t ac, where n = "Suc n"]) (simp_all add: mode_ok_def)
qed

lemma arc_release:
  assumes al: "alive b G S M" and n63: "nthreads M < 2 ^ 63" and "\<not> ub M" and t: "t < nthreads M" "0 < own (S t)"
    and mode: "mode (S t) \<in> {Norm, Excl}" and "releases os"
    and ex: "rmw_step t (ref_count b) os ts M M' m m'" and v': "mval m' = vsub (mval m) (VUsize 1)"
    and s': "s' = \<lparr>own = own (S t) - 1, mode = (if mval m = VUsize 1 then Last else Norm)\<rparr>"
  shows "\<not> ub M' \<and> (alive b G (S(t := s')) M' \<or> dying b G (S(t := s')) M')"
proof
  from ex \<open>releases os\<close> have ac: "accessed t (ref_count b) AtWrite M M'"
    and m: "hist M (ref_count b) ts = Some m" "hist M (ref_count b) (Suc ts) = None"
    and M': "hist M' (ref_count b) = (hist M (ref_count b))(Suc ts \<mapsto> m')"
      "mview m \<le> mview m'" "Suc ts \<le> cur M' t (Ts (ref_count b))" "cell M' = cell M" "drops M' = drops M"
      "ub M' = (ub M \<or> freed M b \<or> races AtWrite (cur M t) (log M (ref_count b)))"
      "cur M' t \<le> mview m'" "mview m \<le> pend M' t"
    unfolding rmw_step_def by auto
  show "\<not> ub M'" using M'(6) assms(3) alive_no_race [OF al t] by simp
  let ?S = "S(t := s')" and ?N = "nthreads M"
  from aliveD(7) [OF al] obtain n where c: "counted b S M n" ..
  then have "ts = n" and val: "mval m = VUsize (of_nat (owns S ?N))"
    and known: "known S M (mview m) (log M (ref_count b))" "known S M (mview m) (log M (arc_data b))"
    using chain_last [OF _ m] m(1) by (auto simp: counted_def)
  have one: "mval m = VUsize 1 \<longleftrightarrow> owns S ?N = 1" using val alive_small [OF al n63] by simp
  have owns: "Suc (owns ?S ?N) = owns S ?N" using owns_upd [OF t(1), of S s'] s' t(2) by simp
  have kinds: "kinds_ok b M'" by (rule kinds_ok_accessed [OF aliveD(1) [OF al] ac]) simp
  show "alive b G ?S M' \<or> dying b G ?S M'"
  proof (cases "owns S ?N = 1")
    case False
    have "counted b ?S M' (Suc n)"
    proof (rule counted_rmw [OF c ac t(1)])
      show "hist M (ref_count b) n = Some m" "hist M' (ref_count b) = (hist M (ref_count b))(Suc n \<mapsto> m')"
        "Suc n \<le> cur M' t (Ts (ref_count b))"
        using m(1) M'(1,3) \<open>ts = n\<close> by simp_all
      show "mval m' = VUsize (of_nat (owns ?S ?N))" using v' val owns [symmetric] by simp
    qed (use M'(2,7) s' t(2) False one in \<open>simp_all split: if_splits\<close>)
    moreover have "aborting ?S ?N = aborting S ?N"
      using aborting_upd [OF t(1), of S s'] s' mode by (auto split: if_splits)
    moreover have "owns ?S ?N \<le> owns S ?N" "0 < owns ?S ?N"
      using owns False aliveD(4) [OF al] by simp_all
    ultimately have "alive b G ?S M'"
      using aliveD [OF al] M'(4,5) s' False one kinds
      by (intro alive_accessed [OF al t ac, where n = "Suc n"]) (simp_all add: mode_ok_def)
    then show ?thesis ..
  next
    case True
    have le: "mview m \<le> sup (cur M' t) (pend M' t)" using M'(8) by (rule le_supI2)
    have "cur M u \<le> sup (cur M' t) (pend M' t)" if "u < ?N" "0 < own (S u)" for u
    proof -
      have "u = t" using sole_owner(2) [OF True t that] .
      then show ?thesis using accessedD(6) [OF ac, of u] by (auto intro: le_supI1)
    qed
    then have "covered (log M (ref_count b)) (sup (cur M' t) (pend M' t))"
      "covered (log M (arc_data b)) (sup (cur M' t) (pend M' t))"
      using known_covered [OF known(1) le] known_covered [OF known(2) le] by blast+
    moreover obtain k where "k \<le> cur M' t (Clk t)"
      "log M' = (log M)(ref_count b := (t, k, AtWrite) # log M (ref_count b))"
      using ac unfolding accessed_def by blast
    ultimately have cov: "covered_block b M' (sup (cur M' t) (pend M' t))"
      by (simp add: covered_block_def le_max_iff_disj)
    have "owns ?S ?N = 0" using owns True by simp
    moreover have "mode (S u) = Norm" if "u < ?N" "u \<noteq> t" for u
    proof -
      have "own (S u) = 0" using sole_owner(2) [OF True t that(1)] that(2) by auto
      then show ?thesis using other_modes [OF al t that] aliveD(8) [OF al that(1)] by (auto simp: mode_ok_def)
    qed
    ultimately have "dying b G ?S M'"
      using cov aliveD [OF al] M'(4,5) True one s' t(1) alive_no_race(3) [OF al t] accessedD(1-3) [OF ac]
      unfolding dying_def ender_def owns_0 by (auto intro!: exI [of _ t])
    then show ?thesis ..
  qed
qed

lemma arc_cell:
  assumes al: "alive b G S M" and t: "t < nthreads M" "0 < own (S t)"
    and cs: "cell_step t (arc_data b) k M M'" and k: "k = NaRead \<or> k = NaWrite \<and> mode (S t) = Excl"
    and "mode (S t) \<in> {Norm, Excl}" and "cell M' (arc_data b) \<in> G" "drops M' = drops M"
  shows "alive b G S M'" "\<not> races k (cur M t) (log M (arc_data b))"
proof -
  from cs have ac: "accessed t (arc_data b) k M M'" and hist: "hist M' = hist M"
    by (auto simp: cell_step_def)
  from aliveD(7) [OF al] obtain n where c: "counted b S M n" ..
  have ok: "mode_ok b S M t" using aliveD(8) [OF al t(1)] .
  obtain j where j: "j \<le> cur M' t (Clk t)" "log M' = (log M)(arc_data b := (t, j, k) # log M (arc_data b))"
    using ac unfolding accessed_def by blast
  have "covered (log M (arc_data b)) (cur M t) \<Longrightarrow> covered (log M (arc_data b)) (cur M' t)"
    by (rule covered_mono [OF _ accessedD(6) [OF ac]])
  with ok assms(6) j accessedD(1) [OF ac] have "mode_ok b S M' t"
    by (auto simp: mode_ok_def)
  moreover have "kinds_ok b M'" by (rule kinds_ok_accessed [OF aliveD(1) [OF al] ac]) (use k in auto)
  moreover have "counted b S M' n" by (rule counted_accessed [OF c ac t hist]) simp
  ultimately show "alive b G S M'"
    using aliveD [OF al] k ok assms(7,8)
    by (intro alive_accessed [OF al t ac, where n = n]) (auto simp: mode_ok_def)
  show "\<not> races k (cur M t) (log M (arc_data b))"
    using k ok alive_no_race [OF al t] by (auto simp: mode_ok_def)
qed

text \<open>Which phase it is can be seen from the state of a single thread.\<close>

lemma ender_mode: "ender b G S M u \<Longrightarrow> t < nthreads M \<Longrightarrow> mode (S t) = Norm \<or>
    t = u \<and> mode (S t) \<in> {Last, Fenced, Dropped}"
  by (cases "mode (S u)") (auto simp: ender_def)

lemma phase_alive:
  assumes "arc_phase b G S M" and "t < nthreads M" and "0 < own (S t) \<or> mode (S t) \<in> {Saw1, Excl, Abrt}"
  shows "alive b G S M"
  using assms by (auto simp: arc_phase_def unborn_def dying_def dead_def dest: ender_mode)

lemma phase_dying:
  assumes "arc_phase b G S M" and "t < nthreads M" and "mode (S t) \<in> {Last, Fenced, Dropped}"
  shows "ender b G S M t" "\<forall>u < nthreads M. own (S u) = 0" "bsize M b = 2" "\<not> freed M b"
proof -
  have "dying b G S M"
    using assms aliveD(8) [of b G S M t] by (auto simp: arc_phase_def unborn_def dead_def mode_ok_def)
  then obtain u where u: "ender b G S M u" and *: "\<forall>u < nthreads M. own (S u) = 0" "bsize M b = 2" "\<not> freed M b"
    by (auto simp: dying_def)
  with assms(3) ender_mode [OF u assms(2)] show "ender b G S M t" by auto
  from * show "\<forall>u < nthreads M. own (S u) = 0" "bsize M b = 2" "\<not> freed M b" by auto
qed

lemma arc_fence:
  assumes ph: "arc_phase b G S M" and t: "t < nthreads M" and "acquires o1"
    and s': "s' = (S t)\<lparr>mode := (case mode (S t) of Last \<Rightarrow> Fenced | Saw1 \<Rightarrow> Excl | m \<Rightarrow> m)\<rparr>"
  shows "arc_phase b G (S(t := s')) (m_fence t o1 M)"
proof -
  let ?M = "m_fence t o1 M"
  have g: "grows M ?M" and cur: "cur ?M t = sup (cur M t) (pend M t)" and n: "nthreads ?M = nthreads M"
    and log: "log ?M = log M"
    using \<open>acquires o1\<close> by (auto simp: grows_def m_fence_def)
  have ph': "arc_phase b G S ?M" using ph g by (rule arc_phase_grows)
  consider (same) "s' = S t" | (saw) "mode (S t) = Saw1" "s' = (S t)\<lparr>mode := Excl\<rparr>"
    | (last) "mode (S t) = Last" "s' = (S t)\<lparr>mode := Fenced\<rparr>"
    using s' by (cases "mode (S t)") auto
  then show ?thesis
  proof cases
    case same
    with ph' show ?thesis by (simp add: fun_upd_idem)
  next
    case saw
    have al: "alive b G S M" using phase_alive [OF ph t] saw by simp
    then have ok: "own (S t) = 1" "owns S (nthreads M) = 1" "covered (log M (arc_data b)) (cur ?M t)"
      using aliveD(8) [OF al t] saw cur by (auto simp: mode_ok_def)
    have al': "alive b G S ?M" using al g by (rule alive_grows)
    have own: "own ((S(t := s')) u) = own (S u)" for u using saw by simp
    have owns: "owns (S(t := s')) k = owns S k" for k unfolding owns_def own ..
    have ab: "aborting (S(t := s')) (nthreads M) = aborting S (nthreads M)"
      using aborting_upd [OF t, of S s'] saw by simp
    have "mode_ok b (S(t := s')) ?M u" if "u < nthreads M" for u
      using other_mode_ok [OF al', of t u "S(t := s')" ?M] t ok saw that owns n log
      by (cases "u = t") (simp_all add: mode_ok_def)
    then have "alive b G (S(t := s')) ?M"
      using al' unfolding alive_def counted_def known_def own owns n ab by blast
    then show ?thesis by (simp add: arc_phase_def)
  next
    case last
    note d = phase_dying [OF ph t, unfolded last, simplified]
    from d last cur log n have "ender b G (S(t := s')) ?M t"
      by (auto simp: ender_def covered_block_def m_fence_def)
    with d last have "dying b G (S(t := s')) ?M"
      by (auto simp: dying_def m_fence_def)
    then show ?thesis by (simp add: arc_phase_def)
  qed
qed

lemma arc_drop:
  assumes ph: "arc_phase b G S M" and t: "t < nthreads M" "mode (S t) = Fenced" and "\<not> ub M" "Uninit \<notin> G"
  shows "\<not> ub (m_drop t (arc_data b) M) \<and> arc_phase b G (S(t := (S t)\<lparr>mode := Dropped\<rparr>)) (m_drop t (arc_data b) M)"
proof
  let ?M = "m_drop t (arc_data b) M" and ?S = "S(t := (S t)\<lparr>mode := Dropped\<rparr>)"
  note d = phase_dying [OF ph t(1), unfolded t(2), simplified]
  from d(1) t have cov: "covered_block b M (cur M t)" and G: "cell M (arc_data b) \<in> G" "drops M = []"
    by (auto simp: ender_def)
  then show "\<not> ub ?M"
    using \<open>\<not> ub M\<close> \<open>Uninit \<notin> G\<close> d(4) by (auto simp: m_cell_step covered_block_def)
  have ac: "accessed t (arc_data b) NaWrite M ?M" using m_cell_step(3) by (auto simp: cell_step_def)
  have mono: "covered es (cur M t) \<Longrightarrow> covered es (cur ?M t)" for es
    by (rule covered_mono [OF _ accessedD(6) [OF ac]])
  have "covered_block b ?M (cur ?M t)"
    using cov ac mono unfolding covered_block_def accessed_def by auto
  with d(1) t G accessedD(1) [OF ac] have "ender b G ?S ?M t"
    by (auto simp: ender_def m_cell_step)
  with d accessedD(1-3) [OF ac] have "dying b G ?S ?M"
    by (auto simp: dying_def)
  then show "arc_phase b G ?S ?M" by (simp add: arc_phase_def)
qed

lemma arc_free:
  assumes ph: "arc_phase b G S M" and t: "t < nthreads M" "mode (S t) = Dropped" and "\<not> ub M"
  shows "\<not> ub (m_free t b M) \<and> arc_phase b G (S(t := (S t)\<lparr>mode := Norm\<rparr>)) (m_free t b M)"
proof
  note d = phase_dying [OF ph t(1), unfolded t(2), simplified]
  from d(1) t have cov: "covered_block b M (cur M t)" and G: "\<exists>v \<in> G. drops M = [v]"
    by (auto simp: ender_def)
  have "\<not> races NaWrite (cur M t) (log M (Loc b j))" if "j < 2" for j
    using that cov no_race_covered by (auto simp: covered_block_def ref_count_def arc_data_def less_2_cases_iff)
  then show "\<not> ub (m_free t b M)"
    using \<open>\<not> ub M\<close> d(3,4) by (auto simp: m_free_def list_ex_iff)
  have "dead b G (S(t := (S t)\<lparr>mode := Norm\<rparr>)) (m_free t b M)"
    using d(1,2) t G by (auto simp: dead_def m_free_def ender_def)
  then show "arc_phase b G (S(t := (S t)\<lparr>mode := Norm\<rparr>)) (m_free t b M)" by (simp add: arc_phase_def)
qed

lemma arc_alloc:
  assumes ph: "arc_phase b G S M" and t: "t < nthreads M" "mode (S t) = Fresh" and "v \<in> G"
  shows "arc_phase b G (S(t := \<lparr>own = 1, mode = Norm\<rparr>)) (m_alloc t [VUsize 1, v] M)"
proof -
  let ?M = "m_alloc 0 [VUsize 1, v] M" and ?S = "S(0 := \<lparr>own = 1, mode = Norm\<rparr>)"
  have ub: "unborn b S M"
    using ph t aliveD(8) [of b G S M t] by (auto simp: arc_phase_def dying_def dead_def mode_ok_def dest: ender_mode)
  then have t0: "t = 0" and b: "nblocks M = b"
    and [simp]: "nthreads ?M = 1" "\<not> freed ?M b" "drops ?M = []"
    and h0: "\<And>k. k \<noteq> 0 \<Longrightarrow> hist M (ref_count b) k = None"
    using t by (auto simp: unborn_def m_alloc_def Let_def)
  have [simp]: "owns (S(0 := \<lparr>own = Suc 0, mode = Norm\<rparr>)) (Suc 0) = 1"
    "aborting (S(0 := \<lparr>own = Suc 0, mode = Norm\<rparr>)) (Suc 0) = 0"
    by (simp_all add: owns_def aborting_def)
  have hist: "hist ?M (ref_count b) = [0 \<mapsto> \<lparr>mval = VUsize 1, mview = bot\<rparr>]"
    using h0 by (auto simp: m_alloc_def Let_def ref_count_def b fun_eq_iff)
  have log: "log ?M (ref_count b) = [(0, Suc (cur M 0 (Clk 0)), NaWrite)]" "log ?M (arc_data b) = [(0, Suc (cur M 0 (Clk 0)), NaWrite)]"
    and cur: "cur ?M 0 (Clk 0) = Suc (cur M 0 (Clk 0))"
    by (auto simp: m_alloc_def Let_def ref_count_def arc_data_def b)
  have "counted b ?S ?M 0"
    using log cur by (auto simp: counted_def hist chain_0 known_def split: if_splits)
  moreover have "cell ?M (arc_data b) = v" "bsize ?M b = 2"
    by (auto simp: m_alloc_def Let_def arc_data_def b)
  ultimately have "alive b G ?S ?M"
    using log cur \<open>v \<in> G\<close> by (auto simp: alive_def kinds_ok_def mode_ok_def)
  then show ?thesis unfolding t0 by (simp add: arc_phase_def)
qed

lemma alive_spawn:
  assumes al: "alive b G S M" and t: "t < nthreads M" and md: "mode (S t) \<in> {Norm, Excl}"
    and g: "g \<le> own (S t)" and s': "s' = \<lparr>own = own (S t) - g, mode = (if g = 0 then mode (S t) else Norm)\<rparr>"
  shows "alive b G ((S(t := s'))(nthreads M := \<lparr>own = g, mode = Norm\<rparr>)) (m_spawn t M)"
proof -
  let ?M = "m_spawn t M" and ?N = "nthreads M" and ?S = "(S(t := s'))(nthreads M := \<lparr>own = g, mode = Norm\<rparr>)"
  have n: "nthreads ?M = Suc ?N" and cur: "cur ?M = (cur M)(?N := cur M t)" and eq: "hist ?M = hist M" "log ?M = log M" "cell ?M = cell M" "freed ?M = freed M" "bsize ?M = bsize M" "drops ?M = drops M"
    by (auto simp: m_spawn_def)
  have pend: "u < ?N \<Longrightarrow> pend ?M u = pend M u" for u by (simp add: m_spawn_def)
  have owns: "owns ?S (Suc ?N) = owns S ?N"
    using owns_spawn [of "S(t := s')" ?N] owns_upd [OF t, of S s'] s' g by simp
  have ab: "aborting ?S (Suc ?N) = aborting S ?N"
    using aborting_spawn [of "S(t := s')" ?N] aborting_upd [OF t, of S s'] s' md by (auto split: if_splits)
  have src: "\<exists>v < ?N. 0 < own (S v) \<and> cur ?M u = cur M v" if "u < Suc ?N" "0 < own (?S u)" for u
  proof (cases "u = ?N \<or> u = t")
    case True
    with that t g s' have "0 < own (S t)" "cur ?M u = cur M t" by (auto simp: cur split: if_splits)
    with t show ?thesis by blast
  next
    case False
    with that show ?thesis by (intro exI [of _ u]) (auto simp: cur)
  qed
  have dst: "\<exists>v < Suc ?N. 0 < own (?S v) \<and> cur M u \<le> cur ?M v" if "u < ?N" "0 < own (S u)" for u
  proof (cases "u = t \<and> own s' = 0")
    case True
    with that g s' have "0 < g" by simp
    with True show ?thesis by (intro exI [of _ ?N]) (auto simp: cur)
  next
    case False
    with that show ?thesis by (intro exI [of _ u]) (auto simp: cur)
  qed
  have known: "known ?S ?M V es" if "known S M V es" for V es
    by (rule known_mono [OF that]) (use dst n in auto)
  from aliveD(7) [OF al] obtain k where c: "counted b S M k" ..
  then have "counted b ?S ?M k"
    using known src unfolding counted_def eq n owns by metis
  moreover have "wcovered (log M x) (cur ?M u)"
    if "u < Suc ?N" "0 < own (?S u)" "x \<in> {ref_count b, arc_data b}" for u x
  proof -
    from src [OF that(1,2)] obtain v where "v < ?N" "0 < own (S v)" "cur ?M u = cur M v" by blast
    with al that(3) show ?thesis unfolding alive_def by auto
  qed
  moreover have "mode_ok b ?S ?M u" if "u < Suc ?N" for u
  proof (cases "u = ?N")
    case True
    then show ?thesis by (simp add: mode_ok_def)
  next
    case False
    with that have u: "u < ?N" by simp
    have ok: "mode_ok b S M u" using aliveD(8) [OF al u] .
    show ?thesis
    proof (cases "u = t")
      case True
      with ok s' u show ?thesis unfolding mode_ok_def n owns by (auto simp: eq cur pend split: amode.splits)
    next
      case False
      with ok u show ?thesis unfolding mode_ok_def n owns by (auto simp: eq cur pend split: amode.splits)
    qed
  qed
  ultimately show ?thesis
    using aliveD(1-6) [OF al] al unfolding alive_def kinds_ok_def eq n owns ab by auto
qed

lemma arc_spawn:
  assumes ph: "arc_phase b G S M" and t: "t < nthreads M" and md: "mode (S t) \<in> {Norm, Excl}"
    and g: "g \<le> own (S t)" and s': "s' = \<lparr>own = own (S t) - g, mode = (if g = 0 then mode (S t) else Norm)\<rparr>"
  shows "arc_phase b G ((S(t := s'))(nthreads M := \<lparr>own = g, mode = Norm\<rparr>)) (m_spawn t M)"
proof (cases "alive b G S M")
  case True
  from alive_spawn [OF True t md g s'] show ?thesis by (simp add: arc_phase_def)
next
  case False
  then have "own (S t) = 0" "mode (S t) = Norm"
    using phase_alive [OF ph t] md by (fastforce, auto)
  then have g0: "g = 0" "s' = S t" "own (S t) = 0" "mode (S t) = Norm" using g s' by auto
  let ?S = "(S(t := s'))(nthreads M := \<lparr>own = g, mode = Norm\<rparr>)"
  have "dead b G S M \<Longrightarrow> dead b G ?S (m_spawn t M)"
    using g0 by (auto simp: dead_def m_spawn_def less_Suc_eq)
  moreover have "ender b G S M u \<Longrightarrow> ender b G ?S (m_spawn t M) u" for u
    using g0 by (auto simp: ender_def m_spawn_def covered_block_def less_Suc_eq split: amode.splits)
  ultimately show ?thesis
    using ph False g0 t by (auto simp: arc_phase_def unborn_def dying_def m_spawn_def less_Suc_eq)
qed

section \<open>The protocol\<close>

lemma arc_pos:
  assumes inv: "arc_inv b G P S M" and t: "t < nthreads M" and ex: "mexec fx ch t i M = Some (r, M')"
  shows "apos b G (S t) i r"
proof -
  have ph: "arc_phase b G S M" using inv by (simp add: arc_inv_def)
  have al: "alive b G S M" if "0 < own (S t)" using phase_alive [OF ph t] that by simp
  have num: "\<exists>w. mval m = VUsize w" if "0 < own (S t)" "hist M (ref_count b) ts = Some m" for ts m
    using aliveD(7) [OF al [OF that(1)]] that(2) unfolding counted_def by blast
  show ?thesis
  proof (cases i)
    case (IAlloc vs)
    have "unborn b S M" if "mode (S t) = Fresh"
      using ph t that aliveD(8) [of b G S M t] by (auto simp: arc_phase_def dying_def dead_def mode_ok_def dest: ender_mode)
    with IAlloc ex show ?thesis by (auto simp: unborn_def)
  next
    case (ILoad o1 l)
    with ex show ?thesis using num by (auto simp: m_load_def split: option.splits if_splits)
  next
    case (IRmw os of1 w l f)
    with ex show ?thesis using num by (auto simp: m_rmw_def m_load_def Let_def split: option.splits if_splits)
  next
    case (IRead l)
    with ex show ?thesis using aliveD(3) [OF al] by auto
  qed simp_all
qed

lemma arc_step:
  assumes inv: "arc_inv b G P S M" and n63: "few_threads M" and t: "t < nthreads M"
    and ex: "mexec fx ch t i M = Some (r, M')" and tr: "atr b G P gives (S t) i r s'"
  shows "arc_inv b G P (upd_state (achild gives) S t i s' (nthreads M)) M'"
proof -
  have ph: "arc_phase b G S M" and nub: "\<not> ub M" and G: "Uninit \<notin> G" using inv by (auto simp: arc_inv_def)
  have al: "alive b G S M" if "0 < own (S t) \<or> mode (S t) \<in> {Saw1, Excl, Abrt}" using phase_alive [OF ph t that] .
  have n: "nthreads M < 2 ^ 63" using n63 by (simp add: few_threads_def)
  have idle: "\<not> ub M' \<and> arc_phase b G S M'" if "quiet i" "\<And>a. i \<noteq> ISpawn a"
    using arc_phase_grows [OF ph quiet_grows [OF that(1) ex that(2)]] mexec_quiet(5) [OF that(1) ex] nub by auto
  have "\<not> ub M' \<and> arc_phase b G (upd_state (achild gives) S t i s' (nthreads M)) M'"
  proof (cases i)
    case (IAlloc vs)
    with tr ex obtain v where "v \<in> G" "mode (S t) = Fresh" "s' = \<lparr>own = 1, mode = Norm\<rparr>" and M': "M' = m_alloc t [VUsize 1, v] M"
      by auto
    with arc_alloc [OF ph t, of v] nub show ?thesis
      by (auto simp: IAlloc upd_state_def m_alloc_def Let_def)
  next
    case (ILoad o1 l)
    with ex obtain ts v where "m_load ts t o1 l M = Some (v, M')" and r: "r = RVal v"
      by (auto split: option.splits)
    from m_load_step [OF this(1)] obtain m where m: "v = mval m" "load_step t l o1 ts M M' m" by blast
    with arc_load [OF al n nub t, of o1 ts M' m s'] tr r show ?thesis
      by (auto simp: ILoad upd_state_def arc_phase_def)
  next
    case (IRmw os of1 w l f)
    with ex tr obtain ts sp v where "m_rmw ts sp t os of1 l f M = Some (True, v, M')" and r: "r = RCas True v"
      by (auto split: option.splits prod.splits)
    from m_rmw_step [OF this(1)] obtain m m' where m: "v = mval m" "f v = Some (mval m')" "rmw_step t l os ts M M' m m'"
      by blast
    with tr r IRmw consider
        "f = (\<lambda>v. Some (vadd v (VUsize 1)))"
        "s' = \<lparr>own = Suc (own (S t)), mode = (if MAX_HALF < as_usize (mval m) then Abrt else Norm)\<rparr>"
      | "f = (\<lambda>v. Some (vsub v (VUsize 1)))" "releases os"
        "s' = \<lparr>own = own (S t) - 1, mode = (if mval m = VUsize 1 then Last else Norm)\<rparr>"
      by auto
    then show ?thesis
    proof cases
      case 1
      with arc_clone [OF al n nub t _ _ _ _ 1(2), of os ts M' m'] m tr IRmw show ?thesis
        by (auto simp: upd_state_def arc_phase_def)
    next
      case 2
      with arc_release [OF al n nub t _ _ 2(2) _ _ 2(3), of ts M' m'] m tr IRmw show ?thesis
        by (auto simp: upd_state_def arc_phase_def)
    qed
  next
    case (IFence o1)
    with ex tr arc_fence [OF ph t, of o1 s'] nub show ?thesis by (auto simp: upd_state_def m_fence_def)
  next
    case (IRead l)
    with ex tr have M': "M' = m_read t (arc_data b) M" and *: "0 < own (S t)" "mode (S t) \<in> {Norm, Excl}" "s' = S t"
      and l: "l = arc_data b" by auto
    note al' = al [OF disjI1, OF *(1)]
    have cs: "cell_step t (arc_data b) NaRead M M'" unfolding M' by (rule m_cell_step)
    from al' G have "\<not> freed M b" "cell M (arc_data b) \<in> G" "cell M (arc_data b) \<noteq> Uninit"
      by (auto simp: alive_def)
    with arc_cell [OF al' t *(1) cs _ *(2)] nub * show ?thesis
      by (auto simp: IRead M' m_cell_step upd_state_def arc_phase_def)
  next
    case (IWrite l v)
    with ex tr have M': "M' = m_write t (arc_data b) v M" and *: "mode (S t) = Excl" "v \<in> G" "s' = S t"
      and l: "l = arc_data b" by auto
    have cs: "cell_step t (arc_data b) NaWrite M M'" unfolding M' by (rule m_cell_step)
    have al': "alive b G S M" using al * by simp
    then have "0 < own (S t)" "\<not> freed M b" using al' t * by (auto simp: mode_ok_def alive_def)
    with arc_cell [OF al' t _ cs] nub * show ?thesis
      by (auto simp: IWrite M' m_cell_step upd_state_def arc_phase_def)
  next
    case (IDrop l)
    with ex tr arc_drop [OF ph t _ nub G] show ?thesis by (auto simp: upd_state_def)
  next
    case (IFree b')
    with ex tr arc_free [OF ph t _ nub] show ?thesis by (auto simp: upd_state_def)
  next
    case (ISpawn a)
    with ex tr arc_spawn [OF ph t, of "gives a" s'] nub show ?thesis
      by (auto simp: upd_state_def achild_def m_spawn_def)
  qed (use tr idle in \<open>auto simp: upd_state_def\<close>)
  moreover have "set (out M') \<subseteq> P"
    using inv mexec_out [OF ex] tr by (cases i) (auto simp: arc_inv_def)
  ultimately show ?thesis using G by (simp add: arc_inv_def)
qed

interpretation ar: bounded_protocol "apos b G" "atr b G P gives" "\<lambda>_. False" "achild gives" afin few_threads "arc_inv b G P"
  for b G P gives
proof unfold_locales
  show "few_threads M" if "mexec fx ch t i M = Some (r, M')" "few_threads M'" for fx ch t i and M M' :: "'a mem" and r
    using mexec_nthreads [OF that(1)] that(2) by (auto simp: few_threads_def split: instr.splits)
qed (auto intro: arc_pos arc_step)

lemma arc_inv_init:
  assumes "length vs = b" and "Uninit \<notin> G"
  shows "arc_inv b G P (\<lambda>_. \<lparr>own = 0, mode = Fresh\<rparr>) (init_mem vs)"
  using assms by (auto simp: arc_inv_def arc_phase_def unborn_def init_mem_def)

end
