(* ===== verification/Solo.thy ===== *)
theory Solo
  imports Machine
begin

text \<open>
  Programs that spawn no thread: symbolic execution of the main thread alone. \<open>solo F P M p\<close> says
  that \<open>p\<close>, started in memory \<open>M\<close>, has no undefined behaviour and terminates, either in a memory
  that satisfies \<open>F\<close> or by a panic whose message and memory satisfy \<open>P\<close>, whatever the memory model lets it read.
\<close>

fun alone_instr :: "'a instr \<Rightarrow> bool" where
  "alone_instr (ISpawn a) = False"
| "alone_instr (IJoin u) = False"
| "alone_instr i = True"

inductive solo :: "('a mem \<Rightarrow> bool) \<Rightarrow> (string \<Rightarrow> 'a mem \<Rightarrow> bool) \<Rightarrow> 'a mem \<Rightarrow> ('a, 'r) prog \<Rightarrow> bool" for F P where
  solo_Ret: "\<not> ub M \<Longrightarrow> F M \<Longrightarrow> solo F P M (Ret x)"
| solo_Panic: "\<not> ub M \<Longrightarrow> P m M \<Longrightarrow> solo F P M (Panic m)"
| solo_Do: "\<not> ub M \<Longrightarrow> alone_instr i \<Longrightarrow> (\<And>fx ch r M'. mexec fx ch 0 i M = Some (r, M') \<Longrightarrow> solo F P M' (k r)) \<Longrightarrow>
    (\<forall>fx. \<exists>ch. mexec fx ch 0 i M \<noteq> None) \<Longrightarrow> solo F P M (Do i k)"

inductive_simps solo_simps: "solo F P M (Ret x)" "solo F P M (Panic m)" "solo F P M Abort" "solo F P M (Do i k)"

lemma reach_trans: "reach fx code c0 c \<Longrightarrow> reach fx code c c' \<Longrightarrow> reach fx code c0 c'"
  by (rotate_tac) (induction rule: reach.induct, auto intro: reach.intros)

lemma solo_reach:
  assumes "solo F P (init_mem vs) main" and "reach fx code (init_config vs main) c"
  shows "(\<exists>p. progs c 0 = Some p \<and> solo F P (mem c) p) \<and> (\<forall>t. t \<noteq> 0 \<longrightarrow> progs c t = None) \<and> \<not> halted c"
  using assms(2)
proof (induction rule: reach.induct)
  case reach_init
  with assms(1) show ?case by (auto simp: init_config_def)
next
  case (reach_step c ch t c')
  then obtain p where p: "progs c 0 = Some p" "solo F P (mem c) p" "\<And>t. t \<noteq> 0 \<Longrightarrow> progs c t = None"
    and nh: "\<not> halted c" by blast
  from reach_step(2) show ?case
  proof (cases rule: exec_cases)
    case (Do i k r M')
    with p(3) [of t] have t: "t = 0" by (cases "t = 0") auto
    from Do p(1,2) t have "solo F P M' (k r)" "alone_instr i" by (auto simp: solo_simps)
    with Do(5) t p(3) nh show ?thesis by (cases i) (auto simp: spawned_def)
  next
    case Abort
    with p(3) [of t] have "t = 0" by (cases "t = 0") auto
    with Abort p show ?thesis by (simp add: solo_simps)
  qed
qed

text \<open>Hence every execution is safe, and the result is the one of the symbolic execution.\<close>

lemma solo_safe:
  assumes "solo F P (init_mem vs) main" and "reach fx code (init_config vs main) c"
  shows "\<not> ub (mem c)" "progs c t = Some (Panic msg) \<Longrightarrow> P msg (mem c)" "finished c 0 \<Longrightarrow> F (mem c)"
proof -
  from solo_reach [OF assms] obtain p where p: "progs c 0 = Some p" "solo F P (mem c) p" "\<forall>t. t \<noteq> 0 \<longrightarrow> progs c t = None"
    by blast
  from p(2) show "\<not> ub (mem c)" by cases auto
  show "P msg (mem c)" if "progs c t = Some (Panic msg)" using p that by (cases "t = 0") (auto simp: solo_simps)
  show "F (mem c)" if "finished c 0" using p that by (auto simp: finished_def solo_simps split: prog.splits)
qed

text \<open>Every execution can be continued until the program has ended, and it does end.\<close>

lemma solo_progress:
  assumes "solo F P (init_mem vs) main" and "reach fx code (init_config vs main) c"
  shows "finished c 0 \<or> (\<exists>m. progs c 0 = Some (Panic m)) \<or> (\<exists>ch c'. exec fx code ch 0 c = Some c')"
proof -
  from solo_reach [OF assms] obtain p where p: "progs c 0 = Some p" "solo F P (mem c) p" and nh: "\<not> halted c" by blast
  from p(2) show ?thesis
  proof cases
    case (solo_Ret x)
    with p(1) show ?thesis by (simp add: finished_def)
  next
    case (solo_Panic m)
    with p(1) show ?thesis by simp
  next
    case (solo_Do i k)
    from solo_Do(5) obtain ch r M' where "mexec fx ch 0 i (mem c) = Some (r, M')" by fastforce
    moreover have "enabled_instr c i" using solo_Do(3) by (cases i) (auto simp: enabled_instr_def)
    ultimately show ?thesis using p(1) nh solo_Do by (auto simp: exec_def)
  qed
qed

lemma solo_completes:
  assumes "solo F P M p" and "progs c 0 = Some p" "mem c = M" "\<not> halted c"
  shows "\<exists>c'. reach fx code c c' \<and> (finished c' 0 \<or> (\<exists>m. progs c' 0 = Some (Panic m)))"
  using assms
proof (induction arbitrary: c)
  case (solo_Ret M x)
  then show ?case by (intro exI [of _ c]) (auto simp: finished_def intro: reach.intros)
next
  case (solo_Panic M m)
  then show ?case by (intro exI [of _ c]) (auto intro: reach.intros)
next
  case (solo_Do M i k)
  from solo_Do.hyps(4) obtain ch r M' where ex: "mexec fx ch 0 i M = Some (r, M')" by fastforce
  let ?c = "c\<lparr>progs := spawned code i (nthreads (mem c)) ((progs c)(0 \<mapsto> k r)), mem := M'\<rparr>"
  have en: "enabled_instr c i" using solo_Do(2) by (cases i) (auto simp: enabled_instr_def)
  have step: "exec fx code ch 0 c = Some ?c"
    using solo_Do ex en by (simp add: exec_def)
  have "progs ?c 0 = Some (k r)" using solo_Do(2) by (cases i) (auto simp: spawned_def)
  from solo_Do.IH [OF ex this] solo_Do.prems obtain c'
    where "reach fx code ?c c'" "finished c' 0 \<or> (\<exists>m. progs c' 0 = Some (Panic m))" by auto
  with reach_trans [OF reach.reach_step [OF reach.reach_init step]] show ?case by blast
qed

lemma solo_runs:
  assumes "solo F (\<lambda>_ _. False) (init_mem vs) main"
  shows "\<exists>c. reach fx code (init_config vs main) c \<and> finished c 0 \<and> F (mem c)"
proof -
  obtain c where c: "reach fx code (init_config vs main) c" "finished c 0 \<or> (\<exists>m. progs c 0 = Some (Panic m))"
    using solo_completes [OF assms, of "init_config vs main" fx code] by (auto simp: init_config_def)
  with solo_safe [OF assms c(1)] show ?thesis by blast
qed

section \<open>Symbolic execution\<close>

lemma solo_outcomes:
  assumes "\<And>fx r M'. (\<exists>ch. mexec fx ch 0 i M = Some (r, M')) \<longleftrightarrow> R r M'" and "alone_instr i"
  shows "solo F P M (Do i k) \<longleftrightarrow> \<not> ub M \<and> (\<forall>r M'. R r M' \<longrightarrow> solo F P M' (k r)) \<and> (\<exists>r M'. R r M')"
proof -
  have "(\<forall>fx ch r M'. mexec fx ch 0 i M = Some (r, M') \<longrightarrow> solo F P M' (k r)) \<longleftrightarrow> (\<forall>r M'. R r M' \<longrightarrow> solo F P M' (k r))"
    using assms(1) by blast
  moreover have "(\<exists>ch. mexec fx ch 0 i M \<noteq> None) \<longleftrightarrow> (\<exists>r M'. R r M')" for fx
    unfolding assms(1) [symmetric, of _ _ fx] by auto
  ultimately show ?thesis
    unfolding solo_simps(4) using assms(2) by auto
qed

text \<open>A thread that has seen the last message of a location can read no other one.\<close>

lemma solo_load:
  assumes "o1 \<noteq> SeqCst" "\<forall>ts. cur M 0 (Ts l) < ts \<longrightarrow> hist M l ts = None"
  shows "solo F P M (Do (ILoad o1 l) k) \<longleftrightarrow> \<not> ub M \<and>
    (case m_load (cur M 0 (Ts l)) 0 o1 l M of None \<Rightarrow> False | Some (v, M') \<Rightarrow> solo F P M' (k (RVal v)))"
proof -
  have "m_load ts 0 o1 l M = None" if "ts \<noteq> cur M 0 (Ts l)" for ts
    using that assms by (auto simp: m_load_def readable_def split: option.splits)
  then have "(\<exists>ch. mexec fx ch 0 (ILoad o1 l) M = Some (r, M')) \<longleftrightarrow>
      (\<exists>v. m_load (cur M 0 (Ts l)) 0 o1 l M = Some (v, M') \<and> r = RVal v)" for fx r M'
    by simp (metis choice.sel(1) option.discI)
  then show ?thesis
    by (subst solo_outcomes) (auto split: option.splits simp del: mexec.simps)
qed

lemma solo_rmw:
  assumes "os \<noteq> SeqCst" "of1 \<noteq> SeqCst" "\<forall>ts. cur M 0 (Ts l) < ts \<longrightarrow> hist M l ts = None"
  shows "solo F P M (Do (IRmw os of1 False l f) k) \<longleftrightarrow> \<not> ub M \<and>
    (case m_rmw (cur M 0 (Ts l)) False 0 os of1 l f M of None \<Rightarrow> False | Some (b, v, M') \<Rightarrow> solo F P M' (k (RCas b v)))"
proof -
  have "m_rmw ts False 0 os of1 l f M = None" if "ts \<noteq> cur M 0 (Ts l)" for ts
    using that assms by (auto simp: m_rmw_def m_load_def readable_def Let_def split: option.splits)
  then have "(\<exists>ch. mexec fx ch 0 (IRmw os of1 False l f) M = Some (r, M')) \<longleftrightarrow>
      (\<exists>b v. m_rmw (cur M 0 (Ts l)) False 0 os of1 l f M = Some (b, v, M') \<and> r = RCas b v)" for fx r M'
    by simp (metis choice.sel(1) option.discI)
  then show ?thesis
    by (subst solo_outcomes) (auto split: option.splits simp del: mexec.simps)
qed

text \<open>A store gets any later timestamp; there is one, as there are finitely many messages.\<close>

lemma solo_store:
  assumes "finite (dom (hist M l))"
  shows "solo F P M (Do (IStore o1 l v) k) \<longleftrightarrow> \<not> ub M \<and>
     (\<forall>ts M'. m_store ts 0 o1 l v M = Some M' \<longrightarrow> solo F P M' (k (RVal VUnit)))"
proof -
  obtain ts where "ts \<notin> dom (hist M l) \<union> {..cur M 0 (Ts l)} \<union> {..scv M l}"
    using assms by (meson ex_new_if_finite finite_UnI finite_atMost infinite_UNIV_nat)
  then have "m_store ts 0 o1 l v M \<noteq> None" by (auto simp: m_store_def Let_def)
  moreover have "(\<exists>ch. mexec fx ch 0 (IStore o1 l v) M = Some (r, M')) \<longleftrightarrow>
      (\<exists>ts. m_store ts 0 o1 l v M = Some M') \<and> r = RVal VUnit" for fx r M'
    by simp (metis choice.sel(1))
  ultimately show ?thesis
    by (subst solo_outcomes) (auto simp del: mexec.simps, blast?)
qed

lemma solo_steps:
  "solo F P M (Do (IGetMut l) k) \<longleftrightarrow> \<not> ub M \<and>
     (case m_get_mut 0 l M of None \<Rightarrow> False | Some (v, M') \<Rightarrow> solo F P M' (k (RVal v)))"
  "solo F P M (Do (ISetMut l v) k) \<longleftrightarrow> \<not> ub M \<and> solo F P (m_set_mut 0 l v M) (k (RVal VUnit))"
  "solo F P M (Do (IUnpark u) k) \<longleftrightarrow> \<not> ub M \<and> solo F P (m_unpark 0 u M) (k (RVal VUnit))"
  "solo F P M (Do ICurrent k) \<longleftrightarrow> \<not> ub M \<and> solo F P M (k (RVal (VTid 0)))"
  "solo F P M (Do (IFence o1) k) \<longleftrightarrow> \<not> ub M \<and> solo F P (m_fence 0 o1 M) (k (RVal VUnit))"
  "solo F P M (Do (IRead l) k) \<longleftrightarrow> \<not> ub M \<and> solo F P (m_read 0 l M) (k (RVal (cell M l)))"
  "solo F P M (Do (IWrite l v) k) \<longleftrightarrow> \<not> ub M \<and> solo F P (m_write 0 l v M) (k (RVal VUnit))"
  "solo F P M (Do (IDrop l) k) \<longleftrightarrow> \<not> ub M \<and> solo F P (m_drop 0 l M) (k (RVal VUnit))"
  "solo F P M (Do (IAlloc vs) k) \<longleftrightarrow> \<not> ub M \<and> solo F P (m_alloc 0 vs M) (k (RVal (VPtr (Some (nblocks M)))))"
  "solo F P M (Do (IFree b) k) \<longleftrightarrow> \<not> ub M \<and> solo F P (m_free 0 b M) (k (RVal VUnit))"
  "solo F P M (Do (IPrint v) k) \<longleftrightarrow> \<not> ub M \<and> solo F P (M\<lparr>out := out M @ [v]\<rparr>) (k (RVal VUnit))"
  "solo F P M (Do ITau k) \<longleftrightarrow> \<not> ub M \<and> solo F P M (k (RVal VUnit))"
  by (auto simp: solo_simps split: option.splits)

lemmas solo_eval = solo_steps solo_load solo_rmw solo_store solo_simps(1-3) m_defs init_mem_def static_val_def readable_def
  released_def races_def at_ts_def std_defs seqp_def

end
