(* ===== verification/Arcs.thy ===== *)
theory Arcs
  imports Arc_Protocol Solo
begin

text \<open>
  The reference counted pointers of 06-01 and 06-01-02, and the theorem for all their clients:
  whatever the threads of a process do with their handles, there is no data race, no use after
  free and no double free, and when all threads have ended the data has been dropped exactly
  once.
\<close>

section \<open>What is shown of a process\<close>

text \<open>
  No undefined behaviour, no panic; the data is dropped at most once, and exactly once, and the
  block freed, when all threads have ended; what is printed is in \<open>P\<close> and what is dropped in \<open>G\<close>.
\<close>

definition arc_sound :: "nat \<Rightarrow> 'a val set \<Rightarrow> 'a val set \<Rightarrow> 'a config \<Rightarrow> bool" where
  "arc_sound b G P c \<longleftrightarrow> \<not> ub (mem c) \<and> (\<forall>t msg. progs c t \<noteq> Some (Panic msg)) \<and> set (out (mem c)) \<subseteq> P \<and>
     (drops (mem c) = [] \<or> (\<exists>v \<in> G. drops (mem c) = [v])) \<and>
     ((\<forall>t < nthreads (mem c). finished c t) \<longrightarrow> freed (mem c) b \<and> (\<exists>v \<in> G. drops (mem c) = [v]))"

abbreviation arc_prog ::
    "nat \<Rightarrow> 'a val set \<Rightarrow> 'a val set \<Rightarrow> ('a val \<Rightarrow> nat) \<Rightarrow> ('r \<Rightarrow> ast \<Rightarrow> bool) \<Rightarrow> ast \<Rightarrow> ('a, 'r) prog \<Rightarrow> bool" where
  "arc_prog b G P gives Q s p \<equiv> conforms (apos b G) (atr b G P gives) (\<lambda>_. False) Q s p"

lemma arc_safe_sound:
  assumes "ar.safe b G P gives c"
  shows "arc_sound b G P c"
proof -
  from assms obtain S where inv: "arc_inv b G P S (mem c)"
    and conf: "\<And>t p. progs c t = Some p \<Longrightarrow>
      t < nthreads (mem c) \<and> arc_prog b G P gives (\<lambda>_ s. afin s) (S t) p"
    unfolding ar.safe_def by blast
  have "freed (mem c) b \<and> (\<exists>v \<in> G. drops (mem c) = [v])" if "\<forall>t < nthreads (mem c). finished c t"
  proof -
    have fin: "own (S t) = 0 \<and> mode (S t) = Norm" if "t < nthreads (mem c)" for t
      using that \<open>\<forall>t < nthreads (mem c). finished c t\<close> conf [of t]
      by (fastforce simp: finished_def afin_def split: option.splits prog.splits)
    then have "owns S (nthreads (mem c)) = 0" by (simp add: owns_0)
    moreover have "\<not> ender b G S (mem c) t" for t
      using fin [of t] by (auto simp: ender_def)
    ultimately show ?thesis
      using inv fin [of 0] by (auto simp: arc_inv_def arc_phase_def unborn_def dying_def dead_def dest: aliveD(4))
  qed
  moreover have "drops (mem c) = [] \<or> (\<exists>v \<in> G. drops (mem c) = [v])"
    using inv by (auto simp: arc_inv_def arc_phase_def unborn_def alive_def dying_def ender_def dead_def split: amode.splits)
      (metis amode.exhaust)
  moreover have "progs c t \<noteq> Some (Panic msg)" for t msg
    using conf [of t "Panic msg"] by auto
  ultimately show ?thesis
    using inv by (auto simp: arc_sound_def arc_inv_def)
qed

lemma arc_reach:
  assumes "Uninit \<notin> G" and "arc_prog (length vs) G P gives (\<lambda>_ s. afin s) \<lparr>own = 0, mode = Fresh\<rparr> main"
    and "\<And>a. arc_prog (length vs) G P gives (\<lambda>_ s. afin s) (achild gives a) (code a)"
    and "reach fx code (init_config vs main) c" and "few_threads (mem c)"
  shows "arc_sound (length vs) G P c"
proof -
  have "ar.safe (length vs) G P gives (init_config vs main)"
    using arc_inv_init [OF refl assms(1)] assms(2) by (rule ar.safe_init)
  with assms(3) show ?thesis
    by (intro arc_safe_sound ar.safe_reach_bnd [OF _ _ assms(4,5)])
qed

section \<open>Clients of a reference counted pointer\<close>

text \<open>
  A thread of a client is a sequence of operations on its handles: clone one, drop one, print the
  data, update it through \<open>get_mut\<close>, spawn a thread and move handles to it, join a thread.
  A handle is the block it points to.
\<close>

datatype 'a arc_op =
    OClone
  | ODrop
  | OPrint
  | OUpdate "'a val \<Rightarrow> 'a val"
  | OSpawn "'a val"
  | OJoin tid

fun arc_client ::
    "(nat \<Rightarrow> ('a, nat) prog) \<Rightarrow> (nat \<Rightarrow> ('a, unit) prog) \<Rightarrow> (nat \<Rightarrow> ('a, loc option) prog) \<Rightarrow> nat \<Rightarrow>
     'a arc_op list \<Rightarrow> ('a, unit) prog" where
  "arc_client cl dr gm a [] = Ret ()"
| "arc_client cl dr gm a (OClone # ops) = seqp (cl a) (arc_client cl dr gm a ops)"
| "arc_client cl dr gm a (ODrop # ops) = seqp (dr a) (arc_client cl dr gm a ops)"
| "arc_client cl dr gm a (OPrint # ops) =
     bindp (read_cell (arc_data a)) (\<lambda>v. seqp (println v) (arc_client cl dr gm a ops))"
| "arc_client cl dr gm a (OUpdate f # ops) =
     bindp (gm a) (\<lambda>r. case r of
         None \<Rightarrow> arc_client cl dr gm a ops
       | Some d \<Rightarrow> bindp (read_cell d) (\<lambda>v. seqp (write_cell d (f v)) (arc_client cl dr gm a ops)))"
| "arc_client cl dr gm a (OSpawn x # ops) = seqp (spawn x) (arc_client cl dr gm a ops)"
| "arc_client cl dr gm a (OJoin u # ops) = seqp (join u) (arc_client cl dr gm a ops)"

text \<open>
  What Rust's ownership rules guarantee of a thread that starts with \<open>k\<close> handles: it uses a
  handle only while it has one, and every handle is dropped or moved by the end.
\<close>

fun ops_ok :: "'a val set \<Rightarrow> ('a val \<Rightarrow> nat) \<Rightarrow> nat \<Rightarrow> 'a arc_op list \<Rightarrow> bool" where
  "ops_ok G gives k [] = (k = 0)"
| "ops_ok G gives k (OClone # ops) = (0 < k \<and> ops_ok G gives (Suc k) ops)"
| "ops_ok G gives k (ODrop # ops) = (0 < k \<and> ops_ok G gives (k - 1) ops)"
| "ops_ok G gives k (OPrint # ops) = (0 < k \<and> ops_ok G gives k ops)"
| "ops_ok G gives k (OUpdate f # ops) = (0 < k \<and> f ` G \<subseteq> G \<and> ops_ok G gives k ops)"
| "ops_ok G gives k (OSpawn a # ops) = (gives a \<le> k \<and> ops_ok G gives (k - gives a) ops)"
| "ops_ok G gives k (OJoin u # ops) = ops_ok G gives k ops"

definition arc_main ::
    "('a val \<Rightarrow> ('a, nat) prog) \<Rightarrow> (nat \<Rightarrow> ('a, nat) prog) \<Rightarrow> (nat \<Rightarrow> ('a, unit) prog) \<Rightarrow>
     (nat \<Rightarrow> ('a, loc option) prog) \<Rightarrow> 'a val \<Rightarrow> 'a arc_op list \<Rightarrow> ('a, unit) prog" where
  "arc_main nw cl dr gm v ops = bindp (nw v) (\<lambda>a. arc_client cl dr gm a ops)"

text \<open>
  The interface of an implementation: each method does to the handles what it promises, and
  issues only what the protocol of a reference counted block allows.
\<close>

locale arc_impl =
  fixes arc_new :: "'a val \<Rightarrow> ('a, nat) prog"
    and arc_clone :: "nat \<Rightarrow> ('a, nat) prog"
    and arc_drop :: "nat \<Rightarrow> ('a, unit) prog"
    and arc_get_mut :: "nat \<Rightarrow> ('a, loc option) prog"
  assumes new_ok: "v \<in> G \<Longrightarrow>
      arc_prog b G P gives (\<lambda>a s. a = b \<and> s = \<lparr>own = 1, mode = Norm\<rparr>) \<lparr>own = 0, mode = Fresh\<rparr> (arc_new v)"
    and clone_ok: "0 < own s \<Longrightarrow> mode s \<in> {Norm, Excl} \<Longrightarrow>
      arc_prog b G P gives (\<lambda>a s'. a = b \<and> s' = \<lparr>own = Suc (own s), mode = Norm\<rparr>) s (arc_clone b)"
    and drop_ok: "0 < own s \<Longrightarrow> mode s \<in> {Norm, Excl} \<Longrightarrow>
      arc_prog b G P gives (\<lambda>_ s'. s' = \<lparr>own = own s - 1, mode = Norm\<rparr>) s (arc_drop b)"
    and get_mut_ok: "0 < own s \<Longrightarrow> mode s \<in> {Norm, Excl} \<Longrightarrow>
      arc_prog b G P gives (\<lambda>r s'. case r of None \<Rightarrow> s' = s | Some d \<Rightarrow> d = arc_data b \<and> s' = s\<lparr>mode := Excl\<rparr>) s
        (arc_get_mut b)"
begin

abbreviation client :: "nat \<Rightarrow> 'a arc_op list \<Rightarrow> ('a, unit) prog" where
  "client \<equiv> arc_client arc_clone arc_drop arc_get_mut"

lemma client_ok:
  assumes "ops_ok G gives (own s) ops" and "mode s \<in> {Norm, Excl}" and "G \<subseteq> P"
    and "own s = 0 \<Longrightarrow> mode s = Norm"
  shows "arc_prog b G P gives (\<lambda>_ s. afin s) s (client b ops)"
  using assms
proof (induction ops arbitrary: s)
  case Nil
  then show ?case by (simp add: afin_def)
next
  case (Cons x ops)
  show ?case
  proof (cases x)
    case OClone
    with Cons.prems show ?thesis
      by (auto intro!: conforms_seq [OF clone_ok] Cons.IH)
  next
    case ODrop
    with Cons.prems show ?thesis
      by (auto intro!: conforms_seq [OF drop_ok] Cons.IH)
  next
    case OPrint
    with Cons.prems show ?thesis
      by (auto simp: conf_simps seqp_def intro!: Cons.IH)
  next
    case (OUpdate f)
    with Cons.prems have s: "0 < own s" "mode s \<in> {Norm, Excl}" and f: "f ` G \<subseteq> G"
      and ok: "ops_ok G gives (own s) ops" by auto
    have IH: "arc_prog b G P gives (\<lambda>_ s. afin s) s' (client b ops)" if "own s' = own s" "mode s' \<in> {Norm, Excl}" for s'
      using that s ok Cons.prems(3) by (intro Cons.IH) auto
    show ?thesis unfolding OUpdate arc_client.simps
    proof (rule conforms_bind [OF get_mut_ok [OF s]])
      fix r s' assume r: "case r of None \<Rightarrow> s' = s | Some d \<Rightarrow> d = arc_data b \<and> s' = s\<lparr>mode := Excl\<rparr>"
      show "arc_prog b G P gives (\<lambda>_ s. afin s) s' (case r of None \<Rightarrow> client b ops
        | Some d \<Rightarrow> bindp (read_cell d) (\<lambda>v. seqp (write_cell d (f v)) (client b ops)))"
      proof (cases r)
        case None
        with r s show ?thesis by (auto intro!: IH)
      next
        case (Some d)
        with r s f IH [of "s\<lparr>mode := Excl\<rparr>"] show ?thesis by (auto simp: conf_simps seqp_def)
      qed
    qed
  next
    case (OSpawn a)
    with Cons.prems show ?thesis
      by (auto simp: conf_simps seqp_def intro!: Cons.IH)
  next
    case (OJoin u)
    with Cons.prems show ?thesis
      by (auto simp: conf_simps seqp_def intro!: Cons.IH)
  qed
qed

lemma main_ok:
  assumes "v \<in> G" and "ops_ok G gives 1 ops" and "G \<subseteq> P"
  shows "arc_prog b G P gives (\<lambda>_ s. afin s) \<lparr>own = 0, mode = Fresh\<rparr>
    (arc_main arc_new arc_clone arc_drop arc_get_mut v ops)"
  unfolding arc_main_def using assms
  by (auto intro!: conforms_bind [OF new_ok] client_ok)

text \<open>What holds of every process built from the implementation.\<close>

theorem clients_safe:
  assumes "v \<in> G" "Uninit \<notin> G" "ops_ok G gives 1 ops" "\<And>a. ops_ok G gives (gives a) (thread a)"
    and "reach fx (\<lambda>a. client (length vs) (thread a))
      (init_config vs (arc_main arc_new arc_clone arc_drop arc_get_mut v ops)) c"
    and "nthreads (mem c) < 2 ^ 63"
  shows "arc_sound (length vs) G G c"
  using assms by (intro arc_reach [OF _ main_ok client_ok]) (auto simp: achild_def few_threads_def)

end

section \<open>06-01: reference counting\<close>

definition Arc1_new :: "'a val \<Rightarrow> ('a, nat) prog" where
  "Arc1_new data = alloc [VUsize 1, data]"

text \<open>\<open>deref\<close> returns \<open>&T\<close>: the location of the data.\<close>

definition Arc1_deref :: "nat \<Rightarrow> loc" where
  "Arc1_deref self = arc_data self"

definition Arc1_clone :: "nat \<Rightarrow> ('a, nat) prog" where
  "Arc1_clone self =
     bindp (fetch_add (ref_count self) (VUsize 1) Relaxed) (\<lambda>n.
       if MAX_HALF < as_usize n then Abort else Ret self)"

text \<open>\<open>drop(Box::from_raw(ptr))\<close> drops the data and frees the block.\<close>

definition Arc1_drop :: "nat \<Rightarrow> ('a, unit) prog" where
  "Arc1_drop self =
     bindp (fetch_sub (ref_count self) (VUsize 1) Release) (\<lambda>n.
       if as_usize n = 1
       then seqp (fence Acquire) (seqp (drop_in_place (arc_data self)) (dealloc self))
       else Ret ())"

text \<open>There is no \<open>get_mut\<close> in 06-01: to the clients, one that always answers \<open>None\<close>.\<close>

definition no_get_mut :: "nat \<Rightarrow> ('a, loc option) prog" where
  "no_get_mut self = Ret None"

interpretation a1: arc_impl Arc1_new Arc1_clone Arc1_drop no_get_mut
proof unfold_locales
  fix v :: "'a val" and G P b gives assume "v \<in> G"
  then show "arc_prog b G P gives (\<lambda>a s. a = b \<and> s = \<lparr>own = 1, mode = Norm\<rparr>) \<lparr>own = 0, mode = Fresh\<rparr> (Arc1_new v)"
    by (auto simp: Arc1_new_def conf_simps)
next
  fix s :: ast and b G gives and P :: "'a val set" assume s: "0 < own s" "mode s \<in> {Norm, Excl}"
  show "arc_prog b G P gives (\<lambda>a s'. a = b \<and> s' = \<lparr>own = Suc (own s), mode = Norm\<rparr>) s (Arc1_clone b)"
    using s by (auto simp: Arc1_clone_def conf_simps)
  have "arc_prog b G P gives (\<lambda>_ s'. s' = \<lparr>own = own s - 1, mode = Norm\<rparr>) \<lparr>own = own s - 1, mode = Last\<rparr>
      (seqp (fence Acquire) (seqp (drop_in_place (arc_data b)) (dealloc b)))"
    by (simp add: conf_simps seqp_def)
  then show "arc_prog b G P gives (\<lambda>_ s'. s' = \<lparr>own = own s - 1, mode = Norm\<rparr>) s (Arc1_drop b)"
    using s unfolding Arc1_drop_def fetch_sub_def by (auto simp: conforms_Do_iff all_resp)
  show "arc_prog b G P gives (\<lambda>r s'. case r of None \<Rightarrow> s' = s | Some d \<Rightarrow> d = arc_data b \<and> s' = s\<lparr>mode := Excl\<rparr>) s
      (no_get_mut b)"
    by (simp add: no_get_mut_def)
qed

section \<open>06-01-02: exclusive access\<close>

definition Arc2_new :: "'a val \<Rightarrow> ('a, nat) prog" where
  "Arc2_new data = alloc [VUsize 1, data]"

text \<open>\<open>get_mut\<close> returns \<open>&mut T\<close>: the location of the data.\<close>

definition Arc2_get_mut :: "nat \<Rightarrow> ('a, loc option) prog" where
  "Arc2_get_mut arc =
     bindp (load (ref_count arc) Relaxed) (\<lambda>n.
       if as_usize n = 1 then seqp (fence Acquire) (Ret (Some (arc_data arc))) else Ret None)"

definition Arc2_deref :: "nat \<Rightarrow> loc" where
  "Arc2_deref self = arc_data self"

definition Arc2_clone :: "nat \<Rightarrow> ('a, nat) prog" where
  "Arc2_clone self =
     bindp (fetch_add (ref_count self) (VUsize 1) Relaxed) (\<lambda>n.
       if MAX_HALF < as_usize n then Abort else Ret self)"

definition Arc2_drop :: "nat \<Rightarrow> ('a, unit) prog" where
  "Arc2_drop self =
     bindp (fetch_sub (ref_count self) (VUsize 1) Release) (\<lambda>n.
       if as_usize n = 1
       then seqp (fence Acquire) (seqp (drop_in_place (arc_data self)) (dealloc self))
       else Ret ())"

definition Arc2_main :: "('a, unit) prog" where
  "Arc2_main =
     bindp (Arc2_new (VStr ''hello'')) (\<lambda>a.
     bindp (Arc2_clone a) (\<lambda>b.
     bindp (read_cell (arc_data b)) (\<lambda>v.
     seqp (println (VStr (''b: '' @ as_str v)))
     (seqp (Arc2_drop b)
     (bindp (Arc2_get_mut a) (\<lambda>r.
     seqp (case r of Some s \<Rightarrow> push_str s '', world'' | None \<Rightarrow> Ret ())
     (bindp (read_cell (arc_data a)) (\<lambda>v.
     seqp (println (VStr (''a: '' @ as_str v)))
     (Arc2_drop a)))))))))"

lemma Arc2_same:
  "(Arc2_new :: 'a val \<Rightarrow> ('a, nat) prog) = Arc1_new" "(Arc2_clone :: nat \<Rightarrow> ('a, nat) prog) = Arc1_clone"
  "(Arc2_drop :: nat \<Rightarrow> ('a, unit) prog) = Arc1_drop"
  by (simp_all add: fun_eq_iff Arc1_new_def Arc2_new_def Arc1_clone_def Arc2_clone_def Arc1_drop_def Arc2_drop_def)

interpretation a2: arc_impl Arc2_new Arc2_clone Arc2_drop Arc2_get_mut
  unfolding Arc2_same
proof unfold_locales
  fix s :: ast and b G gives and P :: "'a val set" assume s: "0 < own s" "mode s \<in> {Norm, Excl}"
  show "arc_prog b G P gives (\<lambda>r s'. case r of None \<Rightarrow> s' = s | Some d \<Rightarrow> d = arc_data b \<and> s' = s\<lparr>mode := Excl\<rparr>) s
      (Arc2_get_mut b)"
    using s by (auto simp: Arc2_get_mut_def conf_simps seqp_def)
qed (fact a1.new_ok a1.clone_ok a1.drop_ok)+

section \<open>Properties\<close>

lemma Arc2_main_solo:
  "solo (\<lambda>M. out M = [VStr ''b: hello'', VStr ''a: hello, world''] \<and> freed M 0 \<and> drops M = [VStr ''hello, world''])
     (\<lambda>_ _. False) (init_mem []) Arc2_main"
  by (simp add: solo_eval Arc2_main_def Arc2_new_def Arc2_clone_def Arc2_drop_def Arc2_get_mut_def push_str_def
      ref_count_def arc_data_def MAX_HALF_def)

text \<open>
  C8. The Arc of 06-01 is memory safe: whatever sequences of clone, drop, read and hand-over the
  threads run, as long as each thread uses only references that it owns, no reachable state has
  undefined behaviour (a data race, a use after free, a double free), only the value is read,
  and it is dropped at most once, with the memory. The bound on the number of threads keeps the
  count below the abort.
\<close>

theorem Arc1_clients_safe:
  assumes "v \<noteq> Uninit" and "ops_ok {v} gives 1 ops" and "\<And>a. ops_ok {v} gives (gives a) (thread a)"
    and "reach fx (\<lambda>a. arc_client Arc1_clone Arc1_drop no_get_mut 0 (thread a))
      (init_config [] (arc_main Arc1_new Arc1_clone Arc1_drop no_get_mut v ops)) c"
    and "nthreads (mem c) < 2 ^ 63"
  shows "arc_sound 0 {v} {v} c"
  using a1.clients_safe [of v "{v}" gives ops thread fx "[]" c] assms by simp

theorem Arc1_clients_safe_witness:
  "\<exists>c :: nat config. arc_sound 0 {VU8 7} {VU8 7} c \<and> finished c 0 \<and> finished c 1 \<and> out (mem c) = [VU8 7] \<and>
     drops (mem c) = [VU8 7]"
proof -
  let ?thread = "\<lambda>_ :: nat val. [OPrint, ODrop]" and ?ops = "[OClone, OSpawn VUnit, ODrop]"
  obtain c where c: "run (\<lambda>_ _ _ _. True) (\<lambda>a. arc_client Arc1_clone Arc1_drop no_get_mut 0 (?thread a))
      (sched [(0, 0), (0, 0), (0, 0), (0, 1), (1, 0), (1, 0), (1, 2), (1, 0), (1, 0), (1, 0)])
      (init_config [] (arc_main Arc1_new Arc1_clone Arc1_drop no_get_mut (VU8 7) ?ops)) = Some c"
      "finished c 0" "finished c 1" "out (mem c) = [VU8 7]" "drops (mem c) = [VU8 7]" "nthreads (mem c) = 2"
    by (simp add: run_simps arc_main_def Arc1_new_def Arc1_clone_def Arc1_drop_def ref_count_def arc_data_def MAX_HALF_def)
  from Arc1_clients_safe [where gives = "\<lambda>_. 1", OF _ _ _ run_reach [OF c(1)]] c(2-) show ?thesis by auto
qed

text \<open>
  C9. The Arc of 06-01-02 is memory safe also for clients that update the data when
  \<open>get_mut\<close> gives them exclusive access: no data race, no use after free, no double
  free; every value read or dropped is one that was written.
\<close>

theorem Arc2_clients_safe:
  assumes "v \<in> G" "Uninit \<notin> G" and "ops_ok G gives 1 ops" and "\<And>a. ops_ok G gives (gives a) (thread a)"
    and "reach fx (\<lambda>a. arc_client Arc2_clone Arc2_drop Arc2_get_mut 0 (thread a))
      (init_config [] (arc_main Arc2_new Arc2_clone Arc2_drop Arc2_get_mut v ops)) c"
    and "nthreads (mem c) < 2 ^ 63"
  shows "arc_sound 0 G G c"
  using a2.clients_safe [of v G gives ops thread fx "[]" c] assms by simp

theorem Arc2_clients_safe_witness:
  "\<exists>c :: nat config. arc_sound 0 {VU8 7, VU8 8} {VU8 7, VU8 8} c \<and> finished c 0 \<and> finished c 1 \<and>
     out (mem c) = [VU8 7, VU8 8] \<and> drops (mem c) = [VU8 8]"
proof -
  let ?thread = "\<lambda>_ :: nat val. [OPrint, ODrop]" and ?ops = "[OClone, OSpawn VUnit, OUpdate (\<lambda>_. VU8 8), OPrint, ODrop]"
  obtain c where c: "run (\<lambda>_ _ _ _. True) (\<lambda>a. arc_client Arc2_clone Arc2_drop Arc2_get_mut 0 (?thread a))
      (sched [(0, 0), (0, 0), (0, 0), (1, 0), (1, 0), (1, 1),
        (0, 2), (0, 0), (0, 0), (0, 0), (0, 0), (0, 0), (0, 2), (0, 0), (0, 0), (0, 0)])
      (init_config [] (arc_main Arc2_new Arc2_clone Arc2_drop Arc2_get_mut (VU8 7) ?ops)) = Some c"
      "finished c 0" "finished c 1" "out (mem c) = [VU8 7, VU8 8]" "drops (mem c) = [VU8 8]" "nthreads (mem c) = 2"
    by (simp add: run_simps arc_main_def Arc2_new_def Arc2_clone_def Arc2_drop_def Arc2_get_mut_def ref_count_def
        arc_data_def MAX_HALF_def)
  from Arc2_clients_safe [where gives = "\<lambda>_. 1" and G = "{VU8 7, VU8 8}", OF _ _ _ _ run_reach [OF c(1)]] c(2-)
  show ?thesis by auto
qed

text \<open>
  C10. The main program of 06-01-02: no undefined behaviour, no panic, it can always make a step
  until it has ended, and then it has printed both lines, with the update made through
  \<open>get_mut\<close> in the second one, and has dropped the string and freed its memory
  exactly once.
\<close>

theorem Arc2_main_prints:
  assumes "reach fx code (init_config [] Arc2_main) c"
  shows "\<not> ub (mem c) \<and> (\<forall>t msg. progs c t \<noteq> Some (Panic msg)) \<and>
    (finished c 0 \<longrightarrow> out (mem c) = [VStr ''b: hello'', VStr ''a: hello, world''] \<and> freed (mem c) 0 \<and>
       drops (mem c) = [VStr ''hello, world'']) \<and>
    (finished c 0 \<or> (\<exists>ch c'. exec fx code ch 0 c = Some c'))"
  using solo_safe [OF Arc2_main_solo assms] solo_progress [OF Arc2_main_solo assms] by blast

theorem Arc2_main_prints_witness:
  "\<exists>c :: nat config. finished c 0 \<and> out (mem c) = [VStr ''b: hello'', VStr ''a: hello, world'']"
proof -
  obtain c :: "nat config" where c: "reach (\<lambda>_ _ _ _. True) (\<lambda>_. Ret ()) (init_config [] Arc2_main) c" "finished c 0"
    using solo_runs [OF Arc2_main_solo] by blast
  from Arc2_main_prints [OF c(1)] c(2) show ?thesis by blast
qed

end
