(* ===== verification/Channel_Protocol.thy ===== *)
theory Channel_Protocol
  imports Protocol Access
begin

text \<open>
  One message from one thread to another: the protocol that the programs of chapter 5 follow.
  The main thread creates the channel and spawns the sending thread (in 05-02 also the receiving
  thread). The sender writes the message and then stores the flag with release ordering; the
  receiver polls the flag, parks while there is no message, takes the message by an acquire
  operation on the flag and reads it; after joining the sender it owns the channel again. The
  invariant shows that there is no data race, that a receiver that has seen the flag finds the
  message and cannot fail, and that a wake-up is never lost.
\<close>

section \<open>The automaton\<close>

text \<open>
  \<open>flag\<close>, \<open>msg\<close>, \<open>claim\<close>: the locations of the flag, of the message and (if the sender has to
  claim the channel first) of the claim; \<open>ready\<close>: the value of the flag when there is a message;
  \<open>free\<close>: the value of an unclaimed channel; \<open>payload\<close>: the message that is sent; \<open>prints\<close>: what
  may be printed; \<open>sarg\<close>: the argument with which the sender is spawned; \<open>apart\<close>: whether the
  receiver is a thread of its own (thread 2) and not the main thread.
\<close>

record 'a chan =
  flag :: loc
  msg :: loc
  claim :: "loc option"
  ready :: "'a val"
  free :: "'a val"
  payload :: "'a val"
  prints :: "'a val set"
  sarg :: "'a val"
  apart :: bool

datatype cst =
    Never | Unborn | Start | Between | Idle
  | SFresh | SReady | SWritten | SSent | SDone
  | RWait | RChecked | RSeen | RPeeked | RTaken | RRead | RGone | ROwner

fun ctr :: "'a chan \<Rightarrow> cst \<Rightarrow> 'a instr \<Rightarrow> 'a resp \<Rightarrow> cst \<Rightarrow> bool" where
  "ctr K s (IAlloc vs) r s' =
     (s = Unborn \<and> claim K = None \<and> blk (msg K) = blk (flag K) \<and> fld (flag K) < length vs \<and> fld (msg K) < length vs \<and>
      vs ! fld (flag K) \<noteq> ready K \<and> s' = Start)"
| "ctr K s (ILoad o1 l) r s' =
     (l = flag K \<and> s = RWait \<and>
      (if rval r = ready K then s' = RSeen \<or> acquires o1 \<and> s' = RPeeked else s' = RChecked))"
| "ctr K s (IRmw os of1 w l f) r s' =
     (s \<in> {RWait, RSeen} \<and> l = flag K \<and>
        (if rval r = ready K
         then rok r \<and> acquires os \<and> s' = RTaken \<and> f (rval r) \<noteq> Some (ready K)
         else s' = RChecked \<and> (rok r \<longrightarrow> claim K \<noteq> Some l \<and> f (rval r) \<noteq> Some (ready K))) \<or>
      s = SFresh \<and> claim K = Some l \<and> rok r \<and> (l = flag K \<longrightarrow> f (rval r) \<noteq> Some (ready K)) \<and> s' = SReady)"
| "ctr K s (IStore o1 l v) r s' = (l = flag K \<and> s = SWritten \<and> releases o1 \<and> v = ready K \<and> s' = SSent)"
| "ctr K s (IWrite l v) r s' =
     (l = msg K \<and> (s = SReady \<and> v = payload K \<and> s' = SWritten \<or> s = Start \<and> s' = Start))"
| "ctr K s (IRead l) r s' = (l = msg K \<and> (s = RTaken \<and> s' = RRead \<or> s = RPeeked \<and> s' = RGone))"
| "ctr K s (IGetMut l) r s' = (l = flag K \<and> s \<in> {Start, ROwner} \<and> s' = s)"
| "ctr K s (ISetMut l v) r s' = (l = flag K \<and> s = Start \<and> claim K = None \<and> v \<noteq> ready K \<and> s' = s)"
| "ctr K s (ISpawn a) r s' =
     (s = Start \<and> a = sarg K \<and> s' = (if apart K then Between else RWait) \<or>
      s = Between \<and> apart K \<and> a \<noteq> sarg K \<and> s' = Idle)"
| "ctr K s (IJoin u) r s' = (s = RRead \<and> u = 1 \<and> \<not> apart K \<and> s' = ROwner \<or> s = Idle \<and> apart K \<and> u \<in> {1, 2} \<and> s' = s)"
| "ctr K s IPark r s' = (s = RChecked \<and> \<not> apart K \<and> s' = RWait)"
| "ctr K s (IUnpark u) r s' = (s = SSent \<and> u = 0 \<and> \<not> apart K \<and> s' = SDone)"
| "ctr K s (IPrint v) r s' = (v \<in> prints K \<and> s' = s)"
| "ctr K s ITau r s' = (s' = (if s = RChecked then RWait else s) \<or> s' = s)"
| "ctr K s i r s' = (quiet i \<and> \<not> waits i \<and> s' = s)"

text \<open>
  \<open>Never\<close> is the state of the threads that are never spawned: those with another argument than
  that of the sender when there is no separate receiver.
\<close>

definition ctr_any :: "'a chan \<Rightarrow> cst \<Rightarrow> 'a instr \<Rightarrow> 'a resp \<Rightarrow> cst \<Rightarrow> bool" where
  "ctr_any K s i r s' = (if s = Never then s' = Never else ctr K s i r s')"

definition cchild :: "'a chan \<Rightarrow> 'a val \<Rightarrow> cst" where
  "cchild K a = (if a = sarg K then (if claim K = None then SReady else SFresh)
     else if apart K then RWait else Never)"

text \<open>A sender ends after it has woken the receiver, unless the receiver never parks.\<close>

definition cfin :: "'a chan \<Rightarrow> cst \<Rightarrow> bool" where
  "cfin K s \<longleftrightarrow> s \<in> {Never, SDone, RRead, RGone, ROwner, Idle} \<or> s = SSent \<and> apart K"

text \<open>What the code relies on: after it has seen the flag the receiver cannot fail, the message is
  the one that was sent, a channel taken back is empty, and the sender can claim the channel.\<close>

fun cpos :: "'a chan \<Rightarrow> cst \<Rightarrow> 'a instr \<Rightarrow> 'a resp \<Rightarrow> bool" where
  "cpos K s (IRmw os of1 w l f) r =
     ((s = RSeen \<and> l = flag K \<longrightarrow> rval r = ready K) \<and> (s = SFresh \<and> claim K = Some l \<longrightarrow> rval r = free K))"
| "cpos K s (IRead l) r = (l = msg K \<and> s \<in> {RTaken, RPeeked} \<longrightarrow> rval r = payload K)"
| "cpos K s (IGetMut l) r = (l = flag K \<and> s \<in> {Start, ROwner} \<longrightarrow> rval r \<noteq> ready K)"
| "cpos K s (IAlloc vs) r = (s = Unborn \<longrightarrow> r = RVal (VPtr (Some (blk (flag K)))))"
| "cpos K s (ISpawn a) r = ((s = Start \<longrightarrow> r = RVal (VTid 1)) \<and> (s = Between \<longrightarrow> r = RVal (VTid 2)))"
| "cpos K s ICurrent r = (s \<in> {Unborn, Start} \<longrightarrow> r = RVal (VTid 0))"
| "cpos K s i r = True"

section \<open>The invariant\<close>

definition chan_ok :: "'a chan \<Rightarrow> bool" where
  "chan_ok K \<longleftrightarrow> flag K \<noteq> msg K \<and> claim K \<noteq> Some (msg K) \<and> payload K \<noteq> Uninit \<and> free K \<noteq> ready K"

definition rcv :: "'a chan \<Rightarrow> tid" where
  "rcv K = (if apart K then 2 else 0)"

text \<open>The state of the receiver; one that is still to be spawned is waiting.\<close>

definition rst :: "'a chan \<Rightarrow> (tid \<Rightarrow> cst) \<Rightarrow> nat \<Rightarrow> cst" where
  "rst K S n = (if apart K \<and> n < 3 then RWait else S (rcv K))"

abbreviation "receivers \<equiv> {RGone, RWait, RChecked, RSeen, RPeeked, RTaken, RRead, ROwner}"
abbreviation "unsent \<equiv> {SFresh, SReady, SWritten}"
abbreviation "sent \<equiv> {SSent, SDone}"

definition roles :: "'a chan \<Rightarrow> (tid \<Rightarrow> cst) \<Rightarrow> nat \<Rightarrow> bool" where
  "roles K S n \<longleftrightarrow>
     n = 1 \<and> S 0 \<in> {Unborn, Start} \<or>
     n = 2 \<and> S 1 \<in> unsent \<union> sent \<and> (if apart K then S 0 = Between else S 0 \<in> receivers) \<or>
     n = 3 \<and> apart K \<and> S 0 = Idle \<and> S 1 \<in> unsent \<union> sent \<and> S 2 \<in> receivers - {ROwner}"

definition logs_ok :: "'a chan \<Rightarrow> 'a mem \<Rightarrow> bool" where
  "logs_ok K M \<longleftrightarrow> kinds_in {NaWrite, AtRead, AtWrite} (log M (flag K)) \<and>
     (\<forall>c. claim K = Some c \<longrightarrow> c = flag K \<or> atomic_only (log M c))"

text \<open>Before the sender is spawned.\<close>

definition chan_start :: "'a chan \<Rightarrow> (tid \<Rightarrow> cst) \<Rightarrow> 'a mem \<Rightarrow> bool" where
  "chan_start K S M \<longleftrightarrow> token M 0 = None \<and> (\<forall>k. k \<noteq> 0 \<longrightarrow> hist M (flag K) k = None) \<and>
     (S 0 = Unborn \<longrightarrow> nblocks M = blk (flag K) \<and> claim K = None) \<and>
     (S 0 = Start \<longrightarrow> (\<exists>x. hist M (flag K) 0 = Some x \<and> mval x \<noteq> ready K) \<and>
        (\<forall>c. claim K = Some c \<longrightarrow> (\<exists>x. hist M c = [0 \<mapsto> x] \<and> mval x = free K)))"

text \<open>Who knows which accesses.\<close>

definition chan_know :: "'a chan \<Rightarrow> (tid \<Rightarrow> cst) \<Rightarrow> 'a mem \<Rightarrow> bool" where
  "chan_know K S M \<longleftrightarrow>
     (rst K S (nthreads M) \<noteq> ROwner \<longrightarrow> (\<forall>t < nthreads M. wcovered (log M (flag K)) (cur M t))) \<and>
     (rst K S (nthreads M) = ROwner \<longrightarrow> covered (log M (flag K)) (cur M 0)) \<and>
     (S 1 \<in> unsent \<longrightarrow> covered (log M (msg K)) (cur M 1)) \<and>
     (S 1 \<in> insert SWritten sent \<longrightarrow> cell M (msg K) = payload K) \<and>
     (rst K S (nthreads M) \<in> {RPeeked, RTaken} \<longrightarrow> covered (log M (msg K)) (cur M (rcv K)))"

text \<open>The history of the flag before and after the message is sent (at timestamp \<open>s\<close>).\<close>

definition chan_unsent :: "'a chan \<Rightarrow> (tid \<Rightarrow> cst) \<Rightarrow> 'a mem \<Rightarrow> bool" where
  "chan_unsent K S M \<longleftrightarrow> (\<exists>k. chain (hist M (flag K)) k) \<and>
     (\<forall>k x. hist M (flag K) k = Some x \<longrightarrow> mval x \<noteq> ready K) \<and>
     rst K S (nthreads M) \<in> {RWait, RChecked} \<and> token M 0 = None \<and>
     (S 1 = SFresh \<longrightarrow> (\<forall>c. claim K = Some c \<longrightarrow> (\<exists>x. hist M c = [0 \<mapsto> x] \<and> mval x = free K)))"

definition chan_sent :: "'a chan \<Rightarrow> (tid \<Rightarrow> cst) \<Rightarrow> 'a mem \<Rightarrow> nat \<Rightarrow> bool" where
  "chan_sent K S M s \<longleftrightarrow>
     (\<exists>x. hist M (flag K) s = Some x \<and> mval x = ready K \<and>
        (rst K S (nthreads M) \<in> {RWait, RChecked, RSeen} \<longrightarrow> covered (log M (msg K)) (mview x))) \<and>
     (\<forall>k x. hist M (flag K) k = Some x \<longrightarrow> mval x = ready K \<longrightarrow> k = s) \<and>
     (\<forall>k > s. hist M (flag K) k \<noteq> None \<longrightarrow> rst K S (nthreads M) \<in> {RTaken, RRead, ROwner}) \<and>
     (rst K S (nthreads M) = RSeen \<longrightarrow> s \<le> cur M (rcv K) (Ts (flag K))) \<and>
     (rst K S (nthreads M) \<in> {RTaken, RRead, ROwner} \<longrightarrow> s < cur M (rcv K) (Ts (flag K))) \<and>
     s \<le> cur M 1 (Ts (flag K)) \<and>
     (S 1 = SSent \<longrightarrow> token M 0 = None) \<and>
     (S 1 = SDone \<longrightarrow> \<not> apart K \<and> (case token M 0 of
         Some V \<Rightarrow> s \<le> V (Ts (flag K))
       | None \<Rightarrow> s \<le> cur M 0 (Ts (flag K)) \<and> S 0 \<noteq> RChecked))"

definition chan_run :: "'a chan \<Rightarrow> (tid \<Rightarrow> cst) \<Rightarrow> 'a mem \<Rightarrow> bool" where
  "chan_run K S M \<longleftrightarrow> chan_know K S M \<and>
     (S 1 \<in> unsent \<longrightarrow> chan_unsent K S M) \<and> (S 1 \<in> sent \<longrightarrow> (\<exists>s. chan_sent K S M s))"

definition chan_alloc :: "'a chan \<Rightarrow> 'a mem \<Rightarrow> bool" where
  "chan_alloc K M \<longleftrightarrow> \<not> freed M (blk (flag K)) \<and> \<not> freed M (blk (msg K)) \<and> (\<forall>c. claim K = Some c \<longrightarrow> \<not> freed M (blk c))"

definition chan_inv :: "'a chan \<Rightarrow> (tid \<Rightarrow> cst) \<Rightarrow> 'a mem \<Rightarrow> bool" where
  "chan_inv K S M \<longleftrightarrow> chan_ok K \<and> \<not> ub M \<and> set (out M) \<subseteq> prints K \<and> chan_alloc K M \<and>
     roles K S (nthreads M) \<and> logs_ok K M \<and>
     (nthreads M = 1 \<longrightarrow> chan_start K S M) \<and> (1 < nthreads M \<longrightarrow> chan_run K S M)"

lemma role_cases [consumes 2, case_names start sender receiver between idle receiver2]:
  assumes "roles K S n" and "t < n"
  obtains "n = 1" "t = 0" "S 0 \<in> {Unborn, Start}"
    | "1 < n" "t = 1" "S 1 \<in> unsent \<union> sent"
    | "n = 2" "t = 0" "\<not> apart K" "S 0 \<in> receivers" "S 1 \<in> unsent \<union> sent"
    | "n = 2" "t = 0" "apart K" "S 0 = Between" "S 1 \<in> unsent \<union> sent"
    | "n = 3" "t = 0" "apart K" "S 0 = Idle" "S 1 \<in> unsent \<union> sent"
    | "n = 3" "t = 2" "apart K" "S 2 \<in> receivers - {ROwner}" "S 1 \<in> unsent \<union> sent"
proof -
  have "t = 0 \<or> t = 1 \<or> t = 2" using assms by (auto simp: roles_def)
  with assms that show thesis unfolding roles_def by (auto split: if_splits)
qed

section \<open>Steps that only learn\<close>

definition learns :: "'a mem \<Rightarrow> 'a mem \<Rightarrow> bool" where
  "learns M M' \<longleftrightarrow> hist M' = hist M \<and> log M' = log M \<and> cell M' = cell M \<and> freed M' = freed M \<and> ub M' = ub M \<and>
     nthreads M' = nthreads M \<and> nblocks M' = nblocks M \<and> token M' = token M \<and> (\<forall>u. cur M u \<le> cur M' u)"

lemma quiet_learns:
  assumes "quiet i" and "mexec fx ch t i M = Some (r, M')" and "\<And>a. i \<noteq> ISpawn a" "i \<noteq> IPark" "\<And>u. i \<noteq> IUnpark u"
  shows "learns M M'"
  using assms by (cases i) (auto simp: learns_def m_fence_def m_join_def split: if_splits)

lemma rcv_lt: "roles K S n \<Longrightarrow> rst K S n \<noteq> RWait \<Longrightarrow> rcv K < n"
  by (auto simp: roles_def rst_def rcv_def split: if_splits)

lemma know_learns:
  assumes "chan_know K S M" and l: "learns M M'"
  shows "chan_know K S M'"
proof -
  have eq: "log M' = log M" "cell M' = cell M" "nthreads M' = nthreads M" and cur: "\<And>u. cur M u \<le> cur M' u"
    using l by (auto simp: learns_def)
  have cov: "covered es (cur M u) \<Longrightarrow> covered es (cur M' u)" "wcovered es (cur M u) \<Longrightarrow> wcovered es (cur M' u)" for es u
    using covered_mono [OF _ cur] wcovered_mono [OF _ cur] by blast+
  show ?thesis
    using assms(1) unfolding chan_know_def eq by (simp add: cov)
qed

lemma sent_learns:
  assumes "chan_sent K S M s" and l: "learns M M'"
  shows "chan_sent K S M' s"
proof -
  have eq: "hist M' = hist M" "log M' = log M" "nthreads M' = nthreads M" "token M' = token M"
    and cur: "\<And>u x. cur M u x \<le> cur M' u x"
    using l by (auto simp: learns_def le_fun_def)
  show ?thesis
    using assms(1) le_trans [OF _ cur] less_le_trans [OF _ cur]
    unfolding chan_sent_def eq by (auto split: option.splits)
qed

lemma inv_learns:
  assumes inv: "chan_inv K S M" and l: "learns M M'" and out: "set (out M') \<subseteq> prints K"
  shows "chan_inv K S M'"
proof -
  have eq: "hist M' = hist M" "log M' = log M" "freed M' = freed M" "nthreads M' = nthreads M" "token M' = token M"
    "nblocks M' = nblocks M" "ub M' = ub M"
    using l by (auto simp: learns_def)
  have "chan_unsent K S M \<Longrightarrow> chan_unsent K S M'" "chan_start K S M \<Longrightarrow> chan_start K S M'"
    by (simp_all add: chan_unsent_def chan_start_def eq)
  with inv show ?thesis
    using know_learns [OF _ l] sent_learns [OF _ l] out
    unfolding chan_inv_def chan_run_def chan_alloc_def logs_ok_def eq by blast
qed

lemma knowD:
  assumes "chan_know K S M"
  shows "rst K S (nthreads M) \<noteq> ROwner \<Longrightarrow> t < nthreads M \<Longrightarrow> wcovered (log M (flag K)) (cur M t)"
    "rst K S (nthreads M) = ROwner \<Longrightarrow> covered (log M (flag K)) (cur M 0)"
    "S 1 \<in> unsent \<Longrightarrow> covered (log M (msg K)) (cur M 1)"
    "S 1 \<in> insert SWritten sent \<Longrightarrow> cell M (msg K) = payload K"
    "rst K S (nthreads M) \<in> {RPeeked, RTaken} \<Longrightarrow> covered (log M (msg K)) (cur M (rcv K))"
  using assms unfolding chan_know_def by metis+

section \<open>The receiver\<close>

text \<open>What the invariant says when the receiver \<open>t\<close> is about to access the flag.\<close>

lemma receiver:
  assumes inv: "chan_inv K S M" and t: "t < nthreads M" and s: "S t \<in> {RWait, RChecked, RSeen, RPeeked, RTaken, RRead}"
  shows "t = rcv K" "1 < nthreads M" "rst K S (nthreads M) = S t" "chan_run K S M" "t \<noteq> 1" "apart K \<longrightarrow> nthreads M = 3"
    "S 1 \<in> unsent \<union> sent" "0 \<noteq> t \<longrightarrow> apart K"
proof -
  have r: "roles K S (nthreads M)" using inv by (simp add: chan_inv_def)
  then consider (n1) "nthreads M = 1" "S 0 \<in> {Unborn, Start}"
    | (n2) "nthreads M = 2" "S 1 \<in> unsent \<union> sent" "\<not> apart K" | (n2a) "nthreads M = 2" "S 1 \<in> unsent \<union> sent" "S 0 = Between"
    | (n3) "nthreads M = 3" "apart K" "S 0 = Idle" "S 1 \<in> unsent \<union> sent"
    unfolding roles_def by (auto split: if_splits)
  then have "t = rcv K \<and> 1 < nthreads M \<and> t \<noteq> 1 \<and> (apart K \<longrightarrow> nthreads M = 3) \<and> S 1 \<in> unsent \<union> sent \<and> (0 \<noteq> t \<longrightarrow> apart K)"
  proof cases
    case n1
    with t s show ?thesis by auto
  next
    case n2
    with t have "t = 0 \<or> t = 1" by auto
    with n2 s show ?thesis by (auto simp: rcv_def)
  next
    case n2a
    with t have "t = 0 \<or> t = 1" by auto
    with n2a s show ?thesis by auto
  next
    case n3
    with t have "t = 0 \<or> t = 1 \<or> t = 2" by auto
    with n3 s show ?thesis by (auto simp: rcv_def)
  qed
  then show t: "t = rcv K" "1 < nthreads M" "t \<noteq> 1" "apart K \<longrightarrow> nthreads M = 3" "S 1 \<in> unsent \<union> sent" "0 \<noteq> t \<longrightarrow> apart K"
    by blast+
  show "rst K S (nthreads M) = S t" using t by (auto simp: rst_def)
  show "chan_run K S M" using inv t by (simp add: chan_inv_def)
qed

lemma receiver_upd:
  assumes inv: "chan_inv K S M" and t: "t < nthreads M" and s: "S t \<in> {RWait, RChecked, RSeen, RPeeked, RTaken, RRead}"
    and s': "s' \<in> receivers" "s' = ROwner \<longrightarrow> \<not> apart K"
  shows "roles K (S(t := s')) (nthreads M)" "rst K (S(t := s')) (nthreads M) = s'" "(S(t := s')) 1 = S 1"
proof -
  note r = receiver [OF inv t s]
  show "rst K (S(t := s')) (nthreads M) = s'" using r(1,6) by (auto simp: rst_def)
  show "(S(t := s')) 1 = S 1" using r(5) by simp
  have "roles K S (nthreads M)" using inv by (simp add: chan_inv_def)
  then show "roles K (S(t := s')) (nthreads M)"
    using r(1,2,5,6) s' s by (auto simp: roles_def rcv_def split: if_splits)
qed

lemma accessed_covered:
  assumes ac: "accessed t x k M M'" and t: "t < nthreads M" and "covered (log M y) (cur M u)" and "y \<noteq> x \<or> u = t"
  shows "covered (log M' y) (cur M' u)"
proof -
  from ac obtain n where n: "n \<le> cur M' t (Clk t)" "log M' = (log M)(x := (t, n, k) # log M x)"
    by (auto simp: accessed_def)
  have "covered (log M y) (cur M' u)" using assms(3) accessedD(6) [OF ac] by (rule covered_mono)
  with n assms(4) show ?thesis by auto
qed

lemma accessed_wcovered:
  assumes ac: "accessed t x k M M'" and "wcovered (log M y) (cur M u)" and "k \<noteq> NaWrite \<or> y \<noteq> x"
  shows "wcovered (log M' y) (cur M' u)"
proof -
  from ac obtain n where n: "log M' = (log M)(x := (t, n, k) # log M x)"
    by (auto simp: accessed_def)
  have "wcovered (log M y) (cur M' u)" using assms(2) accessedD(6) [OF ac] by (rule wcovered_mono)
  with n assms(3) show ?thesis by auto
qed

lemma accessed_logs_ok:
  assumes "logs_ok K M" and ac: "accessed t x k M M'" and "x = flag K \<longrightarrow> k \<noteq> NaRead"
    and "\<And>c. claim K = Some c \<Longrightarrow> c \<noteq> flag K \<Longrightarrow> x = c \<Longrightarrow> k \<in> {AtRead, AtWrite}"
  shows "logs_ok K M'"
proof -
  from ac obtain n where n: "log M' = (log M)(x := (t, n, k) # log M x)" by (auto simp: accessed_def)
  show ?thesis using assms(1,3,4) unfolding logs_ok_def n by (cases k) auto
qed

lemma receiver_access:
  assumes inv: "chan_inv K S M" and t: "t < nthreads M" and s: "S t \<in> {RWait, RSeen}"
    and ac: "accessed t (flag K) k M M'" and k: "k \<in> {AtRead, AtWrite}" and "cell M' = cell M"
    and ub: "ub M' = (ub M \<or> freed M (blk (flag K)) \<or> races k (cur M t) (log M (flag K)))"
    and s': "s' \<in> {RWait, RChecked, RSeen, RPeeked, RTaken}"
    and know: "s' \<in> {RPeeked, RTaken} \<Longrightarrow> covered (log M (msg K)) (cur M' t)"
    and unsent: "S 1 \<in> unsent \<Longrightarrow> chan_unsent K (S(t := s')) M'"
    and sent: "S 1 \<in> sent \<Longrightarrow> \<exists>p. chan_sent K (S(t := s')) M' p"
  shows "chan_inv K (S(t := s')) M'"
proof -
  let ?S = "S(t := s')"
  have s6: "S t \<in> {RWait, RChecked, RSeen, RPeeked, RTaken, RRead}" using s by auto
  note r = receiver [OF inv t s6] and n = accessedD(1) [OF ac]
  have upd: "roles K ?S (nthreads M)" "rst K ?S (nthreads M) = s'" "?S 1 = S 1"
    using receiver_upd [OF inv t s6, of s'] s' by auto
  have kn: "chan_know K S M" and ok: "chan_ok K" "logs_ok K M" "chan_alloc K M" "\<not> ub M" "set (out M) \<subseteq> prints K"
    using r(4) inv by (auto simp: chan_run_def chan_inv_def)
  have w: "\<And>u. u < nthreads M \<Longrightarrow> wcovered (log M (flag K)) (cur M u)"
    using knowD(1) [OF kn] r(3) s by auto
  have "\<not> races k (cur M t) (log M (flag K))"
    using no_race_atomic_w [OF w [OF t] _ k] ok(2) by (simp add: logs_ok_def)
  then have "\<not> ub M'" using ok ub by (simp add: chan_alloc_def)
  moreover have "logs_ok K M'"
    by (rule accessed_logs_ok [OF ok(2) ac]) (use k in auto)
  moreover have "chan_know K ?S M'"
    unfolding chan_know_def n upd
  proof (intro conjI impI)
    show "\<forall>u < nthreads M. wcovered (log M' (flag K)) (cur M' u)"
      using w accessed_wcovered [OF ac] k by auto
    show "covered (log M' (flag K)) (cur M' 0)" if "s' = ROwner" using that s' by auto
    show "covered (log M' (msg K)) (cur M' 1)" if "S 1 \<in> unsent"
      using knowD(3) [OF kn that] ok(1) accessed_covered [OF ac t] unfolding chan_ok_def by metis
    show "cell M' (msg K) = payload K" if "S 1 \<in> insert SWritten sent"
      using knowD(4) [OF kn that] \<open>cell M' = cell M\<close> by simp
    show "covered (log M' (msg K)) (cur M' (rcv K))" if "s' \<in> {RPeeked, RTaken}"
      using know [OF that] accessedD(9) [OF ac, of "msg K"] ok(1) r(1) by (auto simp: chan_ok_def)
  qed
  moreover have "chan_alloc K M'" "set (out M') \<subseteq> prints K"
    using ok accessedD(2,5) [OF ac] by (simp_all add: chan_alloc_def)
  ultimately show ?thesis
    using ok(1) upd r(2) unsent sent unfolding chan_inv_def chan_run_def n by simp
qed

lemma sentD:
  assumes "chan_sent K S M s"
  shows "\<exists>x. hist M (flag K) s = Some x \<and> mval x = ready K \<and>
      (rst K S (nthreads M) \<in> {RWait, RChecked, RSeen} \<longrightarrow> covered (log M (msg K)) (mview x))"
    "hist M (flag K) k = Some x \<Longrightarrow> mval x = ready K \<Longrightarrow> k = s"
    "s < k \<Longrightarrow> hist M (flag K) k \<noteq> None \<Longrightarrow> rst K S (nthreads M) \<in> {RTaken, RRead, ROwner}"
    "rst K S (nthreads M) = RSeen \<Longrightarrow> s \<le> cur M (rcv K) (Ts (flag K))"
    "rst K S (nthreads M) \<in> {RTaken, RRead, ROwner} \<Longrightarrow> s < cur M (rcv K) (Ts (flag K))"
    "s \<le> cur M 1 (Ts (flag K))" "S 1 = SSent \<Longrightarrow> token M 0 = None" "S 1 = SDone \<Longrightarrow> \<not> apart K"
    "S 1 = SDone \<Longrightarrow> token M 0 = Some V \<Longrightarrow> s \<le> V (Ts (flag K))"
    "S 1 = SDone \<Longrightarrow> token M 0 = None \<Longrightarrow> s \<le> cur M 0 (Ts (flag K)) \<and> S 0 \<noteq> RChecked"
  using assms unfolding chan_sent_def by (auto split: option.splits)

lemma unsentD:
  assumes "chan_unsent K S M"
  shows "\<exists>k. chain (hist M (flag K)) k" "hist M (flag K) k = Some x \<Longrightarrow> mval x \<noteq> ready K"
    "rst K S (nthreads M) \<in> {RWait, RChecked}" "token M 0 = None"
    "S 1 = SFresh \<Longrightarrow> claim K = Some c \<Longrightarrow> \<exists>x. hist M c = [0 \<mapsto> x] \<and> mval x = free K"
  using assms unfolding chan_unsent_def by auto

text \<open>A receiver that has seen the flag, or was woken, reads nothing older than the message.\<close>

lemma receiver_reads:
  assumes inv: "chan_inv K S M" and t: "t < nthreads M" and s: "S t \<in> {RWait, RSeen}" and p: "chan_sent K S M p"
    and x: "hist M (flag K) ts = Some x" "cur M t (Ts (flag K)) \<le> ts"
  shows "ts \<le> p" "S t = RSeen \<or> S 1 = SDone \<and> token M 0 = None \<Longrightarrow> mval x = ready K" "mval x = ready K \<longleftrightarrow> ts = p"
proof -
  have s6: "S t \<in> {RWait, RChecked, RSeen, RPeeked, RTaken, RRead}" using s by auto
  note r = receiver [OF inv t s6]
  show le: "ts \<le> p"
    using sentD(3) [OF p, of ts] x(1) s r(3) by (cases "p < ts") auto
  from sentD(1) [OF p] obtain y where y: "hist M (flag K) p = Some y" "mval y = ready K" by blast
  show "mval x = ready K \<longleftrightarrow> ts = p" using sentD(2) [OF p x(1)] y x(1) by auto
  have "p \<le> cur M t (Ts (flag K))" if "S t = RSeen \<or> S 1 = SDone \<and> token M 0 = None"
  proof (cases "S t = RSeen")
    case True
    with sentD(4) [OF p] r(1,3) show ?thesis by simp
  next
    case False
    with that have "S 1 = SDone" "token M 0 = None" by auto
    with sentD(8,10) [OF p] r(8) show ?thesis by auto
  qed
  with le x y show "mval x = ready K" if "S t = RSeen \<or> S 1 = SDone \<and> token M 0 = None"
    using that by (metis le_antisym le_trans option.inject)
qed

text \<open>The history after the receiver's access at \<open>t\<close>, which did not remove the message.\<close>

lemma sent_kept:
  assumes inv: "chan_inv K S M" and t: "t < nthreads M" and s: "S t \<in> {RWait, RSeen}" and p: "chan_sent K S M p"
    and ac: "accessed t (flag K) k M M'" and s': "s' \<in> {RWait, RChecked, RSeen, RPeeked}"
    and h: "hist M' (flag K) p = hist M (flag K) p" "\<And>k x. k \<noteq> p \<Longrightarrow> hist M' (flag K) k = Some x \<Longrightarrow> k \<le> p \<and> mval x \<noteq> ready K"
    and seen: "s' = RSeen \<Longrightarrow> p \<le> cur M' t (Ts (flag K))"
    and chk: "s' = RChecked \<Longrightarrow> S 1 = SDone \<Longrightarrow> token M 0 \<noteq> None"
  shows "chan_sent K (S(t := s')) M' p"
proof -
  have s6: "S t \<in> {RWait, RChecked, RSeen, RPeeked, RTaken, RRead}" using s by auto
  note r = receiver [OF inv t s6]
  have upd: "rst K (S(t := s')) (nthreads M) = s'" "(S(t := s')) 1 = S 1"
    using receiver_upd [OF inv t s6, of s'] s' by auto
  have ne: "msg K \<noteq> flag K" using inv by (auto simp: chan_inv_def chan_ok_def)
  note eq = accessedD(1) [OF ac] accessedD(9) [OF ac ne] accessedD(10) [OF ac]
  have cur: "cur M u x \<le> cur M' u x" for u x using accessedD(6) [OF ac, of u] by (simp add: le_fun_def)
  from sentD(1) [OF p] s r(3) obtain x where x: "hist M (flag K) p = Some x" "mval x = ready K" "covered (log M (msg K)) (mview x)"
    by auto
  show ?thesis
    unfolding chan_sent_def eq upd
  proof (intro conjI impI allI)
    show "\<exists>x. hist M' (flag K) p = Some x \<and> mval x = ready K \<and> (s' \<in> {RWait, RChecked, RSeen} \<longrightarrow> covered (log M (msg K)) (mview x))"
      using h(1) x by simp
    show "k = p" if "hist M' (flag K) k = Some x" "mval x = ready K" for k x using h(2) [of k x] that by blast
    show "s' \<in> {RTaken, RRead, ROwner}" if "p < k" "hist M' (flag K) k \<noteq> None" for k
      using h(2) [of k] that by auto
    show "p \<le> cur M' (rcv K) (Ts (flag K))" if "s' = RSeen" using seen that r(1) by simp
    show "p < cur M' (rcv K) (Ts (flag K))" if "s' \<in> {RTaken, RRead, ROwner}" using s' that by auto
    show "p \<le> cur M' 1 (Ts (flag K))" using sentD(6) [OF p] cur le_trans by blast
    show "token M 0 = None" if "S 1 = SSent" using sentD(7) [OF p that] .
    show "\<not> apart K" if "S 1 = SDone" using sentD(8) [OF p that] .
    show "case token M 0 of None \<Rightarrow> p \<le> cur M' 0 (Ts (flag K)) \<and> (S(t := s')) 0 \<noteq> RChecked | Some V \<Rightarrow> p \<le> V (Ts (flag K))"
      if "S 1 = SDone"
    proof (cases "token M 0")
      case None
      with sentD(10) [OF p that None] chk that le_trans [OF _ cur] show ?thesis by auto
    next
      case (Some V)
      with sentD(9) [OF p that Some] show ?thesis by simp
    qed
  qed
qed

lemma unsent_kept:
  assumes inv: "chan_inv K S M" and t: "t < nthreads M" and s: "S t \<in> {RWait, RSeen}" and un: "chan_unsent K S M"
    and ac: "accessed t (flag K) k M M'" and s': "s' \<in> {RWait, RChecked}"
    and h: "\<exists>k. chain (hist M' (flag K)) k" "\<And>k x. hist M' (flag K) k = Some x \<Longrightarrow> mval x \<noteq> ready K"
    and c: "\<And>c. claim K = Some c \<Longrightarrow> hist M' c = hist M c"
  shows "chan_unsent K (S(t := s')) M'"
proof -
  have s6: "S t \<in> {RWait, RChecked, RSeen, RPeeked, RTaken, RRead}" using s by auto
  have upd: "rst K (S(t := s')) (nthreads M) = s'" "(S(t := s')) 1 = S 1"
    using receiver_upd [OF inv t s6, of s'] s' by auto
  show ?thesis
    using un h s' c unfolding chan_unsent_def accessedD(1,10) [OF ac] upd by auto
qed

lemma receiver_load:
  assumes inv: "chan_inv K S M" and t: "t < nthreads M" and s: "S t \<in> {RWait, RSeen}"
    and ls: "load_step t (flag K) o1 ts M M' m"
    and s': "if mval m = ready K then s' = RSeen \<or> acquires o1 \<and> s' = RPeeked else s' = RChecked"
  shows "chan_inv K (S(t := s')) M'"
proof -
  from ls have ac: "accessed t (flag K) AtRead M M'" and m: "hist M (flag K) ts = Some m" "cur M t (Ts (flag K)) \<le> ts"
      "ts \<le> cur M' t (Ts (flag K))" "acquires o1 \<Longrightarrow> mview m \<le> cur M' t"
    and ub: "ub M' = (ub M \<or> freed M (blk (flag K)) \<or> races AtRead (cur M t) (log M (flag K)))"
    and eq: "hist M' = hist M" "cell M' = cell M"
    by (auto simp: load_step_def)
  have s6: "S t \<in> {RWait, RChecked, RSeen, RPeeked, RTaken, RRead}" using s by auto
  note r = receiver [OF inv t s6]
  show ?thesis
  proof (rule receiver_access [OF inv t s ac _ eq(2) ub])
    show "s' \<in> {RWait, RChecked, RSeen, RPeeked, RTaken}" using s' by (auto split: if_splits)
    show "covered (log M (msg K)) (cur M' t)" if "s' \<in> {RPeeked, RTaken}"
    proof -
      from that s' have rd: "mval m = ready K" "acquires o1" by (auto split: if_splits)
      then have "S 1 \<notin> unsent" using r(4) unsentD(2) [OF _ m(1)] by (auto simp: chan_run_def)
      with r(4,7) obtain p where p: "chan_sent K S M p" by (auto simp: chan_run_def)
      from sentD(1) [OF p] sentD(2) [OF p m(1) rd(1)] m(1) s r(3) have "covered (log M (msg K)) (mview m)" by auto
      then show ?thesis using m(4) [OF rd(2)] by (rule covered_mono)
    qed
    show "chan_unsent K (S(t := s')) M'" if "S 1 \<in> unsent"
    proof -
      have un: "chan_unsent K S M" using r(4) that by (auto simp: chan_run_def)
      show ?thesis
        using s' unsentD(1,2) [OF un] m(1) unfolding eq(1)
        by (intro unsent_kept [OF inv t s un ac]) (auto simp: eq(1))
    qed
    show "\<exists>p. chan_sent K (S(t := s')) M' p" if "S 1 \<in> sent"
    proof -
      from that r(4) obtain p where p: "chan_sent K S M p" by (auto simp: chan_run_def)
      note rd = receiver_reads [OF inv t s p m(1,2)]
      have "k \<le> p \<and> mval x \<noteq> ready K" if "k \<noteq> p" "hist M' (flag K) k = Some x" for k x
        using that sentD(2,3) [OF p, of k] s r(3) unfolding eq(1) by (cases "p < k") auto
      then have "chan_sent K (S(t := s')) M' p"
        using rd s' m(3) by (intro sent_kept [OF inv t s p ac]) (auto simp: eq(1) split: if_splits)
      then show ?thesis ..
    qed
  qed simp
qed

lemma receiver_swap:
  assumes inv: "chan_inv K S M" and t: "t < nthreads M" and s: "S t \<in> {RWait, RSeen}"
    and rs: "rmw_step t (flag K) os ts M M' m m'" and v: "mval m \<noteq> ready K" "mval m' \<noteq> ready K" and c: "claim K \<noteq> Some (flag K)"
  shows "chan_inv K (S(t := RChecked)) M'"
proof -
  from rs have ac: "accessed t (flag K) AtWrite M M'" and m: "hist M (flag K) ts = Some m" "cur M t (Ts (flag K)) \<le> ts"
      "hist M (flag K) (Suc ts) = None"
    and ub: "ub M' = (ub M \<or> freed M (blk (flag K)) \<or> races AtWrite (cur M t) (log M (flag K)))"
    and eq: "hist M' = (hist M)(flag K := (hist M (flag K))(Suc ts \<mapsto> m'))" "cell M' = cell M"
    by (auto simp: rmw_step_def)
  have s6: "S t \<in> {RWait, RChecked, RSeen, RPeeked, RTaken, RRead}" using s by auto
  note r = receiver [OF inv t s6]
  show ?thesis
  proof (rule receiver_access [OF inv t s ac _ eq(2) ub])
    show "chan_unsent K (S(t := RChecked)) M'" if "S 1 \<in> unsent"
    proof -
      have un: "chan_unsent K S M" using r(4) that by (auto simp: chan_run_def)
      from unsentD(1) [OF un] obtain k where k: "chain (hist M (flag K)) k" ..
      with m have "ts = k" by (intro chain_last)
      then have "chain (hist M' (flag K)) (Suc k)" using chain_upd [OF k, of m'] by (simp add: eq(1))
      then show ?thesis
        using unsentD(2) [OF un] v c
        by (intro unsent_kept [OF inv t s un ac]) (auto simp: eq(1) split: if_splits)
    qed
    show "\<exists>p. chan_sent K (S(t := RChecked)) M' p" if "S 1 \<in> sent"
    proof -
      from that r(4) obtain p where p: "chan_sent K S M p" by (auto simp: chan_run_def)
      note rd = receiver_reads [OF inv t s p m(1,2)]
      from sentD(1) [OF p] m(3) rd(1,3) v have ts: "Suc ts < p" by (cases "Suc ts = p") auto
      have "k \<le> p \<and> mval x \<noteq> ready K" if "k \<noteq> p" "hist M' (flag K) k = Some x" for k x
      proof (cases "k = Suc ts")
        case True
        with ts v that show ?thesis by (auto simp: eq(1))
      next
        case False
        with that have "hist M (flag K) k = Some x" by (simp add: eq(1))
        with that sentD(2,3) [OF p, of k] s r(3) show ?thesis by (cases "p < k") auto
      qed
      then have "chan_sent K (S(t := RChecked)) M' p"
        using rd v ts by (intro sent_kept [OF inv t s p ac]) (auto simp: eq(1) split: if_splits)
      then show ?thesis ..
    qed
  qed auto
qed

lemma receiver_take:
  assumes inv: "chan_inv K S M" and t: "t < nthreads M" and s: "S t \<in> {RWait, RSeen}"
    and rs: "rmw_step t (flag K) os ts M M' m m'" and v: "mval m = ready K" "mval m' \<noteq> ready K" and "acquires os"
  shows "chan_inv K (S(t := RTaken)) M'"
proof -
  from rs \<open>acquires os\<close> have ac: "accessed t (flag K) AtWrite M M'" and m: "hist M (flag K) ts = Some m" "cur M t (Ts (flag K)) \<le> ts"
      "hist M (flag K) (Suc ts) = None" "Suc ts \<le> cur M' t (Ts (flag K))" "mview m \<le> cur M' t"
    and ub: "ub M' = (ub M \<or> freed M (blk (flag K)) \<or> races AtWrite (cur M t) (log M (flag K)))"
    and eq: "hist M' = (hist M)(flag K := (hist M (flag K))(Suc ts \<mapsto> m'))" "cell M' = cell M"
    by (auto simp: rmw_step_def)
  have s6: "S t \<in> {RWait, RChecked, RSeen, RPeeked, RTaken, RRead}" using s by auto
  note r = receiver [OF inv t s6]
  have "S 1 \<notin> unsent" using r(4) unsentD(2) [OF _ m(1)] v by (auto simp: chan_run_def)
  with r(4,7) obtain p where p: "chan_sent K S M p" and S1: "S 1 \<in> sent" by (auto simp: chan_run_def)
  have ts: "ts = p" using sentD(2) [OF p m(1) v(1)] .
  have upd: "rst K (S(t := RTaken)) (nthreads M) = RTaken" "(S(t := RTaken)) 1 = S 1"
    using receiver_upd [OF inv t s6, of RTaken] by auto
  have cur: "cur M u x \<le> cur M' u x" for u x using accessedD(6) [OF ac, of u] by (simp add: le_fun_def)
  show ?thesis
  proof (rule receiver_access [OF inv t s ac _ eq(2) ub])
    show "covered (log M (msg K)) (cur M' t)"
      using sentD(1) [OF p] m(1,5) ts s r(3) by (auto intro: covered_mono)
    have "chan_sent K (S(t := RTaken)) M' p"
      unfolding chan_sent_def accessedD(1,10) [OF ac] upd
    proof (intro conjI impI allI)
      show "\<exists>x. hist M' (flag K) p = Some x \<and> mval x = ready K \<and>
          (RTaken \<in> {RWait, RChecked, RSeen} \<longrightarrow> covered (log M' (msg K)) (mview x))"
        using m(1) v(1) by (simp add: eq(1) ts)
      show "k = p" if "hist M' (flag K) k = Some x" "mval x = ready K" for k x
        using that v(2) sentD(2) [OF p, of k x] by (cases "k = Suc ts") (auto simp: eq(1))
      show "p < cur M' (rcv K) (Ts (flag K))" using m(4) ts r(1) by simp
      show "p \<le> cur M' 1 (Ts (flag K))" using sentD(6) [OF p] cur le_trans by blast
      show "token M 0 = None" if "S 1 = SSent" using sentD(7) [OF p that] .
      show "\<not> apart K" if "S 1 = SDone" using sentD(8) [OF p that] .
      show "case token M 0 of None \<Rightarrow> p \<le> cur M' 0 (Ts (flag K)) \<and> (S(t := RTaken)) 0 \<noteq> RChecked | Some V \<Rightarrow> p \<le> V (Ts (flag K))"
        if "S 1 = SDone"
      proof (cases "token M 0")
        case None
        with sentD(10) [OF p that None] le_trans [OF _ cur] show ?thesis by auto
      next
        case (Some V)
        with sentD(9) [OF p that Some] show ?thesis by simp
      qed
    qed auto
    then show "\<exists>p. chan_sent K (S(t := RTaken)) M' p" ..
    show "chan_unsent K (S(t := RTaken)) M'" if "S 1 \<in> unsent" using that S1 by auto
  qed auto
qed

text \<open>Steps of the receiver that leave the flag alone.\<close>

lemma sent_moves:
  assumes p: "chan_sent K S M p" and rs: "rst K S (nthreads M) = s" "rst K (S(t := s')) (nthreads M) = s'" and t: "t \<noteq> 1"
    and eq: "hist M' (flag K) = hist M (flag K)" "token M' = token M" "nthreads M' = nthreads M"
    and cur: "\<And>u x. cur M u x \<le> cur M' u x"
    and s': "s' \<in> {RWait, RChecked, RSeen} \<Longrightarrow> s \<in> {RWait, RChecked, RSeen} \<and> log M' (msg K) = log M (msg K)"
      "s' = RSeen \<Longrightarrow> s = RSeen" "s' = RChecked \<Longrightarrow> s = RChecked \<and> S t = RChecked"
      "s' \<in> {RTaken, RRead, ROwner} \<longleftrightarrow> s \<in> {RTaken, RRead, ROwner}"
  shows "chan_sent K (S(t := s')) M' p"
proof -
  have S1: "(S(t := s')) 1 = S 1" using t by simp
  from sentD(1) [OF p] obtain x where x: "hist M (flag K) p = Some x" "mval x = ready K"
      "s \<in> {RWait, RChecked, RSeen} \<longrightarrow> covered (log M (msg K)) (mview x)"
    unfolding rs by blast
  show ?thesis
    unfolding chan_sent_def eq S1 rs(2)
  proof (intro conjI impI allI)
    show "\<exists>x. hist M (flag K) p = Some x \<and> mval x = ready K \<and> (s' \<in> {RWait, RChecked, RSeen} \<longrightarrow> covered (log M' (msg K)) (mview x))"
      using x s'(1) by metis
    show "k = p" if "hist M (flag K) k = Some y" "mval y = ready K" for k y using sentD(2) [OF p that] .
    show "s' \<in> {RTaken, RRead, ROwner}" if "p < k" "hist M (flag K) k \<noteq> None" for k
      using sentD(3) [OF p that] s'(4) unfolding rs by simp
    show "p \<le> cur M' (rcv K) (Ts (flag K))" if "s' = RSeen"
      using sentD(4) [OF p] s'(2) [OF that] cur le_trans unfolding rs by blast
    show "p < cur M' (rcv K) (Ts (flag K))" if "s' \<in> {RTaken, RRead, ROwner}"
      using sentD(5) [OF p] that s'(4) cur less_le_trans unfolding rs by blast
    show "p \<le> cur M' 1 (Ts (flag K))" using sentD(6) [OF p] cur le_trans by blast
    show "token M 0 = None" if "S 1 = SSent" using sentD(7) [OF p that] .
    show "\<not> apart K" if "S 1 = SDone" using sentD(8) [OF p that] .
    show "case token M 0 of None \<Rightarrow> p \<le> cur M' 0 (Ts (flag K)) \<and> (S(t := s')) 0 \<noteq> RChecked | Some V \<Rightarrow> p \<le> V (Ts (flag K))"
      if "S 1 = SDone"
    proof (cases "token M 0")
      case None
      with sentD(10) [OF p that None] s'(3) le_trans [OF _ cur] show ?thesis by auto
    next
      case (Some V)
      with sentD(9) [OF p that Some] show ?thesis by simp
    qed
  qed
qed

lemma receiver_read:
  assumes inv: "chan_inv K S M" and t: "t < nthreads M" and s: "S t = RTaken \<and> s' = RRead \<or> S t = RPeeked \<and> s' = RGone"
    and M': "M' = m_read t (msg K) M"
  shows "chan_inv K (S(t := s')) M'" "cell M (msg K) = payload K"
proof -
  let ?S = "S(t := s')"
  have s6: "S t \<in> {RWait, RChecked, RSeen, RPeeked, RTaken, RRead}" using s by auto
  note r = receiver [OF inv t s6]
  have upd: "roles K ?S (nthreads M)" "rst K ?S (nthreads M) = s'" "?S 1 = S 1"
    using receiver_upd [OF inv t s6, of s'] s by auto
  have kn: "chan_know K S M" and ok: "chan_ok K" "logs_ok K M" "chan_alloc K M" "\<not> ub M" "set (out M) \<subseteq> prints K"
    using r(4) inv by (auto simp: chan_run_def chan_inv_def)
  have "S 1 \<notin> unsent" using r(3,4) unsentD(3) [of K S M] s by (auto simp: chan_run_def)
  with r(4,7) obtain p where p: "chan_sent K S M p" and S1: "S 1 \<in> sent" by (auto simp: chan_run_def)
  show cell: "cell M (msg K) = payload K" using knowD(4) [OF kn] S1 by auto
  have "cell_step t (msg K) NaRead M M'" unfolding M' by (rule m_cell_step)
  then have ac: "accessed t (msg K) NaRead M M'" and hist: "hist M' = hist M" by (auto simp: cell_step_def)
  note n = accessedD(1) [OF ac]
  have ne: "flag K \<noteq> msg K" using ok(1) by (simp add: chan_ok_def)
  have "covered (log M (msg K)) (cur M t)" using knowD(5) [OF kn] r(1,3) s by auto
  then have "\<not> ub M'" using ok cell by (auto simp: M' m_cell_step chan_alloc_def chan_ok_def)
  moreover have "logs_ok K M'"
    by (rule accessed_logs_ok [OF ok(2) ac]) (use ok(1) in \<open>auto simp: chan_ok_def\<close>)
  moreover have "chan_know K ?S M'"
    unfolding chan_know_def n upd
  proof (intro conjI impI)
    show "\<forall>u < nthreads M. wcovered (log M' (flag K)) (cur M' u)"
      using knowD(1) [OF kn] r(3) s accessed_wcovered [OF ac] ne by auto
    show "cell M' (msg K) = payload K" using cell by (simp add: M' m_cell_step)
  qed (use s S1 in auto)
  moreover have "chan_sent K ?S M' p"
    using s accessedD(6) [OF ac]
    by (intro sent_moves [OF p r(3) upd(2) r(5)]) (auto simp: hist n accessedD(10) [OF ac] le_fun_def)
  moreover have "chan_alloc K M'" "set (out M') \<subseteq> prints K"
    using ok accessedD(2,5) [OF ac] by (simp_all add: chan_alloc_def)
  ultimately show "chan_inv K ?S M'"
    using ok(1) upd r(2) S1 unfolding chan_inv_def chan_run_def n by auto
qed

lemma receiver_moves:
  assumes inv: "chan_inv K S M" and t: "t < nthreads M" and s: "S t = RChecked \<and> s' = RWait \<or> S t = RRead \<and> s' = ROwner"
    and own: "s' = ROwner \<Longrightarrow> \<not> apart K \<and> covered (log M' (flag K)) (cur M' 0)"
    and l: "learns M M'" and out: "set (out M') \<subseteq> prints K"
  shows "chan_inv K (S(t := s')) M'"
proof -
  let ?S = "S(t := s')"
  have s6: "S t \<in> {RWait, RChecked, RSeen, RPeeked, RTaken, RRead}" using s by auto
  note r = receiver [OF inv t s6]
  have upd: "roles K ?S (nthreads M)" "rst K ?S (nthreads M) = s'" "?S 1 = S 1"
    using receiver_upd [OF inv t s6, of s'] s own by auto
  have inv': "chan_inv K S M'" using inv l out by (rule inv_learns)
  have eq: "nthreads M' = nthreads M" "hist M' = hist M" "token M' = token M" "log M' = log M" using l by (auto simp: learns_def)
  have kn: "chan_know K S M'" and run: "chan_run K S M'"
    using inv' r(2) eq by (auto simp: chan_inv_def chan_run_def)
  have "chan_know K ?S M'"
    unfolding chan_know_def eq(1) upd
  proof (intro conjI impI)
    show "\<forall>u < nthreads M. wcovered (log M' (flag K)) (cur M' u)" if "s' \<noteq> ROwner"
      using knowD(1) [OF kn] r(3) s eq by auto
    show "covered (log M' (flag K)) (cur M' 0)" if "s' = ROwner" using own that by simp
    show "covered (log M' (msg K)) (cur M' 1)" if "S 1 \<in> unsent" using knowD(3) [OF kn that] .
    show "cell M' (msg K) = payload K" if "S 1 \<in> insert SWritten sent" using knowD(4) [OF kn that] .
  qed (use s in auto)
  moreover have "chan_unsent K ?S M'" if "S 1 \<in> unsent"
  proof -
    have un: "chan_unsent K S M'" using run that by (auto simp: chan_run_def)
    then have "S t = RChecked" using unsentD(3) [OF un] r(3) s unfolding eq by auto
    with un s show ?thesis unfolding chan_unsent_def eq(1) upd by auto
  qed
  moreover have "\<exists>p. chan_sent K ?S M' p" if "S 1 \<in> sent"
  proof -
    from run that obtain p where p: "chan_sent K S M' p" by (auto simp: chan_run_def)
    have "chan_sent K ?S M' p"
      using s by (intro sent_moves [OF p r(3) [folded eq(1)] upd(2) [folded eq(1)] r(5)]) auto
    then show ?thesis ..
  qed
  ultimately show ?thesis
    using inv' upd(1,3) r(2) unfolding chan_inv_def chan_run_def eq(1) by simp
qed

lemma receiver_park:
  assumes inv: "chan_inv K S M" and t: "t < nthreads M" and s: "S t = RChecked" and a: "\<not> apart K"
    and ex: "m_park sp t M = Some M'"
  shows "chan_inv K (S(t := RWait)) M'"
proof (cases sp)
  case True
  with ex have "M' = M" by (simp add: m_park_def)
  with inv s show ?thesis
    by (intro receiver_moves [OF inv t]) (auto simp: learns_def chan_inv_def)
next
  case False
  let ?S = "S(t := RWait)"
  have s6: "S t \<in> {RWait, RChecked, RSeen, RPeeked, RTaken, RRead}" using s by auto
  note r = receiver [OF inv t s6]
  have t0: "t = 0" using r(8) a by blast
  from False ex t0 obtain V where V: "token M 0 = Some V"
    and M': "M' = M\<lparr>cur := (cur M)(0 := sup (cur M 0) V), token := (token M)(0 := None)\<rparr>"
    by (auto simp: m_park_def split: option.splits)
  have "S 1 \<notin> unsent" using r(4) unsentD(4) [of K S M] V by (auto simp: chan_run_def)
  with r(4,7) obtain p where p: "chan_sent K S M p" by (auto simp: chan_run_def)
  with V \<open>S 1 \<notin> unsent\<close> r(7) have S1: "S 1 = SDone" using sentD(7) [OF p] by auto
  let ?M = "M\<lparr>cur := (cur M)(0 := sup (cur M 0) V)\<rparr>"
  have "chan_inv K ?S ?M"
    using inv s by (intro receiver_moves [OF inv t]) (auto simp: learns_def chan_inv_def)
  then have inv': "chan_inv K ?S ?M" .
  have n: "nthreads M' = nthreads ?M" by (simp add: M')
  have "\<exists>q. chan_sent K ?S ?M q" using inv' S1 r(2,5) by (simp add: chan_inv_def chan_run_def)
  then obtain q where q: "chan_sent K ?S ?M q" ..
  have le: "q \<le> sup (cur M 0) V (Ts (flag K))"
    using sentD(9) [OF q, of V] S1 r(5) V by (simp add: le_max_iff_disj)
  have "chan_sent K ?S M' q"
    using q S1 r(5) le t0 unfolding chan_sent_def n by (simp add: M')
  moreover have "chan_know K ?S M'" using inv' r(2) by (simp add: chan_inv_def chan_run_def chan_know_def M')
  ultimately show ?thesis
    using inv' S1 r(2,5) unfolding chan_inv_def chan_run_def n
    by (auto simp: chan_alloc_def logs_ok_def M')
qed

lemma receiver_join:
  assumes inv: "chan_inv K S M" and t: "t < nthreads M" and s: "S t = RRead" and a: "\<not> apart K" and wf: "wf_mem (m_join t 1 M)"
  shows "chan_inv K (S(t := ROwner)) (m_join t 1 M)"
proof -
  have s6: "S t \<in> {RWait, RChecked, RSeen, RPeeked, RTaken, RRead}" using s by auto
  note r = receiver [OF inv t s6]
  have t0: "t = 0" using r(8) a by blast
  have "nthreads M = 2" using inv r(2) a by (auto simp: chan_inv_def roles_def)
  then have "cur (m_join t 1 M) u (Clk u) \<le> cur (m_join t 1 M) 0 (Clk u)" if "u < nthreads (m_join t 1 M)" for u
    using that t0 by (auto simp: m_join_def less_2_cases_iff)
  then have "covered (log (m_join t 1 M) (flag K)) (cur (m_join t 1 M) 0)"
    by (intro covered_all [OF wf])
  with inv s a show ?thesis
    by (intro receiver_moves [OF inv t]) (auto simp: learns_def m_join_def chan_inv_def)
qed

lemma owner_get_mut:
  assumes inv: "chan_inv K S M" and wf: "wf_mem M" and t: "t < nthreads M" and s: "S t = ROwner" and ex: "m_get_mut t (flag K) M = Some (v, M')"
  shows "chan_inv K S M'" "v \<noteq> ready K"
proof -
  have roles: "roles K S (nthreads M)" using inv by (simp add: chan_inv_def)
  then have t0: "t = 0" and n2: "nthreads M = 2" and a: "\<not> apart K" and S1: "S 1 \<in> unsent \<union> sent"
    using t s by (cases rule: role_cases; auto)+
  have rs: "rst K S (nthreads M) = ROwner" "rcv K = 0" using a s t0 by (simp_all add: rst_def rcv_def)
  have run: "chan_run K S M" using inv n2 by (simp add: chan_inv_def)
  then have "S 1 \<notin> unsent" using unsentD(3) [of K S M] rs by (auto simp: chan_run_def)
  with run S1 obtain p where p: "chan_sent K S M p" and S1: "S 1 \<in> sent" by (auto simp: chan_run_def)
  have kn: "chan_know K S M" using run by (simp add: chan_run_def)
  from ex obtain x where x: "hist M (flag K) (cur M 0 (Ts (flag K))) = Some x" "v = mval x" and M': "M' = touch NaWrite 0 (flag K) M"
    by (auto simp: m_get_mut_def t0)
  show "v \<noteq> ready K"
    using sentD(2) [OF p x(1)] sentD(5) [OF p] rs x(2) by auto
  have ac: "accessed 0 (flag K) NaWrite M M'" and eq: "hist M' = hist M" "cell M' = cell M"
    unfolding M' by (auto simp: accessed_def touch_def Let_def le_fun_def)
  note n = accessedD(1) [OF ac]
  have ok: "chan_ok K" "logs_ok K M" "chan_alloc K M" "\<not> ub M" "set (out M) \<subseteq> prints K"
    using inv by (auto simp: chan_inv_def)
  have ne: "msg K \<noteq> flag K" using ok(1) by (auto simp: chan_ok_def)
  have cov: "covered (log M (flag K)) (cur M 0)" using knowD(2) [OF kn rs(1)] .
  then have "\<not> ub M'" using ok by (simp add: M' touch_def Let_def chan_alloc_def)
  moreover have "logs_ok K M'" by (rule accessed_logs_ok [OF ok(2) ac]) auto
  moreover have "chan_know K S M'"
    unfolding chan_know_def n rs
  proof (intro conjI impI)
    show "covered (log M' (flag K)) (cur M' 0)" using cov n2 by (intro accessed_covered [OF ac]) auto
    show "cell M' (msg K) = payload K" using knowD(4) [OF kn] S1 eq by auto
  qed (use S1 in auto)
  moreover have "chan_sent K S M' p"
    using sent_moves [OF p rs(1), of 0 ROwner M'] s t0 rs accessedD(6) [OF ac] eq n accessedD(10) [OF ac]
    by (simp add: le_fun_def fun_upd_idem)
  moreover have "chan_alloc K M'" "set (out M') \<subseteq> prints K"
    using ok accessedD(2,5) [OF ac] by (simp_all add: chan_alloc_def)
  ultimately show "chan_inv K S M'"
    using ok(1) roles n2 S1 unfolding chan_inv_def chan_run_def n by auto
qed

section \<open>The sender\<close>

lemma sender:
  assumes inv: "chan_inv K S M" and t: "t < nthreads M" and s: "S t \<in> unsent \<union> sent"
  shows "t = 1" "1 < nthreads M" "chan_run K S M" "rst K (S(1 := s')) (nthreads M) = rst K S (nthreads M)"
    "s' \<in> unsent \<union> sent \<Longrightarrow> roles K (S(1 := s')) (nthreads M)"
proof -
  have r: "roles K S (nthreads M)" using inv by (simp add: chan_inv_def)
  then consider (n1) "nthreads M = 1" "S 0 \<in> {Unborn, Start}"
    | (n2) "nthreads M = 2" "S 0 \<in> insert Between receivers" | (n3) "nthreads M = 3" "S 0 = Idle" "S 2 \<in> receivers"
    unfolding roles_def by (auto split: if_splits)
  then have "t = 1 \<and> 1 < nthreads M"
  proof cases
    case n1
    with t s show ?thesis by auto
  next
    case n2
    with t have "t = 0 \<or> t = 1" by auto
    with n2 s show ?thesis by auto
  next
    case n3
    with t have "t = 0 \<or> t = 1 \<or> t = 2" by auto
    with n3 s show ?thesis by auto
  qed
  then show t: "t = 1" "1 < nthreads M" by auto
  show "chan_run K S M" using inv t by (simp add: chan_inv_def)
  show "rst K (S(1 := s')) (nthreads M) = rst K S (nthreads M)" by (auto simp: rst_def rcv_def)
  show "roles K (S(1 := s')) (nthreads M)" if "s' \<in> unsent \<union> sent"
    using r t that by (auto simp: roles_def split: if_splits)
qed

text \<open>The sender's accesses before the message is sent.\<close>

lemma sender_access:
  assumes inv: "chan_inv K S M" and t: "t < nthreads M" and s: "S t \<in> unsent"
    and ac: "accessed t x k M M'" and ub: "\<not> ub M'"
    and s': "s' \<in> unsent \<union> sent" and x: "x = flag K \<longrightarrow> k \<in> {AtRead, AtWrite}"
      "\<And>c. claim K = Some c \<Longrightarrow> c \<noteq> flag K \<Longrightarrow> x = c \<Longrightarrow> k \<in> {AtRead, AtWrite}"
    and cell: "s' \<in> insert SWritten sent \<Longrightarrow> cell M' (msg K) = payload K"
    and unsent: "s' \<in> unsent \<Longrightarrow> chan_unsent K (S(t := s')) M'"
    and sent: "s' \<in> sent \<Longrightarrow> \<exists>p. chan_sent K (S(t := s')) M' p"
  shows "chan_inv K (S(t := s')) M'"
proof -
  have s2: "S t \<in> unsent \<union> sent" using s by auto
  note r = sender [OF inv t s2] and n = accessedD(1) [OF ac]
  note t1 = r(1) and n1 = r(2) and run = r(3)
  let ?S = "S(1 := s')"
  have upd: "roles K ?S (nthreads M)" "rst K ?S (nthreads M) = rst K S (nthreads M)" using r(4,5) s' by auto
  have kn: "chan_know K S M" and un: "chan_unsent K S M" and ok: "chan_ok K" "logs_ok K M" "chan_alloc K M" "set (out M) \<subseteq> prints K"
    using run s t1 inv by (auto simp: chan_run_def chan_inv_def)
  have rs: "rst K S (nthreads M) \<in> {RWait, RChecked}" using unsentD(3) [OF un] .
  have "logs_ok K M'"
    by (rule accessed_logs_ok [OF ok(2) ac]) (use x in auto)
  moreover have "chan_know K ?S M'"
    unfolding chan_know_def n upd(2)
  proof (intro conjI impI)
    show "\<forall>u < nthreads M. wcovered (log M' (flag K)) (cur M' u)"
      using knowD(1) [OF kn] rs accessed_wcovered [OF ac] x(1) by auto
    show "covered (log M' (msg K)) (cur M' 1)"
      using knowD(3) [OF kn] s t1 accessed_covered [OF ac t] by auto
    show "cell M' (msg K) = payload K" if "?S 1 \<in> insert SWritten sent" using cell that by auto
  qed (use rs in auto)
  moreover have "chan_alloc K M'" "set (out M') \<subseteq> prints K"
    using ok accessedD(2,5) [OF ac] by (simp_all add: chan_alloc_def)
  ultimately show ?thesis
    using ok(1) ub upd(1) n1 unsent sent t1 s' unfolding chan_inv_def chan_run_def n by auto
qed

lemma sender_unsent:
  assumes inv: "chan_inv K S M" and t: "t < nthreads M" and s: "S t \<in> unsent"
  shows "t = 1" "1 < nthreads M" "chan_know K S M" "chan_unsent K S M"
    "rst K (S(t := s')) (nthreads M) = rst K S (nthreads M)" "rst K S (nthreads M) \<in> {RWait, RChecked}"
proof -
  have s2: "S t \<in> unsent \<union> sent" using s by auto
  note r = sender [OF inv t s2]
  show "t = 1" "1 < nthreads M" "chan_know K S M" "rst K (S(t := s')) (nthreads M) = rst K S (nthreads M)"
    using r by (auto simp: chan_run_def)
  show un: "chan_unsent K S M" using r(1,3) s by (auto simp: chan_run_def)
  show "rst K S (nthreads M) \<in> {RWait, RChecked}" using unsentD(3) [OF un] .
qed

lemma sender_claim:
  assumes inv: "chan_inv K S M" and t: "t < nthreads M" and s: "S t = SFresh" and c: "claim K = Some c"
    and rs: "rmw_step t c os ts M M' m m'" and v: "c = flag K \<longrightarrow> mval m' \<noteq> ready K"
  shows "chan_inv K (S(t := SReady)) M'"
proof -
  have s3: "S t \<in> unsent" using s by simp
  note u = sender_unsent [OF inv t s3]
  have ok: "chan_ok K" "logs_ok K M" "chan_alloc K M" "\<not> ub M" using inv by (auto simp: chan_inv_def)
  from rs have ac: "accessed t c AtWrite M M'" and m: "hist M c ts = Some m"
    and ub: "ub M' = (ub M \<or> freed M (blk c) \<or> races AtWrite (cur M t) (log M c))"
    and eq: "hist M' = (hist M)(c := (hist M c)(Suc ts \<mapsto> m'))" "cell M' = cell M"
    by (auto simp: rmw_step_def)
  note n = accessedD(1) [OF ac]
  from unsentD(5) [OF u(4) _ c] s u(1) obtain x where x: "hist M c = [0 \<mapsto> x]" by auto
  with m have ts: "ts = 0" by (auto split: if_splits)
  have "\<not> races AtWrite (cur M t) (log M c)"
  proof (cases "c = flag K")
    case True
    with knowD(1) [OF u(3) _ t] u(6) ok(2) show ?thesis
      by (intro no_race_atomic_w) (auto simp: logs_ok_def)
  next
    case False
    with ok(2) c show ?thesis by (auto simp: logs_ok_def)
  qed
  then have nub: "\<not> ub M'" using ub ok c by (auto simp: chan_alloc_def)
  have h: "\<exists>k. chain (hist M' (flag K)) k" "\<And>k y. hist M' (flag K) k = Some y \<Longrightarrow> mval y \<noteq> ready K"
  proof -
    show "\<exists>k. chain (hist M' (flag K)) k"
    proof (cases "c = flag K")
      case True
      then have "chain (hist M' (flag K)) (Suc 0)"
        using chain_upd [OF chain_0, of x m'] x by (simp add: eq(1) ts)
      then show ?thesis ..
    qed (use unsentD(1) [OF u(4)] in \<open>simp add: eq(1)\<close>)
    show "mval y \<noteq> ready K" if "hist M' (flag K) k = Some y" for k y
      using that unsentD(2) [OF u(4), of k y] v by (auto simp: eq(1) split: if_splits)
  qed
  show ?thesis
  proof (rule sender_access [OF inv t s3 ac nub])
    show "chan_unsent K (S(t := SReady)) M'"
      using h u(1,6) unsentD(4) [OF u(4)] unfolding chan_unsent_def n u(5) accessedD(10) [OF ac] by simp
  qed auto
qed

lemma sender_write:
  assumes inv: "chan_inv K S M" and t: "t < nthreads M" and s: "S t = SReady" and M': "M' = m_write t (msg K) (payload K) M"
  shows "chan_inv K (S(t := SWritten)) M'"
proof -
  have s3: "S t \<in> unsent" using s by simp
  note u = sender_unsent [OF inv t s3]
  have ok: "chan_ok K" "logs_ok K M" "chan_alloc K M" "\<not> ub M" using inv by (auto simp: chan_inv_def)
  have "cell_step t (msg K) NaWrite M M'" unfolding M' by (rule m_cell_step)
  then have ac: "accessed t (msg K) NaWrite M M'" and hist: "hist M' = hist M" by (auto simp: cell_step_def)
  have cov: "covered (log M (msg K)) (cur M t)" using knowD(3) [OF u(3)] s u(1) by simp
  have nub: "\<not> ub M'" using cov ok by (auto simp: M' m_cell_step chan_alloc_def)
  show ?thesis
  proof (rule sender_access [OF inv t s3 ac nub])
    show "cell M' (msg K) = payload K" by (simp add: M' m_cell_step)
    show "chan_unsent K (S(t := SWritten)) M'"
      using u(1,4) unfolding chan_unsent_def accessedD(1,10) [OF ac] u(5) hist by simp
  qed (use ok(1) in \<open>auto simp: chan_ok_def\<close>)
qed

lemma sender_send:
  assumes inv: "chan_inv K S M" and t: "t < nthreads M" and s: "S t = SWritten"
    and st: "store_step t (flag K) o1 ts M M' m" and v: "mval m = ready K" and "releases o1"
  shows "chan_inv K (S(t := SSent)) M'"
proof -
  have s3: "S t \<in> unsent" using s by simp
  note u = sender_unsent [OF inv t s3]
  have ok: "chan_ok K" "logs_ok K M" "chan_alloc K M" "\<not> ub M" using inv by (auto simp: chan_inv_def)
  from st \<open>releases o1\<close> have ac: "accessed t (flag K) AtWrite M M'" and m: "hist M (flag K) ts = None"
      "ts \<le> cur M' t (Ts (flag K))" "cur M' t \<le> mview m"
    and ub: "ub M' = (ub M \<or> freed M (blk (flag K)) \<or> races AtWrite (cur M t) (log M (flag K)))"
    and eq: "hist M' = (hist M)(flag K := (hist M (flag K))(ts \<mapsto> m))" "cell M' = cell M"
    by (auto simp: store_step_def)
  note n = accessedD(1) [OF ac]
  have "\<not> races AtWrite (cur M t) (log M (flag K))"
    using knowD(1) [OF u(3) _ t] u(6) ok(2) by (intro no_race_atomic_w) (auto simp: logs_ok_def)
  then have nub: "\<not> ub M'" using ub ok by (auto simp: chan_alloc_def)
  from unsentD(1) [OF u(4)] obtain k where k: "chain (hist M (flag K)) k" ..
  have ts: "k < ts" using chain_Some [OF k, of ts] m(1) by (auto simp: not_le [symmetric])
  have old: "i < ts \<and> mval y \<noteq> ready K" if "hist M (flag K) i = Some y" for i y
    using chain_le [OF k that] ts unsentD(2) [OF u(4) that] by auto
  have ne: "msg K \<noteq> flag K" using ok(1) by (auto simp: chan_ok_def)
  have cov: "covered (log M' (msg K)) (mview m)"
    using knowD(3) [OF u(3)] s u(1) accessed_covered [OF ac t, of "msg K" t] covered_mono [OF _ m(3)] by simp
  show ?thesis
  proof (rule sender_access [OF inv t s3 ac nub])
    show "cell M' (msg K) = payload K" using knowD(4) [OF u(3)] s u(1) by (simp add: eq(2))
    have "chan_sent K (S(t := SSent)) M' ts"
      unfolding chan_sent_def n u(5) accessedD(10) [OF ac]
    proof (intro conjI impI allI)
      show "\<exists>x. hist M' (flag K) ts = Some x \<and> mval x = ready K \<and>
          (rst K S (nthreads M) \<in> {RWait, RChecked, RSeen} \<longrightarrow> covered (log M' (msg K)) (mview x))"
        using v cov by (simp add: eq(1))
      show "i = ts" if "hist M' (flag K) i = Some y" "mval y = ready K" for i y
        using that old [of i y] by (cases "i = ts") (auto simp: eq(1))
      show "rst K S (nthreads M) \<in> {RTaken, RRead, ROwner}" if "ts < i" "hist M' (flag K) i \<noteq> None" for i
        using that old [of i] by (auto simp: eq(1))
      show "ts \<le> cur M' 1 (Ts (flag K))" using m(2) u(1) by simp
      show "token M 0 = None" using unsentD(4) [OF u(4)] .
    qed (use u(1,6) in auto)
    then show "\<exists>p. chan_sent K (S(t := SSent)) M' p" ..
  qed auto
qed

lemma sender_unpark:
  assumes inv: "chan_inv K S M" and t: "t < nthreads M" and s: "S t = SSent" and a: "\<not> apart K"
  shows "chan_inv K (S(t := SDone)) (m_unpark t 0 M)"
proof -
  let ?M = "m_unpark t 0 M" and ?S = "S(1 := SDone)"
  have s2: "S t \<in> unsent \<union> sent" using s by auto
  note r = sender [OF inv t s2]
  have upd: "rst K ?S (nthreads M) = rst K S (nthreads M)" "roles K ?S (nthreads M)" using r(4,5) by auto
  from r(1,3) s obtain p where p: "chan_sent K S M p" and kn: "chan_know K S M" by (auto simp: chan_run_def)
  have tok: "token M 0 = None" using sentD(7) [OF p] s r(1) by simp
  have eq: "hist ?M = hist M" "log ?M = log M" "cell ?M = cell M" "cur ?M = cur M" "nthreads ?M = nthreads M"
    "freed ?M = freed M" "ub ?M = ub M" "out ?M = out M"
    and tok': "token ?M 0 = Some (cur M 1)"
    using tok r(1) by (simp_all add: m_unpark_def)
  have "chan_know K ?S ?M"
    using kn s r(1) unfolding chan_know_def eq upd by simp
  moreover have "chan_sent K ?S ?M p"
    using p sentD(6) [OF p] a unfolding chan_sent_def eq upd tok' by simp
  ultimately show ?thesis
    using inv r(1,2) upd(2) unfolding chan_inv_def chan_run_def eq chan_alloc_def logs_ok_def by auto
qed

section \<open>The main thread before the sender is spawned\<close>

lemma starter:
  assumes inv: "chan_inv K S M" and wf: "wf_mem M" and t: "t < nthreads M" and s: "S t \<in> {Unborn, Start}"
  shows "t = 0" "nthreads M = 1" "chan_start K S M" "covered (log M l) (cur M 0)"
proof -
  have "roles K S (nthreads M)" using inv by (simp add: chan_inv_def)
  then have "t = 0 \<and> nthreads M = 1" using t s by (cases rule: role_cases; auto)
  then show t: "t = 0" and n: "nthreads M = 1" by auto
  show "chan_start K S M" using inv n by (simp add: chan_inv_def)
  show "covered (log M l) (cur M 0)" by (rule covered_all [OF wf]) (simp add: n)
qed

lemma start_access:
  assumes inv: "chan_inv K S M" and wf: "wf_mem M" and t: "t < nthreads M" and s: "S t = Start"
    and ac: "accessed t x NaWrite M M'" and x: "x = flag K \<or> x = msg K"
    and ub: "ub M' = (ub M \<or> freed M (blk x) \<or> races NaWrite (cur M t) (log M x))"
    and h: "hist M' = hist M \<or> claim K = None \<and> (\<exists>y. hist M' = (hist M)(flag K := (hist M (flag K))(0 \<mapsto> y)) \<and> mval y \<noteq> ready K)"
  shows "chan_inv K S M'"
proof -
  have s2: "S t \<in> {Unborn, Start}" using s by simp
  note st = starter [OF inv wf t s2] and n = accessedD(1) [OF ac]
  have ok: "chan_ok K" "logs_ok K M" "chan_alloc K M" "\<not> ub M" "set (out M) \<subseteq> prints K" "roles K S (nthreads M)"
    using inv by (auto simp: chan_inv_def)
  have nub: "\<not> ub M'" using st(1,4) ok x ub by (auto simp: chan_alloc_def)
  have "logs_ok K M'"
    by (rule accessed_logs_ok [OF ok(2) ac]) (use x ok(1) in \<open>auto simp: chan_ok_def\<close>)
  moreover have "chan_start K S M'"
    using st(1,3) s h unfolding chan_start_def accessedD(4,10) [OF ac] by auto
  moreover have "chan_alloc K M'" "set (out M') \<subseteq> prints K"
    using ok accessedD(2,5) [OF ac] by (simp_all add: chan_alloc_def)
  ultimately show ?thesis
    using nub ok st(2) unfolding chan_inv_def n by simp
qed

lemma start_set_mut:
  assumes inv: "chan_inv K S M" and wf: "wf_mem M" and t: "t < nthreads M" and s: "S t = Start" and c: "claim K = None" "v \<noteq> ready K"
  shows "chan_inv K S (m_set_mut t (flag K) v M)"
proof -
  let ?M = "m_set_mut t (flag K) v M"
  have s2: "S t \<in> {Unborn, Start}" using s by simp
  note st = starter [OF inv wf t s2]
  have "hist M (flag K) (cur M t (Ts (flag K))) \<noteq> None" using wf by (simp add: wf_mem_def wf_core_def wf_view_def)
  then have ts: "cur M t (Ts (flag K)) = 0" using st(3) by (auto simp: chan_start_def)
  have "accessed t (flag K) NaWrite M ?M"
    by (auto simp: accessed_def m_set_mut_def touch_def Let_def le_fun_def)
  moreover have "ub ?M = (ub M \<or> freed M (blk (flag K)) \<or> races NaWrite (cur M t) (log M (flag K)))"
    by (simp add: m_set_mut_def touch_def Let_def)
  moreover have "hist ?M = (hist M)(flag K := (hist M (flag K))(0 \<mapsto> \<lparr>mval = v, mview = bot\<rparr>))"
    by (simp add: m_set_mut_def ts)
  ultimately show ?thesis
    using c by (intro start_access [OF inv wf t s]) auto
qed

lemma start_get_mut:
  assumes inv: "chan_inv K S M" and wf: "wf_mem M" and t: "t < nthreads M" and s: "S t = Start"
    and ex: "m_get_mut t (flag K) M = Some (v, M')"
  shows "chan_inv K S M'" "v \<noteq> ready K"
proof -
  have s2: "S t \<in> {Unborn, Start}" using s by simp
  note st = starter [OF inv wf t s2]
  from ex obtain x where x: "hist M (flag K) (cur M t (Ts (flag K))) = Some x" "v = mval x" and M': "M' = touch NaWrite t (flag K) M"
    by (auto simp: m_get_mut_def)
  show "v \<noteq> ready K" using st(1,3) s x by (cases "cur M t (Ts (flag K)) = 0") (auto simp: chan_start_def)
  have "accessed t (flag K) NaWrite M M'" "hist M' = hist M"
      "ub M' = (ub M \<or> freed M (blk (flag K)) \<or> races NaWrite (cur M t) (log M (flag K)))"
    unfolding M' by (auto simp: accessed_def touch_def Let_def le_fun_def)
  then show "chan_inv K S M'" by (intro start_access [OF inv wf t s]) auto
qed

lemma start_write:
  assumes inv: "chan_inv K S M" and wf: "wf_mem M" and t: "t < nthreads M" and s: "S t = Start"
  shows "chan_inv K S (m_write t (msg K) v M)"
  using m_cell_step(2) [of t "msg K" M v]
  by (intro start_access [OF inv wf t s]) (auto simp: cell_step_def m_cell_step)

lemma start_alloc:
  assumes inv: "chan_inv K S M" and wf: "wf_mem M" and t: "t < nthreads M" and s: "S t = Unborn"
    and vs: "blk (msg K) = blk (flag K)" "fld (flag K) < length vs" "vs ! fld (flag K) \<noteq> ready K"
  shows "chan_inv K (S(t := Start)) (m_alloc t vs M)"
proof -
  have s2: "S t \<in> {Unborn, Start}" using s by simp
  note st = starter [OF inv wf t s2]
  have b: "nblocks M = blk (flag K)" "claim K = None" using st(1,3) s by (auto simp: chan_start_def)
  have "chan_ok K" "chan_alloc K M" "\<not> ub M" "set (out M) \<subseteq> prints K" using inv by (auto simp: chan_inv_def)
  with st b vs show ?thesis
    by (auto simp: chan_inv_def roles_def logs_ok_def chan_alloc_def chan_start_def m_alloc_def Let_def)
qed

lemma spawn_sender:
  assumes inv: "chan_inv K S M" and wf: "wf_mem M" and t: "t < nthreads M" and s: "S t = Start"
    and s': "s' = (if apart K then Between else RWait)" and c: "c = (if claim K = None then SReady else SFresh)"
  shows "chan_inv K ((S(t := s'))(nthreads M := c)) (m_spawn t M)"
proof -
  have s2: "S t \<in> {Unborn, Start}" using s by simp
  note st = starter [OF inv wf t s2]
  let ?M = "m_spawn t M" and ?S = "(S(0 := s'))(1 := c)"
  have eq: "hist ?M = hist M" "log ?M = log M" "token ?M = token M" "nthreads ?M = 2" "ub ?M = ub M" "out ?M = out M"
    "freed ?M = freed M" and cur: "\<And>u. u < 2 \<Longrightarrow> cur ?M u = cur M 0"
    using st(1,2) by (auto simp: m_spawn_def less_2_cases_iff)
  have rs: "rst K ?S 2 = RWait" and c1: "c \<in> {SFresh, SReady}" using s' c by (auto simp: rst_def rcv_def)
  from st(1,3) s obtain x where x: "hist M (flag K) 0 = Some x" "mval x \<noteq> ready K" and h: "\<And>k. k \<noteq> 0 \<Longrightarrow> hist M (flag K) k = None"
    by (auto simp: chan_start_def)
  have "chan_know K ?S ?M"
    unfolding chan_know_def eq rs using st(4) cur c1 covered_wcovered by auto
  moreover have "chan_unsent K ?S ?M"
    unfolding chan_unsent_def eq rs
  proof (intro conjI allI impI)
    have "chain (hist M (flag K)) 0" using x h by (auto simp: chain_def)
    then show "\<exists>k. chain (hist M (flag K)) k" ..
    show "mval y \<noteq> ready K" if "hist M (flag K) k = Some y" for k y
      using that x h by (cases "k = 0") auto
    show "token M 0 = None" using st(3) by (simp add: chan_start_def)
    show "\<exists>x. hist M d = [0 \<mapsto> x] \<and> mval x = free K" if "claim K = Some d" for d
      using st(1,3) s that by (auto simp: chan_start_def)
  qed auto
  ultimately have "chan_inv K ?S ?M"
    using inv s' c1 unfolding chan_inv_def chan_run_def eq chan_alloc_def logs_ok_def roles_def by auto
  then show ?thesis using st(1,2) by simp
qed

lemma spawn_receiver:
  assumes inv: "chan_inv K S M" and t: "t < nthreads M" and s: "S t = Between"
  shows "chan_inv K ((S(t := Idle))(nthreads M := RWait)) (m_spawn t M)"
proof -
  let ?M = "m_spawn t M" and ?S = "(S(0 := Idle))(2 := RWait)"
  have r: "roles K S (nthreads M)" using inv by (simp add: chan_inv_def)
  then have t0: "t = 0" and n: "nthreads M = 2" and a: "apart K" and S1: "S 1 \<in> unsent \<union> sent"
    using t s by (cases rule: role_cases; auto)+
  have run: "chan_run K S M" using inv n by (simp add: chan_inv_def)
  have eq: "hist ?M = hist M" "log ?M = log M" "token ?M = token M" "nthreads ?M = 3" "ub ?M = ub M" "out ?M = out M"
    "freed ?M = freed M" "cell ?M = cell M" "cur ?M 1 = cur M 1" "cur ?M 0 = cur M 0" and cur: "cur ?M = (cur M)(2 := cur M 0)"
    using t0 n by (auto simp: m_spawn_def)
  have rs: "rst K ?S 3 = RWait" "rst K S (nthreads M) = RWait" "?S 1 = S 1" using a n by (auto simp: rst_def rcv_def)
  have kn: "chan_know K S M" using run by (simp add: chan_run_def)
  have "wcovered (log M (flag K)) (cur ?M u)" if "u < 3" for u
    using that knowD(1) [OF kn] rs n by (auto simp: cur)
  then have "chan_know K ?S ?M"
    using kn unfolding chan_know_def eq rs by simp
  moreover have "S 1 \<in> unsent \<Longrightarrow> chan_unsent K ?S ?M"
    using run unfolding chan_run_def chan_unsent_def eq rs by auto
  moreover have "chan_sent K ?S ?M p" if "chan_sent K S M p" for p
    using that unfolding chan_sent_def eq rs by (auto split: option.splits)
  ultimately have "chan_run K ?S ?M"
    using run unfolding chan_run_def rs(3) by blast
  moreover have "roles K ?S 3" using a S1 by (auto simp: roles_def)
  ultimately have "chan_inv K ?S ?M"
    using inv unfolding chan_inv_def eq chan_alloc_def logs_ok_def by simp
  then show ?thesis using t0 n by simp
qed

section \<open>The protocol\<close>

lemma seen_sent:
  assumes inv: "chan_inv K S M" and t: "t < nthreads M" and s: "S t = RSeen"
  obtains p where "chan_sent K S M p"
proof -
  have s6: "S t \<in> {RWait, RChecked, RSeen, RPeeked, RTaken, RRead}" using s by auto
  note r = receiver [OF inv t s6]
  have "S 1 \<notin> unsent" using r(3,4) s unsentD(3) [of K S M] by (auto simp: chan_run_def)
  with r(4,7) that show thesis by (auto simp: chan_run_def)
qed

lemma chan_pos:
  assumes inv: "chan_inv K S M" and wf: "wf_mem M" and t: "t < nthreads M" and ex: "mexec fx ch t i M = Some (r, M')"
  shows "cpos K (S t) i r"
proof (cases i)
  case (IRmw os of1 w l f)
  with ex obtain ts m where m: "hist M l ts = Some m" "cur M t (Ts l) \<le> ts" "rval r = mval m"
    by (auto simp: m_rmw_def m_load_def readable_def Let_def split: option.splits if_splits)
  have "mval m = ready K" if st: "S t = RSeen" "l = flag K"
  proof -
    have s2: "S t \<in> {RWait, RSeen}" using st by simp
    from seen_sent [OF inv t st(1)] obtain p where p: "chan_sent K S M p" .
    show ?thesis using receiver_reads(2) [OF inv t s2 p m(1,2) [unfolded st(2)]] st(1) by simp
  qed
  moreover have "mval m = free K" if st: "S t = SFresh" "claim K = Some l"
  proof -
    have s3: "S t \<in> unsent" using st by simp
    from sender_unsent [OF inv t s3] unsentD(5) [of K S M l] st obtain x where "hist M l = [0 \<mapsto> x]" "mval x = free K" by auto
    with m(1) show ?thesis by (auto split: if_splits)
  qed
  ultimately show ?thesis using m(3) by (simp add: IRmw)
next
  case (IRead l)
  with ex receiver_read(2) [OF inv t, of RRead] receiver_read(2) [OF inv t, of RGone] show ?thesis by auto
next
  case (IGetMut l)
  with ex start_get_mut(2) [OF inv wf t] owner_get_mut(2) [OF inv wf t] show ?thesis by auto
next
  case (IAlloc vs)
  with ex starter(1,3) [OF inv wf t] show ?thesis by (auto simp: chan_start_def)
next
  case (ISpawn a)
  have "roles K S (nthreads M)" using inv by (simp add: chan_inv_def)
  then have "nthreads M = 2" if "S t = Between" using t that by (cases rule: role_cases) auto
  with ISpawn ex starter(2) [OF inv wf t] show ?thesis by auto
next
  case ICurrent
  with ex starter(1) [OF inv wf t] show ?thesis by auto
qed (use ex in auto)

lemma chan_step:
  assumes inv: "chan_inv K S M" and wf: "wf_mem M" "wf_mem M'" and t: "t < nthreads M"
    and ex: "mexec fx ch t i M = Some (r, M')" and tr: "ctr K (S t) i r s'"
  shows "chan_inv K (upd_state (cchild K) S t i s' (nthreads M)) M'"
proof (cases i)
  case (IAlloc vs)
  with ex tr start_alloc [OF inv wf(1) t, of vs] show ?thesis by (auto simp: upd_state_def)
next
  case (ILoad o1 l)
  with ex obtain ts v where "m_load ts t o1 l M = Some (v, M')" and r: "r = RVal v" by (auto split: option.splits)
  from m_load_step [OF this(1)] obtain m where "v = mval m" "load_step t l o1 ts M M' m" by blast
  with receiver_load [OF inv t, of o1 ts M' m s'] tr r show ?thesis by (auto simp: ILoad upd_state_def)
next
  case (IRmw os of1 w l f)
  with ex obtain b v ts sp where rmw: "m_rmw ts sp t os of1 l f M = Some (b, v, M')" and r: "r = RCas b v"
    by (auto split: option.splits prod.splits)
  show ?thesis
  proof (cases b)
    case False
    with m_rmw_fail [of ts sp t os of1 l f M v M'] rmw obtain m where m: "v = mval m" "load_step t l of1 ts M M' m" by auto
    with receiver_load [OF inv t, of of1 ts M' m s'] tr r False show ?thesis
      by (auto simp: IRmw upd_state_def split: if_splits)
  next
    case True
    with m_rmw_step [of ts sp t os of1 l f M v M'] rmw obtain m m' where m: "v = mval m" "f v = Some (mval m')" "rmw_step t l os ts M M' m m'"
      by auto
    with receiver_take [OF inv t, of os ts M' m m'] receiver_swap [OF inv t, of os ts M' m m']
      sender_claim [OF inv t, of l os ts M' m m'] tr r True show ?thesis
      by (auto simp: IRmw upd_state_def split: if_splits)
  qed
next
  case (IStore o1 l v)
  with ex obtain ts where "m_store ts t o1 l v M = Some M'" by (auto split: option.splits)
  from m_store_step [OF this] obtain m where "mval m = v" "store_step t l o1 ts M M' m" by blast
  with sender_send [OF inv t, of o1 ts M' m] tr show ?thesis by (auto simp: IStore upd_state_def)
next
  case (IWrite l v)
  with ex tr sender_write [OF inv t] start_write [OF inv wf(1) t] show ?thesis
    by (auto simp: upd_state_def fun_upd_idem)
next
  case (IRead l)
  with ex tr receiver_read(1) [OF inv t, of s'] show ?thesis by (auto simp: upd_state_def)
next
  case (IGetMut l)
  with ex tr start_get_mut(1) [OF inv wf(1) t] owner_get_mut(1) [OF inv wf(1) t] show ?thesis
    by (auto simp: upd_state_def fun_upd_idem)
next
  case (ISetMut l v)
  with ex tr start_set_mut [OF inv wf(1) t] show ?thesis by (auto simp: upd_state_def fun_upd_idem)
next
  case (ISpawn a)
  with ex tr spawn_sender [OF inv wf(1) t] spawn_receiver [OF inv t] show ?thesis
    by (auto simp: upd_state_def cchild_def)
next
  case (IJoin u)
  have "learns M M'" using ex unfolding IJoin by (intro quiet_learns [OF _ ex]) (auto simp: IJoin)
  moreover have "set (out M') \<subseteq> prints K" using inv mexec_out [OF ex] by (simp add: chan_inv_def IJoin)
  ultimately have "chan_inv K S M'" by (rule inv_learns [OF inv])
  with IJoin ex tr receiver_join [OF inv t] wf(2) show ?thesis by (auto simp: upd_state_def fun_upd_idem)
next
  case IPark
  with ex tr receiver_park [OF inv t] show ?thesis by (auto simp: upd_state_def)
next
  case (IUnpark u)
  with ex tr sender_unpark [OF inv t] show ?thesis by (auto simp: upd_state_def)
next
  case ITau
  with ex have M': "M' = M" by simp
  have "chan_inv K (S(t := RWait)) M" if "S t = RChecked"
    using inv that by (intro receiver_moves [OF inv t]) (auto simp: learns_def chan_inv_def)
  with ITau tr inv show ?thesis by (auto simp: upd_state_def M' fun_upd_idem)
next
  case (IPrint v)
  have "learns M M'" by (intro quiet_learns [OF _ ex]) (auto simp: IPrint)
  moreover have "set (out M') \<subseteq> prints K" using inv mexec_out [OF ex] tr by (simp add: chan_inv_def IPrint)
  ultimately have "chan_inv K S M'" by (rule inv_learns [OF inv])
  with IPrint tr show ?thesis by (auto simp: upd_state_def fun_upd_idem)
qed (use tr inv_learns [OF inv quiet_learns [OF _ ex]] mexec_out [OF ex] inv in
    \<open>auto simp: upd_state_def fun_upd_idem chan_inv_def\<close>)

lemma chan_not_never:
  assumes "chan_inv K S M" and "t < nthreads M"
  shows "S t \<noteq> Never"
proof -
  have "roles K S (nthreads M)" using assms(1) by (simp add: chan_inv_def)
  then show ?thesis using assms(2) by (cases rule: role_cases) auto
qed

interpretation cp: protocol "cpos K" "ctr_any K" "\<lambda>s. s = Never" "cchild K" "cfin K" "chan_inv K" for K
  by unfold_locales (auto simp: ctr_any_def dest: chan_not_never intro: chan_pos chan_step split: if_splits)

lemma chan_inv_init:
  assumes "chan_ok K" and "static_val vs (flag K) \<noteq> ready K" and "\<And>c. claim K = Some c \<Longrightarrow> static_val vs c = free K"
  shows "chan_inv K (\<lambda>_. Start) (init_mem vs)"
  using assms by (auto simp: chan_inv_def chan_alloc_def roles_def logs_ok_def chan_start_def init_mem_def)

lemma chan_inv_unborn:
  assumes "chan_ok K" and "length vs = blk (flag K)" and "claim K = None"
  shows "chan_inv K (\<lambda>_. Unborn) (init_mem vs)"
  using assms by (auto simp: chan_inv_def chan_alloc_def roles_def logs_ok_def chan_start_def init_mem_def)

section \<open>What is shown of a program\<close>

text \<open>
  No undefined behaviour, no panic, only expected output; and the program cannot get stuck: until
  the main thread has ended some thread can make a step, even without spurious wake-ups.
\<close>

definition chan_sound :: "'a futex \<Rightarrow> 'a code \<Rightarrow> 'a val set \<Rightarrow> 'a config \<Rightarrow> bool" where
  "chan_sound fx code P c \<longleftrightarrow> \<not> ub (mem c) \<and> (\<forall>t m. progs c t \<noteq> Some (Panic m)) \<and> set (out (mem c)) \<subseteq> P \<and>
     (finished c 0 \<or> halted c \<or> (\<exists>t ts c'. exec fx code (Choice ts False VUnit) t c = Some c'))"

abbreviation chan_prog :: "'a chan \<Rightarrow> ('r \<Rightarrow> cst \<Rightarrow> bool) \<Rightarrow> cst \<Rightarrow> ('a, 'r) prog \<Rightarrow> bool" where
  "chan_prog K Q s p \<equiv> conforms (cpos K) (ctr_any K) (\<lambda>s. s = Never) Q s p"

lemma chan_prog_Never: "chan_prog K (\<lambda>_ s. cfin K s) Never p"
proof (coinduction arbitrary: p)
  case conforms
  show ?case by (cases p) (auto simp: ctr_any_def cfin_def)
qed

lemma chan_safe_steps:
  assumes safe: "cp.safe K c" and progs: "\<And>t. t < nthreads (mem c) \<Longrightarrow> progs c t \<noteq> None" and nh: "\<not> halted c"
  shows "finished c 0 \<or> (\<exists>t ts c'. exec fx code (Choice ts False VUnit) t c = Some c')"
proof -
  from safe obtain S where wf: "wf_mem (mem c)" and inv: "chan_inv K S (mem c)"
    and conf: "\<And>t p. progs c t = Some p \<Longrightarrow> t < nthreads (mem c) \<and> chan_prog K (\<lambda>_ s. cfin K s) (S t) p"
    unfolding cp.safe_def by blast
  have nub: "\<not> ub (mem c)" and roles: "roles K S (nthreads (mem c))" using inv by (auto simp: chan_inv_def)
  let ?go = "\<lambda>t. \<exists>ts c'. exec fx code (Choice ts False VUnit) t c = Some c'"
  have go: "?go t \<or> finished c t \<or> (\<exists>i k. progs c t = Some (Do i k) \<and> waits i)" if t: "t < nthreads (mem c)" for t
  proof -
    from progs t obtain p where p: "progs c t = Some p" by auto
    show ?thesis
    proof (cases p)
      case (Panic m)
      with conf [OF p] chan_not_never [OF inv t] show ?thesis by simp
    next
      case Abort
      with p nh nub show ?thesis by (simp add: exec_def)
    next
      case (Do i k)
      with p exec_enabled [OF wf nub nh, of t i k fx code] show ?thesis by blast
    qed (use p in \<open>simp add: finished_def\<close>)
  qed
  have wt: "S t = RChecked \<and> i = IPark \<and> \<not> apart K \<or> S t = RRead \<and> i = IJoin 1 \<and> \<not> apart K \<or>
      S t = Idle \<and> apart K \<and> i \<in> {IJoin 1, IJoin 2}"
    if "progs c t = Some (Do i k)" "waits i" for t i k
  proof -
    have "shape i (RVal VUnit)" "cpos K (S t) i (RVal VUnit)" using that(2) by (cases i; auto)+
    with conf [OF that(1)] chan_not_never [OF inv, of t] have "\<exists>s'. ctr K (S t) i (RVal VUnit) s'"
      unfolding conforms_Do_iff ctr_any_def by metis
    with that(2) show ?thesis by (cases i) auto
  qed
  have snd: "?go 1 \<or> finished c 1" if "1 < nthreads (mem c)"
    using go [OF that] wt [of 1] role_cases [OF roles that] by fastforce
  have fin: "cfin K (S t)" if "finished c t" for t
    using that conf [of t] by (auto simp: finished_def split: option.splits prog.splits)
  have n0: "0 < nthreads (mem c)" using roles by (auto simp: roles_def)
  consider "?go 0 \<or> finished c 0" | i k where "progs c 0 = Some (Do i k)" "waits i" using go [OF n0] by blast
  then show ?thesis
  proof cases
    case 1
    then show ?thesis by blast
  next
    case w: 2
    have join: ?thesis if "i = IJoin u" "finished c u" for u
    proof -
      have "exec fx code (Choice 0 False VUnit) 0 c \<noteq> None"
        using that w(1) nh nub by (simp add: exec_def enabled_instr_def)
      then show ?thesis by blast
    qed
    from roles n0 show ?thesis
    proof (cases rule: role_cases)
      case start
      with wt [OF w] show ?thesis by auto
    next
      case receiver
      then have n1: "1 < nthreads (mem c)" by simp
      show ?thesis
      proof (cases "finished c 1")
        case True
        with fin [of 1] receiver(3,5) have "S 1 = SDone" by (auto simp: cfin_def)
        moreover have "chan_run K S (mem c)" using inv n1 by (simp add: chan_inv_def)
        ultimately obtain p where p: "chan_sent K S (mem c) p" by (auto simp: chan_run_def)
        show ?thesis
        proof (cases "i = IPark")
          case True
          with wt [OF w] have "S 0 = RChecked" by auto
          with sentD(10) [OF p \<open>S 1 = SDone\<close>] obtain V where "token (mem c) 0 = Some V" by blast
          then have "exec fx code (Choice 0 False VUnit) 0 c \<noteq> None"
            using True w(1) nh nub by (simp add: exec_def enabled_instr_def m_park_def)
          then show ?thesis by blast
        next
          case False
          with wt [OF w] receiver join \<open>finished c 1\<close> show ?thesis by auto
        qed
      qed (use snd [OF n1] in blast)
    next
      case idle
      have rc: "?go 2 \<or> finished c 2"
        using go [of 2] wt [of 2] role_cases [OF roles, of 2] idle(1) by fastforce
      from wt [OF w] idle consider "i = IJoin 1" | "i = IJoin 2" by auto
      then show ?thesis
      proof cases
        case 1
        with join [of 1] snd idle(1) show ?thesis by auto
      next
        case 2
        with join [of 2] rc show ?thesis by auto
      qed
    next
      case between
      with wt [OF w] show ?thesis by auto
    next
      case sender
      from sender(2) show ?thesis by simp
    next
      case receiver2
      from receiver2(2) show ?thesis by simp
    qed
  qed
qed

lemma chan_reach:
  assumes "chan_inv K (\<lambda>_. s0) (init_mem vs)" and "chan_prog K (\<lambda>_ s. cfin K s) s0 main"
    and "\<And>a. cchild K a \<noteq> Never \<Longrightarrow> chan_prog K (\<lambda>_ s. cfin K s) (cchild K a) (code a)"
    and "reach fx code (init_config vs main) c"
  shows "chan_sound fx code (prints K) c"
proof -
  have code: "chan_prog K (\<lambda>_ s. cfin K s) (cchild K a) (code a)" for a
    using assms(3) [of a] chan_prog_Never by (cases "cchild K a = Never") auto
  have "cp.safe K (init_config vs main)" using assms(1,2) by (rule cp.safe_init)
  with code have safe: "cp.safe K c" using assms(4) by (rule cp.safe_reach)
  then obtain S where inv: "chan_inv K S (mem c)"
    and conf: "\<And>t p. progs c t = Some p \<Longrightarrow> t < nthreads (mem c) \<and> chan_prog K (\<lambda>_ s. cfin K s) (S t) p"
    unfolding cp.safe_def by blast
  have "progs c t \<noteq> Some (Panic m)" for t m
    using conf [of t "Panic m"] chan_not_never [OF inv, of t] by auto
  then show ?thesis
    using inv chan_safe_steps [OF safe reach_progs [OF assms(4)], of fx code]
    unfolding chan_sound_def by (auto simp: chan_inv_def)
qed

end
