(* ===== verification/Channels.thy ===== *)
theory Channels
  imports Channel_Protocol Solo
begin

text \<open>
  The one-shot channels of chapter 5 (05-02 to 05-06), with their main programs. Each program is
  shown to follow the protocol of one message between two threads: no data race, no panic, the
  assertions hold, and no wake-up is lost.
\<close>

section \<open>05-02: the unsafe channel\<close>

text \<open>\<open>Channel { message, ready }\<close> at block \<open>self\<close>.\<close>

definition message :: "nat \<Rightarrow> loc" where
  "message self = Loc self 0"

definition ready_flag :: "nat \<Rightarrow> loc" where
  "ready_flag self = Loc self 1"








section \<open>05-03: run-time checks\<close>

text \<open>\<open>Channel { message, in_use, ready }\<close> at block \<open>self\<close>.\<close>

definition in_use :: "nat \<Rightarrow> loc" where
  "in_use self = Loc self 1"

definition ready_flag2 :: "nat \<Rightarrow> loc" where
  "ready_flag2 self = Loc self 2"

definition Channel2_default :: "'a val list" where
  "Channel2_default = [Uninit, VBool False, VBool False]"

definition Channel2_send :: "nat \<Rightarrow> 'a val \<Rightarrow> ('a, unit) prog" where
  "Channel2_send self m =
     bindp (swap (in_use self) (VBool True) Relaxed) (\<lambda>u.
       if as_bool u then Panic ''can't send more than one message!''
       else seqp (write_cell (message self) m) (store (ready_flag2 self) (VBool True) Release))"

definition Channel2_is_ready :: "nat \<Rightarrow> ('a, bool) prog" where
  "Channel2_is_ready self = bindp (load (ready_flag2 self) Relaxed) (\<lambda>v. Ret (as_bool v))"

definition Channel2_receive :: "nat \<Rightarrow> ('a, 'a val) prog" where
  "Channel2_receive self =
     bindp (swap (ready_flag2 self) (VBool False) Acquire) (\<lambda>v.
       if \<not> as_bool v then Panic ''no message available!'' else read_cell (message self))"

definition Channel2_drop :: "nat \<Rightarrow> ('a, unit) prog" where
  "Channel2_drop self =
     bindp (get_mut_atomic (ready_flag2 self)) (\<lambda>v.
       if as_bool v then drop_in_place (message self) else Ret ())"

text \<open>The closure captures the handle of the main thread.\<close>

definition Channel2_thread :: "'a code" where
  "Channel2_thread t = seqp (Channel2_send 0 (VStr ''hello world!'')) (unpark (as_tid t))"

definition Channel2_main :: "('a, unit) prog" where
  "Channel2_main =
     bindp current (\<lambda>t.
     bindp (spawn (VTid t)) (\<lambda>s.
     seqp (while_do (bindp (Channel2_is_ready 0) (\<lambda>b. Ret (\<not> b))) park)
     (bindp (Channel2_receive 0) (\<lambda>m.
     seqp (assert_that (m = VStr ''hello world!'') ''assertion failed'')
     (seqp (join s)
     (Channel2_drop 0))))))"

section \<open>05-03: a single atomic variable for the state\<close>

definition EMPTY :: "8 word" where "EMPTY = 0"

definition WRITING :: "8 word" where "WRITING = 1"

definition READY :: "8 word" where "READY = 2"

definition READING :: "8 word" where "READING = 3"

text \<open>\<open>Channel { message, state }\<close> at block \<open>self\<close>.\<close>

definition chan_state :: "nat \<Rightarrow> loc" where
  "chan_state self = Loc self 1"

definition Channel3_default :: "'a val list" where
  "Channel3_default = [Uninit, VU8 EMPTY]"

definition Channel3_send :: "nat \<Rightarrow> 'a val \<Rightarrow> ('a, unit) prog" where
  "Channel3_send self m =
     bindp (compare_exchange (chan_state self) (VU8 EMPTY) (VU8 WRITING) Relaxed Relaxed) (\<lambda>r.
       if is_err r then Panic ''can't send more than cone message!''
       else seqp (write_cell (message self) m) (store (chan_state self) (VU8 READY) Release))"

definition Channel3_is_ready :: "nat \<Rightarrow> ('a, bool) prog" where
  "Channel3_is_ready self = bindp (load (chan_state self) Relaxed) (\<lambda>v. Ret (v = VU8 READY))"

definition Channel3_receive :: "nat \<Rightarrow> ('a, 'a val) prog" where
  "Channel3_receive self =
     bindp (compare_exchange (chan_state self) (VU8 READY) (VU8 READING) Acquire Relaxed) (\<lambda>r.
       if is_err r then Panic ''no message available!'' else read_cell (message self))"

definition Channel3_drop :: "nat \<Rightarrow> ('a, unit) prog" where
  "Channel3_drop self =
     bindp (get_mut_atomic (chan_state self)) (\<lambda>v.
       if v = VU8 READY then drop_in_place (message self) else Ret ())"

definition Channel3_thread :: "'a code" where
  "Channel3_thread t = seqp (Channel3_send 0 (VStr ''hello world!'')) (unpark (as_tid t))"

definition Channel3_main :: "('a, unit) prog" where
  "Channel3_main =
     bindp current (\<lambda>t.
     bindp (spawn (VTid t)) (\<lambda>s.
     seqp (while_do (bindp (Channel3_is_ready 0) (\<lambda>b. Ret (\<not> b))) park)
     (bindp (Channel3_receive 0) (\<lambda>m.
     seqp (assert_that (m = VStr ''hello world!'') ''assertion failed'')
     (seqp (join s)
     (Channel3_drop 0))))))"

section \<open>05-04: a sender and a receiver\<close>





definition Channel4_drop :: "nat \<Rightarrow> ('a, unit) prog" where
  "Channel4_drop self =
     bindp (get_mut_atomic (ready_flag self)) (\<lambda>v.
       if as_bool v then drop_in_place (message self) else Ret ())"



section \<open>05-05: borrowing instead of allocating\<close>

definition Channel5_default :: "'a val list" where
  "Channel5_default = [Uninit, VBool False]"

definition Channel5_drop :: "nat \<Rightarrow> ('a, unit) prog" where
  "Channel5_drop self =
     bindp (get_mut_atomic (ready_flag self)) (\<lambda>v.
       if as_bool v then drop_in_place (message self) else Ret ())"

text \<open>\<open>*self = Self::default()\<close> drops the old channel and overwrites its fields.\<close>

definition Channel5_split :: "nat \<Rightarrow> ('a, nat \<times> nat) prog" where
  "Channel5_split self =
     seqp (Channel5_drop self)
     (seqp (write_cell (message self) Uninit)
     (seqp (set_mut_atomic (ready_flag self) (VBool False))
     (Ret (self, self))))"

definition Sender5_send :: "nat \<Rightarrow> 'a val \<Rightarrow> ('a, unit) prog" where
  "Sender5_send channel m = seqp (write_cell (message channel) m) (store (ready_flag channel) (VBool True) Release)"

definition Receiver5_is_ready :: "nat \<Rightarrow> ('a, bool) prog" where
  "Receiver5_is_ready channel = bindp (load (ready_flag channel) Relaxed) (\<lambda>v. Ret (as_bool v))"

definition Receiver5_receive :: "nat \<Rightarrow> ('a, 'a val) prog" where
  "Receiver5_receive channel =
     bindp (swap (ready_flag channel) (VBool False) Acquire) (\<lambda>v.
       if \<not> as_bool v then Panic ''no message available!'' else read_cell (message channel))"

definition Channel5_thread :: "'a code" where
  "Channel5_thread a =
     (case as_list a of
        [sender, t] \<Rightarrow> seqp (Sender5_send (the (as_ptr sender)) (VStr ''hello world!'')) (unpark (as_tid t))
      | _ \<Rightarrow> Ret ())"

definition Channel5_main :: "('a, unit) prog" where
  "Channel5_main =
     bindp (Channel5_split 0) (\<lambda>(sender, receiver).
     bindp current (\<lambda>t.
     bindp (spawn (VList [VPtr (Some sender), VTid t])) (\<lambda>s.
     seqp (while_do (bindp (Receiver5_is_ready receiver) (\<lambda>b. Ret (\<not> b))) park)
     (bindp (Receiver5_receive receiver) (\<lambda>m.
     seqp (assert_that (m = VStr ''hello world!'') ''assertion failed'')
     (seqp (join s)
     (Channel5_drop 0)))))))"

section \<open>05-06: a receiver that waits\<close>

definition Channel6_default :: "'a val list" where
  "Channel6_default = [Uninit, VBool False]"

definition Channel6_drop :: "nat \<Rightarrow> ('a, unit) prog" where
  "Channel6_drop self =
     bindp (get_mut_atomic (ready_flag self)) (\<lambda>v.
       if as_bool v then drop_in_place (message self) else Ret ())"

text \<open>\<open>Sender { channel, receiving_thread }\<close>.\<close>

definition Channel6_split :: "nat \<Rightarrow> ('a, (nat \<times> tid) \<times> nat) prog" where
  "Channel6_split self =
     seqp (Channel6_drop self)
     (seqp (write_cell (message self) Uninit)
     (seqp (set_mut_atomic (ready_flag self) (VBool False))
     (bindp current (\<lambda>receiving_thread.
     Ret ((self, receiving_thread), self)))))"

definition Sender6_send :: "nat \<times> tid \<Rightarrow> 'a val \<Rightarrow> ('a, unit) prog" where
  "Sender6_send self m = (case self of (channel, receiving_thread) \<Rightarrow>
     seqp (write_cell (message channel) m)
     (seqp (store (ready_flag channel) (VBool True) Release)
     (unpark receiving_thread)))"

definition Receiver6_receive :: "nat \<Rightarrow> ('a, 'a val) prog" where
  "Receiver6_receive channel =
     seqp (while_do (bindp (swap (ready_flag channel) (VBool False) Acquire) (\<lambda>v. Ret (\<not> as_bool v))) park)
     (read_cell (message channel))"

definition Channel6_thread :: "'a code" where
  "Channel6_thread a =
     (case as_list a of
        [channel, t] \<Rightarrow> Sender6_send (the (as_ptr channel), as_tid t) (VStr ''hello world!'')
      | _ \<Rightarrow> Ret ())"

definition Channel6_main :: "('a, unit) prog" where
  "Channel6_main =
     bindp (Channel6_split 0) (\<lambda>(sender, receiver).
     bindp (spawn (VList [VPtr (Some (fst sender)), VTid (snd sender)])) (\<lambda>s.
     bindp (Receiver6_receive receiver) (\<lambda>m.
     seqp (assert_that (m = VStr ''hello world!'') ''assertion failed'')
     (seqp (join s)
     (Channel6_drop 0)))))"

section \<open>The programs follow the protocol\<close>

definition hello_chan :: "loc \<Rightarrow> loc option \<Rightarrow> 'a val \<Rightarrow> 'a val \<Rightarrow> 'a val \<Rightarrow> 'a chan" where
  "hello_chan f c rdy fr a = \<lparr>flag = f, msg = Loc 0 0, claim = c, ready = rdy, free = fr,
     payload = VStr ''hello world!'', prints = {}, sarg = a, apart = False\<rparr>"


lemma as_bool_iff: "as_bool v \<longleftrightarrow> v = VBool True"
  by (cases v) auto

lemma poll_ok:
  assumes "\<not> apart K" and "\<And>v. P v \<longleftrightarrow> v = ready K"
  shows "chan_prog K (\<lambda>_ s. s = RSeen) RWait
    (while_do (bindp (bindp (load (flag K) Relaxed) (\<lambda>v. Ret (P v))) (\<lambda>b. Ret (\<not> b))) park)"
  by (rule conforms_while [where J = "\<lambda>s. s = RWait" and C = "\<lambda>s. s = RChecked"])
     (use assms in \<open>auto simp: conf_simps ctr_any_def\<close>)

lemmas chan_simps = conf_simps ctr_any_def as_bool_iff seqp_def cfin_def cchild_def assert_that_def

lemmas chan_defs = hello_chan_def message_def ready_flag_def ready_flag2_def in_use_def chan_state_def
  EMPTY_def WRITING_def READY_def READING_def

text \<open>A main program and the threads it spawns.\<close>

abbreviation chan_main :: "'a chan \<Rightarrow> cst \<Rightarrow> ('a, unit) prog \<Rightarrow> bool" where
  "chan_main K s p \<equiv> chan_prog K (\<lambda>_ s. cfin K s) s p"

abbreviation chan_threads :: "'a chan \<Rightarrow> 'a code \<Rightarrow> bool" where
  "chan_threads K code \<equiv> \<forall>a. cchild K a \<noteq> Never \<longrightarrow> chan_main K (cchild K a) (code a)"

text \<open>Spawning the sender, waiting for the message, and the rest of the main program.\<close>

lemma talk_ok:
  assumes "\<not> apart K" "sarg K = a"
    and poll: "chan_prog K (\<lambda>_ s. s = g) RWait poll" and rest: "chan_main K g (rest 1)"
  shows "chan_main K Start (bindp (spawn a) (\<lambda>s. seqp poll (rest s)))"
  using assms(1,2) conforms_then [OF poll rest] by (auto simp: conforms_Do_iff all_resp spawn_def ctr_any_def)

abbreviation "K2 \<equiv> hello_chan (Loc 0 2) (Some (Loc 0 1)) (VBool True) (VBool False) (VTid 0)"
abbreviation "K3 \<equiv> hello_chan (Loc 0 1) (Some (Loc 0 1)) (VU8 READY) (VU8 EMPTY) (VTid 0)"
abbreviation "K4 \<equiv> hello_chan (Loc 0 1) None (VBool True) (VBool False) (VList [VPtr (Some 0), VTid 0])"

lemma hello_sel [simp]:
  "flag (hello_chan f c rdy fr a) = f" "\<not> apart (hello_chan f c rdy fr a)" "sarg (hello_chan f c rdy fr a) = a"
  "ready (hello_chan f c rdy fr a) = rdy" "claim (hello_chan f c rdy fr a) = c" "free (hello_chan f c rdy fr a) = fr"
  "msg (hello_chan f c rdy fr a) = Loc 0 0" "payload (hello_chan f c rdy fr a) = VStr ''hello world!''"
  "prints (hello_chan f c rdy fr a) = {}"
  by (simp_all add: hello_chan_def)

lemma Channel2_main_ok: "chan_main K2 Start Channel2_main"
proof -
  have "chan_main K2 Start (bindp (spawn (VTid 0)) (\<lambda>s.
      seqp (while_do (bindp (Channel2_is_ready 0) (\<lambda>b. Ret (\<not> b))) park)
      (bindp (Channel2_receive 0) (\<lambda>m. seqp (assert_that (m = VStr ''hello world!'') ''assertion failed'')
      (seqp (join s) (Channel2_drop 0))))))"
  proof (rule talk_ok)
    show "chan_prog K2 (\<lambda>_ s. s = RSeen) RWait (while_do (bindp (Channel2_is_ready 0) (\<lambda>b. Ret (\<not> b))) park)"
      using poll_ok [of K2 as_bool] by (simp add: Channel2_is_ready_def ready_flag2_def as_bool_iff)
  qed (auto simp: chan_simps chan_defs Channel2_receive_def Channel2_drop_def)
  then show ?thesis by (simp add: Channel2_main_def conforms_Do_iff all_resp current_def ctr_any_def)
qed

lemma Channel3_main_ok: "chan_main K3 Start Channel3_main"
proof -
  have "chan_main K3 Start (bindp (spawn (VTid 0)) (\<lambda>s.
      seqp (while_do (bindp (Channel3_is_ready 0) (\<lambda>b. Ret (\<not> b))) park)
      (bindp (Channel3_receive 0) (\<lambda>m. seqp (assert_that (m = VStr ''hello world!'') ''assertion failed'')
      (seqp (join s) (Channel3_drop 0))))))"
  proof (rule talk_ok)
    show "chan_prog K3 (\<lambda>_ s. s = RSeen) RWait (while_do (bindp (Channel3_is_ready 0) (\<lambda>b. Ret (\<not> b))) park)"
      using poll_ok [of K3 "\<lambda>v. v = VU8 READY"] by (simp add: Channel3_is_ready_def chan_state_def)
  qed (auto simp: chan_simps chan_defs Channel3_receive_def Channel3_drop_def)
  then show ?thesis by (simp add: Channel3_main_def conforms_Do_iff all_resp current_def ctr_any_def)
qed


lemma Channel5_main_ok: "chan_main K4 Start Channel5_main"
proof -
  have "chan_main K4 Start (bindp (spawn (VList [VPtr (Some 0), VTid 0])) (\<lambda>s.
      seqp (while_do (bindp (Receiver5_is_ready 0) (\<lambda>b. Ret (\<not> b))) park)
      (bindp (Receiver5_receive 0) (\<lambda>m. seqp (assert_that (m = VStr ''hello world!'') ''assertion failed'')
      (seqp (join s) (Channel5_drop 0))))))"
  proof (rule talk_ok)
    show "chan_prog K4 (\<lambda>_ s. s = RSeen) RWait (while_do (bindp (Receiver5_is_ready 0) (\<lambda>b. Ret (\<not> b))) park)"
      using poll_ok [of K4 as_bool] by (simp add: Receiver5_is_ready_def ready_flag_def as_bool_iff)
  qed (auto simp: chan_simps chan_defs Receiver5_receive_def Channel5_drop_def)
  note talk = this
  have split: "chan_prog K4 (\<lambda>r s. r = (0, 0) \<and> s = Start) Start (Channel5_split 0)"
    by (auto simp: Channel5_split_def Channel5_drop_def chan_simps chan_defs)
  show ?thesis unfolding Channel5_main_def
    by (rule conforms_bind [OF split]) (use talk in \<open>auto simp: conforms_Do_iff all_resp current_def ctr_any_def\<close>)
qed

lemma Channel6_main_ok: "chan_main K4 Start Channel6_main"
proof -
  have "chan_main K4 Start (bindp (spawn (VList [VPtr (Some 0), VTid 0])) (\<lambda>s.
      seqp (while_do (bindp (swap (ready_flag 0) (VBool False) Acquire) (\<lambda>v. Ret (\<not> as_bool v))) park)
      (bindp (read_cell (message 0)) (\<lambda>m. seqp (assert_that (m = VStr ''hello world!'') ''assertion failed'')
      (seqp (join s) (Channel6_drop 0))))))"
  proof (rule talk_ok)
    show "chan_prog K4 (\<lambda>_ s. s = RTaken) RWait
        (while_do (bindp (swap (ready_flag 0) (VBool False) Acquire) (\<lambda>v. Ret (\<not> as_bool v))) park)"
      by (rule conforms_while [where J = "\<lambda>s. s = RWait" and C = "\<lambda>s. s = RChecked"]) (auto simp: chan_simps chan_defs)
  qed (auto simp: chan_simps chan_defs Channel6_drop_def)
  note talk = this
  have split: "chan_prog K4 (\<lambda>r s. r = ((0, 0), 0) \<and> s = Start) Start (Channel6_split 0)"
    by (auto simp: Channel6_split_def Channel6_drop_def chan_simps chan_defs)
  show ?thesis unfolding Channel6_main_def
    by (rule conforms_bind [OF split]) (use talk in \<open>auto simp: Receiver6_receive_def seqp_def bindp_assoc\<close>)
qed

text \<open>The spawned threads.\<close>

lemma Channel2_thread_ok: "chan_threads K2 Channel2_thread"
  by (auto simp: Channel2_thread_def Channel2_send_def chan_simps chan_defs split: if_splits)

lemma Channel3_thread_ok: "chan_threads K3 Channel3_thread"
  by (auto simp: Channel3_thread_def Channel3_send_def chan_simps chan_defs split: if_splits)


lemma Channel5_thread_ok: "chan_threads K4 Channel5_thread"
  by (auto simp: Channel5_thread_def Sender5_send_def chan_simps chan_defs split: if_splits)

lemma Channel6_thread_ok: "chan_threads K4 Channel6_thread"
  by (auto simp: Channel6_thread_def Sender6_send_def chan_simps chan_defs split: if_splits)



section \<open>Properties\<close>

lemma chan_programs:
  assumes "chan_inv K (\<lambda>_. s0) (init_mem vs)" "chan_main K s0 main" "chan_threads K code"
    and "reach fx code (init_config vs main) c" and "prints K = P"
  shows "chan_sound fx code P c"
  using chan_reach [OF assms(1,2) _ assms(4)] assms(3,5) by simp

lemmas chan_op_defs =
  Channel2_default_def Channel2_is_ready_def Channel2_send_def Channel2_receive_def Channel2_drop_def
  Channel3_default_def Channel3_is_ready_def Channel3_send_def Channel3_receive_def Channel3_drop_def
  Channel5_default_def Receiver5_is_ready_def Sender5_send_def Receiver5_receive_def Channel5_drop_def Channel5_split_def
  Channel6_default_def Sender6_send_def Receiver6_receive_def Channel6_drop_def Channel6_split_def



text \<open>
  C12. The main program of 05-03 (run-time checks), in which the main thread parks until
  \<open>is_ready\<close>, receives and asserts the message: no undefined behaviour, no panic,
  no unexpected output, and no lost wake-up: in every reachable state the main thread has ended
  or some thread can make a step, without any spurious return of \<open>park\<close>.
\<close>

theorem Channel2_main_sound:
  assumes "reach fx Channel2_thread (init_config [Channel2_default] Channel2_main) c"
  shows "chan_sound fx Channel2_thread {} c"
  by (rule chan_programs [OF chan_inv_init Channel2_main_ok Channel2_thread_ok assms])
     (simp_all add: chan_ok_def Channel2_default_def static_val_def)

theorem Channel2_main_sound_witness:
  "\<exists>c :: nat config. chan_sound (\<lambda>_ _ _ _. True) Channel2_thread
     {} c \<and> finished c 0 \<and> finished c 1"
proof -
  obtain c :: "nat config" where c: "run (\<lambda>_ _ _ _. True) Channel2_thread
      (sched [(0, 0), (0, 0), (0, 0), (1, 0), (1, 0), (1, 1), (1, 0), (0, 0), (0, 0), (0, 1), (0, 1), (0, 0), (0, 0), (0, 0)])
      (init_config [Channel2_default] Channel2_main) = Some c" "finished c 0" "finished c 1"
    by (simp add: run_simps assert_that_def Channel2_main_def Channel2_thread_def chan_op_defs chan_defs)
  from Channel2_main_sound [OF run_reach [OF c(1)]] c(2-) show ?thesis by blast
qed

text \<open>
  C13. The main program of 05-03 (one atomic state), in which the main thread parks until
  \<open>is_ready\<close>, receives and asserts the message: no undefined behaviour, no panic,
  no unexpected output, and no lost wake-up: in every reachable state the main thread has ended
  or some thread can make a step, without any spurious return of \<open>park\<close>.
\<close>

theorem Channel3_main_sound:
  assumes "reach fx Channel3_thread (init_config [Channel3_default] Channel3_main) c"
  shows "chan_sound fx Channel3_thread {} c"
  by (rule chan_programs [OF chan_inv_init Channel3_main_ok Channel3_thread_ok assms])
     (simp_all add: chan_ok_def Channel3_default_def static_val_def READY_def EMPTY_def)

theorem Channel3_main_sound_witness:
  "\<exists>c :: nat config. chan_sound (\<lambda>_ _ _ _. True) Channel3_thread
     {} c \<and> finished c 0 \<and> finished c 1"
proof -
  obtain c :: "nat config" where c: "run (\<lambda>_ _ _ _. True) Channel3_thread
      (sched [(0, 0), (0, 0), (0, 0), (1, 0), (1, 0), (1, 2), (1, 0), (0, 0), (0, 0), (0, 2), (0, 2), (0, 0), (0, 0), (0, 0)])
      (init_config [Channel3_default] Channel3_main) = Some c" "finished c 0" "finished c 1"
    by (simp add: run_simps assert_that_def cas_result_def is_err_def Channel3_main_def Channel3_thread_def chan_op_defs chan_defs)
  from Channel3_main_sound [OF run_reach [OF c(1)]] c(2-) show ?thesis by blast
qed



text \<open>
  C15. The main program of 05-05, in which the main thread splits the channel, parks until
  \<open>is_ready\<close>, receives and asserts the message: no undefined behaviour, no panic,
  no unexpected output, and no lost wake-up: in every reachable state the main thread has ended
  or some thread can make a step, without any spurious return of \<open>park\<close>.
\<close>

theorem Channel5_main_sound:
  assumes "reach fx Channel5_thread (init_config [Channel5_default] Channel5_main) c"
  shows "chan_sound fx Channel5_thread {} c"
  by (rule chan_programs [OF chan_inv_init Channel5_main_ok Channel5_thread_ok assms])
     (simp_all add: chan_ok_def Channel5_default_def static_val_def)

theorem Channel5_main_sound_witness:
  "\<exists>c :: nat config. chan_sound (\<lambda>_ _ _ _. True) Channel5_thread
     {} c \<and> finished c 0 \<and> finished c 1"
proof -
  obtain c :: "nat config" where c: "run (\<lambda>_ _ _ _. True) Channel5_thread
      (sched [(0, 0), (0, 0), (0, 0), (0, 0), (0, 0), (0, 0), (1, 0), (1, 1), (1, 0), (0, 0), (0, 0), (0, 1), (0, 1), (0, 0), (0, 0), (0, 0)])
      (init_config [Channel5_default] Channel5_main) = Some c" "finished c 0" "finished c 1"
    by (simp add: run_simps assert_that_def Channel5_main_def Channel5_thread_def chan_op_defs chan_defs)
  from Channel5_main_sound [OF run_reach [OF c(1)]] c(2-) show ?thesis by blast
qed

text \<open>
  C16. The main program of 05-06, in which the main thread blocks in \<open>receive\<close> and
  asserts the message: no undefined behaviour, no panic, no unexpected output, and no lost wake-
  up: in every reachable state the main thread has ended or some thread can make a step, without
  any spurious return of \<open>park\<close>.
\<close>

theorem Channel6_main_sound:
  assumes "reach fx Channel6_thread (init_config [Channel6_default] Channel6_main) c"
  shows "chan_sound fx Channel6_thread {} c"
  by (rule chan_programs [OF chan_inv_init Channel6_main_ok Channel6_thread_ok assms])
     (simp_all add: chan_ok_def Channel6_default_def static_val_def)

theorem Channel6_main_sound_witness:
  "\<exists>c :: nat config. chan_sound (\<lambda>_ _ _ _. True) Channel6_thread
     {} c \<and> finished c 0 \<and> finished c 1"
proof -
  obtain c :: "nat config" where c: "run (\<lambda>_ _ _ _. True) Channel6_thread
      (sched [(0, 0), (0, 0), (0, 0), (0, 0), (0, 0), (0, 0), (1, 0), (1, 2), (1, 0), (0, 0), (0, 0), (0, 2), (0, 0), (0, 0), (0, 0)])
      (init_config [Channel6_default] Channel6_main) = Some c" "finished c 0" "finished c 1"
    by (simp add: run_simps assert_that_def Channel6_main_def Channel6_thread_def chan_op_defs chan_defs)
  from Channel6_main_sound [OF run_reach [OF c(1)]] c(2-) show ?thesis by blast
qed

text \<open>One thread uses the channel alone.\<close>

definition used :: "('a, bool) prog \<Rightarrow> ('a, unit) prog \<Rightarrow> ('a, 'a val) prog \<Rightarrow> ('a, unit) prog \<Rightarrow> ('a, unit) prog" where
  "used is_ready send receive dropped =
     bindp is_ready (\<lambda>b. seqp (println (VBool b)) (seqp send (bindp is_ready (\<lambda>b. seqp (println (VBool b))
       (bindp receive (\<lambda>m. seqp (println m) (bindp is_ready (\<lambda>b. seqp (println (VBool b)) dropped))))))))"

definition unused :: "('a, unit) prog \<Rightarrow> ('a, unit) prog \<Rightarrow> ('a, unit) prog" where
  "unused send dropped = seqp send dropped"

lemmas chan_eval = solo_eval used_def unused_def chan_defs cas_result_def is_err_def

abbreviation solo_gives :: "'a val list \<Rightarrow> 'a val list \<Rightarrow> 'a val list list \<Rightarrow> ('a, unit) prog \<Rightarrow> bool" where
  "solo_gives os ds vs p \<equiv> solo (\<lambda>M. out M = os \<and> drops M = ds) (\<lambda>_ _. False) (init_mem vs) p"

abbreviation solo_panics :: "string \<Rightarrow> 'a val list list \<Rightarrow> ('a, unit) prog \<Rightarrow> bool" where
  "solo_panics m vs p \<equiv> solo (\<lambda>_. False) (\<lambda>x _. x = m) (init_mem vs) p"


text \<open>
  C17. The channel of 05-03 (run-time checks) used by one thread: \<open>is_ready\<close> is false
  before the send, true after it and false after the receive, which gives back the message; the
  destructor then drops nothing, while it drops the message if it was not received.
\<close>

theorem Channel2_roundtrip:
  assumes "v \<noteq> Uninit"
  shows "solo_gives [VBool False, VBool True, v, VBool False] [] [Channel2_default]
     (used (Channel2_is_ready 0) (Channel2_send 0 v) (Channel2_receive 0) (Channel2_drop 0)) \<and>
   solo_gives [] [v] [Channel2_default] (unused (Channel2_send 0 v) (Channel2_drop 0))"
  using assms by (simp add: chan_eval chan_op_defs)

theorem Channel2_roundtrip_witness:
  "solo_gives [VBool False, VBool True, VU8 7, VBool False :: nat val] [] [Channel2_default]
     (used (Channel2_is_ready 0) (Channel2_send 0 (VU8 7)) (Channel2_receive 0) (Channel2_drop 0))"
  using Channel2_roundtrip [of "VU8 7 :: nat val"] by simp

text \<open>
  The channel of 05-03 (one atomic state) used by one thread: \<open>is_ready\<close> is false
  before the send, true after it and false after the receive, which gives back the message; the
  destructor then drops nothing, while it drops the message if it was not received.
\<close>

theorem Channel3_roundtrip:
  assumes "v \<noteq> Uninit"
  shows "solo_gives [VBool False, VBool True, v, VBool False] [] [Channel3_default]
     (used (Channel3_is_ready 0) (Channel3_send 0 v) (Channel3_receive 0) (Channel3_drop 0)) \<and>
   solo_gives [] [v] [Channel3_default] (unused (Channel3_send 0 v) (Channel3_drop 0))"
  using assms by (simp add: chan_eval chan_op_defs)

theorem Channel3_roundtrip_witness:
  "solo_gives [VBool False, VBool True, VU8 7, VBool False :: nat val] [] [Channel3_default]
     (used (Channel3_is_ready 0) (Channel3_send 0 (VU8 7)) (Channel3_receive 0) (Channel3_drop 0))"
  using Channel3_roundtrip [of "VU8 7 :: nat val"] by simp



text \<open>
  Misuse of the channel of 05-03 (one atomic state) panics: a second send, a receive without a
  message, and a second receive, each with the message of the code and without undefined
  behaviour.
\<close>

theorem Channel3_errors:
  assumes "v \<noteq> Uninit"
  shows "solo_panics ''can't send more than cone message!'' [Channel3_default]
     (seqp (Channel3_send 0 v) (Channel3_send 0 w)) \<and>
   solo_panics ''no message available!'' [Channel3_default]
     (bindp (Channel3_receive 0) (\<lambda>_. Ret ())) \<and>
   solo_panics ''no message available!'' [Channel3_default]
     (seqp (Channel3_send 0 v) (bindp (Channel3_receive 0) (\<lambda>_. bindp (Channel3_receive 0) (\<lambda>_. Ret ()))))"
  using assms by (simp add: chan_eval chan_op_defs)

theorem Channel3_errors_witness:
  "solo_panics ''can't send more than cone message!'' [Channel3_default]
     (seqp (Channel3_send 0 (VU8 7 :: nat val)) (Channel3_send 0 (VU8 8)))"
  using Channel3_errors [of "VU8 7 :: nat val" "VU8 8"] by blast

text \<open>
  The channel of 05-05 can be split again: the assignment of a fresh channel drops the message
  \<open>v\<close> that was sent and never received, once, and the new halves transmit
  \<open>w\<close>.
\<close>

theorem Channel5_split_reuse:
  assumes "v \<noteq> Uninit" "w \<noteq> Uninit"
  shows "solo_gives [VBool True, VBool False, w] [v] [Channel5_default]
    (bindp (Channel5_split 0) (\<lambda>(s, r). seqp (Sender5_send s v) (bindp (Receiver5_is_ready r) (\<lambda>b. seqp (println (VBool b))
       (bindp (Channel5_split 0) (\<lambda>(s, r). bindp (Receiver5_is_ready r) (\<lambda>b. seqp (println (VBool b))
         (seqp (Sender5_send s w) (bindp (Receiver5_receive r) (\<lambda>m. seqp (println m) (Channel5_drop 0)))))))))))"
  using assms by (simp add: chan_eval chan_op_defs)

theorem Channel5_split_reuse_witness:
  "solo_gives [VBool True, VBool False, VU8 8 :: nat val] [VU8 7] [Channel5_default]
    (bindp (Channel5_split 0) (\<lambda>(s, r). seqp (Sender5_send s (VU8 7)) (bindp (Receiver5_is_ready r) (\<lambda>b. seqp (println (VBool b))
       (bindp (Channel5_split 0) (\<lambda>(s, r). bindp (Receiver5_is_ready r) (\<lambda>b. seqp (println (VBool b))
         (seqp (Sender5_send s (VU8 8)) (bindp (Receiver5_receive r) (\<lambda>m. seqp (println m) (Channel5_drop 0)))))))))))"
  using Channel5_split_reuse [of "VU8 7 :: nat val" "VU8 8"] by simp

end
