(* ===== verification/Atomic_Protocol.thy ===== *)
theory Atomic_Protocol
  imports Protocol Access
begin

text \<open>
  Programs that share only atomic variables cannot have undefined behaviour; what remains of a
  protocol for them is its invariant. \<open>atomic_protocol\<close> is the interface for such protocols, and
  \<open>atomic_cases\<close> the case analysis of their steps.
\<close>

section \<open>Steps of programs without non-atomic accesses\<close>

fun atomic_instr :: "'a instr \<Rightarrow> bool" where
  "atomic_instr (ILoad o1 l) = True"
| "atomic_instr (IStore o1 l v) = True"
| "atomic_instr (IRmw os of1 w l f) = True"
| "atomic_instr (IFence o1) = True"
| "atomic_instr (ISpawn a) = True"
| "atomic_instr (IJoin u) = True"
| "atomic_instr IPark = True"
| "atomic_instr (IUnpark u) = True"
| "atomic_instr (IWait l v) = True"
| "atomic_instr (IWake l) = True"
| "atomic_instr IInput = True"
| "atomic_instr (IPrint v) = True"
| "atomic_instr ICurrent = True"
| "atomic_instr ITau = True"
| "atomic_instr i = False"

definition all_atomic :: "'a mem \<Rightarrow> bool" where
  "all_atomic M \<longleftrightarrow> \<not> ub M \<and> (\<forall>l. atomic_only (log M l)) \<and> (\<forall>b. \<not> freed M b)"

lemma all_atomic_init: "all_atomic (init_mem vs)"
  by (simp add: all_atomic_def init_mem_def)

lemma accessed_atomic:
  assumes "accessed t x k M M'" "k \<in> {AtRead, AtWrite}" "all_atomic M" "ub M' = (ub M \<or> freed M (blk x) \<or> races k (cur M t) (log M x))"
  shows "all_atomic M'"
proof -
  have "\<not> races k (cur M t) (log M x)" using assms(2,3) by (auto simp: all_atomic_def)
  moreover obtain n where "log M' = (log M)(x := (t, n, k) # log M x)" using assms(1) by (auto simp: accessed_def)
  ultimately show ?thesis using assms by (auto simp: all_atomic_def accessed_def)
qed

text \<open>What steps that touch no memory leave alone.\<close>

definition idle_step :: "tid \<Rightarrow> 'a mem \<Rightarrow> 'a mem \<Rightarrow> bool" where
  "idle_step t M M' \<longleftrightarrow> hist M' = hist M \<and> out M' = out M \<and> nthreads M' = nthreads M \<and> log M' = log M \<and>
     scv M' = scv M \<and> ub M' = ub M \<and> freed M' = freed M \<and> nblocks M' = nblocks M \<and>
     cur M t \<le> cur M' t \<and> (\<forall>u. u \<noteq> t \<longrightarrow> cur M' u = cur M u)"

lemma idle_cur: "idle_step t M M' \<Longrightarrow> cur M u \<le> cur M' u"
  by (cases "u = t") (auto simp: idle_step_def)

lemma atomic_cases [consumes 2, case_names Load Store Rmw Fail Spawn Join Print Idle]:
  assumes ex: "mexec fx ch t i M = Some (r, M')" and "atomic_instr i"
  obtains
    (Load) o1 l ts m where "i = ILoad o1 l" "r = RVal (mval m)" "load_step t l o1 ts M M' m" "readable o1 t l ts M"
  | (Store) o1 l v ts m where "i = IStore o1 l v" "r = RVal VUnit" "mval m = v" "store_step t l o1 ts M M' m"
  | (Rmw) os of1 w l f ts m m' where "i = IRmw os of1 w l f" "r = RCas True (mval m)" "f (mval m) = Some (mval m')"
      "rmw_step t l os ts M M' m m'"
  | (Fail) os of1 w l f ts m where "i = IRmw os of1 w l f" "r = RCas False (mval m)" "load_step t l of1 ts M M' m"
  | (Spawn) a where "i = ISpawn a" "r = RVal (VTid (nthreads M))" "M' = m_spawn t M"
  | (Join) u where "i = IJoin u" "r = RVal VUnit" "M' = m_join t u M"
  | (Print) v where "i = IPrint v" "r = RVal VUnit" "M' = M\<lparr>out := out M @ [v]\<rparr>"
  | (Idle) "i \<in> {IPark, IInput, ICurrent, ITau} \<or> (\<exists>u. i = IUnpark u) \<or> (\<exists>o1. i = IFence o1) \<or> (\<exists>l. i = IWake l \<or> (\<exists>v. i = IWait l v))"
      "idle_step t M M'"
proof (cases i)
  case (ILoad o1 l)
  with ex obtain v where r: "r = RVal v" "m_load (ch_ts ch) t o1 l M = Some (v, M')" by auto
  moreover from r(2) have "readable o1 t l (ch_ts ch) M" by (auto simp: m_load_def split: option.splits if_splits)
  moreover from m_load_step [OF r(2)] obtain m where "v = mval m" "load_step t l o1 (ch_ts ch) M M' m" by blast
  ultimately show ?thesis using Load [OF ILoad] by blast
next
  case (IStore o1 l v)
  with ex have r: "r = RVal VUnit" "m_store (ch_ts ch) t o1 l v M = Some M'" by auto
  from m_store_step [OF r(2)] obtain m where "mval m = v" "store_step t l o1 (ch_ts ch) M M' m" by blast
  with r(1) show ?thesis using Store [OF IStore] by blast
next
  case (IRmw os of1 w l f)
  with ex obtain b v where r: "r = RCas b v" "m_rmw (ch_ts ch) (w \<and> ch_flag ch) t os of1 l f M = Some (b, v, M')" by auto
  show ?thesis
  proof (cases b)
    case True
    with r(2) obtain m m' where "v = mval m" "f v = Some (mval m')" "rmw_step t l os (ch_ts ch) M M' m m'"
      using m_rmw_step by (metis (full_types))
    with True r(1) show ?thesis using Rmw [OF IRmw] by simp
  next
    case False
    with r(2) obtain m where "v = mval m" "load_step t l of1 (ch_ts ch) M M' m" using m_rmw_fail by (metis (full_types))
    with False r(1) show ?thesis using Fail [OF IRmw] by simp
  qed
next
  case (ISpawn a)
  with ex show ?thesis using Spawn by simp
next
  case (IJoin u)
  with ex show ?thesis using Join by simp
next
  case (IPrint v)
  with ex show ?thesis using Print by simp
next
  case (IFence o1)
  with ex have "idle_step t M M'" by (cases "acquires o1") (auto simp: idle_step_def m_fence_def)
  with IFence Idle show ?thesis by blast
next
  case (IUnpark u)
  with ex have "idle_step t M M'" by (auto simp: idle_step_def m_unpark_def)
  with IUnpark Idle show ?thesis by blast
next
  case IPark
  with ex have "idle_step t M M'" by (auto simp: idle_step_def m_park_def split: option.splits if_splits)
  with IPark Idle show ?thesis by blast
next
  case (IWait l v)
  with ex have "idle_step t M M'" by (simp add: idle_step_def split: if_splits)
  with IWait Idle show ?thesis by blast
next
  case (IWake l)
  with ex have "idle_step t M M'" by (simp add: idle_step_def)
  with IWake Idle show ?thesis by blast
next
  case IInput
  with ex have "idle_step t M M'" by (simp add: idle_step_def)
  with IInput Idle show ?thesis by blast
next
  case ICurrent
  with ex have "idle_step t M M'" by (simp add: idle_step_def)
  with ICurrent Idle show ?thesis by blast
next
  case ITau
  with ex have "idle_step t M M'" by (simp add: idle_step_def)
  with ITau Idle show ?thesis by blast
qed (use assms(2) in simp_all)

lemma all_atomic_step:
  assumes "mexec fx ch t i M = Some (r, M')" "atomic_instr i" "all_atomic M"
  shows "all_atomic M'"
  using assms(1,2)
proof (cases rule: atomic_cases)
  case (Load o1 l ts m)
  then show ?thesis unfolding load_step_def using assms(3) by (blast intro: accessed_atomic)
next
  case (Store o1 l v ts m)
  then show ?thesis unfolding store_step_def using assms(3) by (blast intro: accessed_atomic)
next
  case (Rmw os of1 w l f ts m m')
  then show ?thesis unfolding rmw_step_def using assms(3) by (blast intro: accessed_atomic)
next
  case (Fail os of1 w l f ts m)
  then show ?thesis unfolding load_step_def using assms(3) by (blast intro: accessed_atomic)
qed (use assms(3) in \<open>auto simp: all_atomic_def m_spawn_def m_join_def idle_step_def\<close>)

section \<open>The interface\<close>

locale atomic_protocol =
  fixes pos :: "'s \<Rightarrow> 'a instr \<Rightarrow> 'a resp \<Rightarrow> bool"
    and tr :: "'s \<Rightarrow> 'a instr \<Rightarrow> 'a resp \<Rightarrow> 's \<Rightarrow> bool"
    and pan :: "'s \<Rightarrow> bool"
    and child :: "'a val \<Rightarrow> 's"
    and fin :: "'s \<Rightarrow> bool"
    and bnd :: "'a mem \<Rightarrow> bool"
    and J :: "(tid \<Rightarrow> 's) \<Rightarrow> 'a mem \<Rightarrow> bool"
  assumes tau: "tr s ITau r s"
    and bound_back: "mexec fx ch t i M = Some (r, M') \<Longrightarrow> bnd M' \<Longrightarrow> bnd M"
    and tr_atomic: "tr s i r s' \<Longrightarrow> atomic_instr i"
    and j_pos: "J S M \<Longrightarrow> wf_mem M \<Longrightarrow> bnd M \<Longrightarrow> t < nthreads M \<Longrightarrow> joins_final fin S M i \<Longrightarrow>
      mexec fx ch t i M = Some (r, M') \<Longrightarrow> atomic_instr i \<Longrightarrow> pos (S t) i r"
    and pos_other: "\<not> atomic_instr i \<Longrightarrow> pos s i r"
    and j_step: "J S M \<Longrightarrow> wf_mem M \<Longrightarrow> wf_mem M' \<Longrightarrow> bnd M \<Longrightarrow> bnd M' \<Longrightarrow> t < nthreads M \<Longrightarrow> joins_final fin S M i \<Longrightarrow>
      mexec fx ch t i M = Some (r, M') \<Longrightarrow> atomic_instr i \<Longrightarrow> tr (S t) i r s' \<Longrightarrow>
      J (upd_state child S t i s' (nthreads M)) M'"

sublocale atomic_protocol \<subseteq> bounded_protocol pos tr pan child fin bnd "\<lambda>S M. J S M \<and> all_atomic M"
proof
  show "tr s ITau r s" for s r by (rule tau)
  show "mexec fx ch t i M = Some (r, M') \<Longrightarrow> bnd M' \<Longrightarrow> bnd M" for fx ch t i M r M' by (rule bound_back)
next
  fix S M t i fx ch r M'
  assume "J S M \<and> all_atomic M" "wf_mem M" "bnd M" "\<not> ub M" "t < nthreads M" "joins_final fin S M i"
    "mexec fx ch t i M = Some (r, M')"
  then show "pos (S t) i r" using j_pos pos_other by blast
next
  fix S M M' t i fx ch r s'
  assume "J S M \<and> all_atomic M" "wf_mem M" "wf_mem M'" "bnd M" "bnd M'" "\<not> ub M" "t < nthreads M" "joins_final fin S M i"
    and ex: "mexec fx ch t i M = Some (r, M')" and tr: "tr (S t) i r s'"
  with j_step tr_atomic [OF tr] all_atomic_step [OF ex]
  show "J (upd_state child S t i s' (nthreads M)) M' \<and> all_atomic M'" by blast
qed

context atomic_protocol
begin

text \<open>What every process all of whose threads conform satisfies.\<close>

theorem atomic_reach:
  assumes "J (\<lambda>_. s0) (init_mem vs)" and "conforms pos tr pan (\<lambda>_ s. fin s) s0 main"
    and "\<And>a. conforms pos tr pan (\<lambda>_ s. fin s) (child a) (code a)"
    and "reach fx code (init_config vs main) c" and "bnd (mem c)"
  shows "\<not> ub (mem c) \<and> (\<exists>S. J S (mem c) \<and>
    (\<forall>t p. progs c t = Some p \<longrightarrow> t < nthreads (mem c) \<and> conforms pos tr pan (\<lambda>_ s. fin s) (S t) p))"
proof -
  have "safe (init_config vs main)" using assms(1,2) all_atomic_init by (intro safe_init) auto
  with assms(3) have "safe c" using assms(4,5) by (rule safe_reach_bnd)
  then show ?thesis unfolding safe_def by (auto simp: all_atomic_def)
qed

end

end
