(* ===== verification/Ids.thy ===== *)
theory Ids
  imports Atomic_Protocol Solo
begin

text \<open>
  Issuing identifiers from an atomic counter: the three functions of 02-02-03 and the one of
  02-03-01. For every number of threads and calls, no identifier is issued twice as long as the
  counter does not wrap around, and a call fails only when all identifiers are issued.
\<close>

section \<open>The code\<close>

text \<open>The static variable of each function.\<close>

definition NEXT_ID_wrap :: loc where "NEXT_ID_wrap = Loc 0 0"

definition NEXT_ID_problem :: loc where "NEXT_ID_problem = Loc 1 0"

definition NEXT_ID_decrement :: loc where "NEXT_ID_decrement = Loc 2 0"

definition NEXT_ID_statics :: "'a val list list" where
  "NEXT_ID_statics = [[VU32 0], [VU32 0], [VU32 0]]"

definition allocate_new_id_with_wrap_around :: "('a, 32 word) prog" where
  "allocate_new_id_with_wrap_around =
     bindp (fetch_add NEXT_ID_wrap (VU32 1) Relaxed) (\<lambda>v. Ret (as_u32 v))"

definition current_value :: "'a val \<Rightarrow> 'a val" where
  "current_value v = VList [VStr ''current value of NEXT_ID: '', v]"

definition allocate_new_id_with_problem :: "('a, 32 word) prog" where
  "allocate_new_id_with_problem =
     bindp (fetch_add NEXT_ID_problem (VU32 1) Relaxed) (\<lambda>v. let id = as_u32 v in
     bindp (load NEXT_ID_problem Relaxed) (\<lambda>v.
     seqp (println (current_value v))
     (seqp (assert_that (id < 10) ''too many IDs!'')
     (Ret id))))"

definition allocate_new_id_with_decrement :: "('a, 32 word) prog" where
  "allocate_new_id_with_decrement =
     bindp (fetch_add NEXT_ID_decrement (VU32 1) Relaxed) (\<lambda>v. let id = as_u32 v in
     if 10 \<le> id
     then bindp (fetch_sub NEXT_ID_decrement (VU32 1) Relaxed) (\<lambda>_.
          bindp (load NEXT_ID_decrement Relaxed) (\<lambda>v.
          seqp (println (current_value v))
          (Panic ''too many IDs!'')))
     else Ret id)"

definition id_line :: "32 word \<Rightarrow> 'a val" where
  "id_line w = VList [VStr ''id: '', VU32 w]"


text \<open>02-03-01.\<close>

definition NEXT_ID :: loc where "NEXT_ID = Loc 0 0"

definition allocate_new_id :: "('a, 32 word) prog" where
  "allocate_new_id =
     bindp (load NEXT_ID Relaxed) (\<lambda>v.
     loop (\<lambda>id.
       seqp (assert_that (id < 1000) ''too many IDs!'')
       (bindp (compare_exchange_weak NEXT_ID (VU32 id) (VU32 (id + 1)) Relaxed Relaxed) (\<lambda>r.
         Ret (case r of Inr _ \<Rightarrow> Inr id | Inl v \<Rightarrow> Inl (as_u32 v)))))
       (as_u32 v))"

definition new_ids_main :: "('a, unit) prog" where
  "new_ids_main = for_range 0 1001 (\<lambda>_. bindp allocate_new_id (\<lambda>id. println (id_line id)))"

section \<open>The protocol\<close>

text \<open>
  The state of a thread: it has no identifier; it has been issued one that it has not printed;
  it has incremented the counter beyond the limit; it knows that all identifiers are issued.
\<close>

datatype idst = Idle | Got nat | Over | Full

definition id_of_line :: "'a val \<Rightarrow> nat option" where
  "id_of_line v = (case v of VList [VStr p, VU32 w] \<Rightarrow> if p = ''id: '' then Some (unat w) else None | _ \<Rightarrow> None)"

definition ids_of :: "'a val list \<Rightarrow> nat list" where
  "ids_of vs = List.map_filter id_of_line vs"

lemma ids_of_simps [simp]:
  "ids_of [] = []" "ids_of (vs @ [v]) = ids_of vs @ (case id_of_line v of None \<Rightarrow> [] | Some k \<Rightarrow> [k])"
  by (auto simp: ids_of_def map_filter_def split: option.splits)

lemma length_ids_of: "length (ids_of vs) \<le> length vs"
  by (simp add: ids_of_def map_filter_def)

lemma id_of_line_simps [simp]: "id_of_line (id_line w) = Some (unat w)" "id_of_line (current_value v) = None"
  by (simp_all add: id_of_line_def id_line_def current_value_def split: val.splits)

text \<open>
  \<open>lim\<close> is the number of identifiers; with \<open>ex\<close> the counter is never incremented beyond it.
\<close>

fun id_tr :: "loc \<Rightarrow> nat \<Rightarrow> bool \<Rightarrow> idst \<Rightarrow> 'a instr \<Rightarrow> 'a resp \<Rightarrow> idst \<Rightarrow> bool" where
  "id_tr l lim ex s (ILoad o1 x) r s' = (x = l \<and> s' = (if s = Idle \<and> lim \<le> unat (as_u32 (rval r)) then Full else s))"
| "id_tr l lim ex s (IRmw os of1 w x f) r s' = (x = l \<and> (let v = as_u32 (rval r) in
     if rok r then (case s of
         Idle \<Rightarrow> f (rval r) = Some (VU32 (v + 1)) \<and> (ex \<longrightarrow> unat v < lim) \<and> s' = (if unat v < lim then Got (unat v) else Over)
       | Over \<Rightarrow> f (rval r) = Some (VU32 (v - 1)) \<and> s' = Full
       | _ \<Rightarrow> False)
     else s' = (if s = Idle \<and> lim \<le> unat v then Full else s)))"
| "id_tr l lim ex s (IPrint v) r s' = (case id_of_line v of None \<Rightarrow> s' = s | Some k \<Rightarrow> s = Got k \<and> s' = Idle)"
| "id_tr l lim ex s (ISpawn a) r s' = (s' = s)"
| "id_tr l lim ex s (IJoin u) r s' = (s' = s)"
| "id_tr l lim ex s ITau r s' = (s' = s)"
| "id_tr l lim ex s i r s' = False"

fun id_pos :: "loc \<Rightarrow> idst \<Rightarrow> 'a instr \<Rightarrow> 'a resp \<Rightarrow> bool" where
  "id_pos l s (ILoad o1 x) r = (x = l \<longrightarrow> (\<exists>w. rval r = VU32 w))"
| "id_pos l s (IRmw os of1 w x f) r = (x = l \<longrightarrow> (\<exists>w. rval r = VU32 w))"
| "id_pos l s i r = True"

definition id_pan :: "idst \<Rightarrow> bool" where
  "id_pan s \<longleftrightarrow> s \<in> {Over, Full}"

definition id_fin :: "idst \<Rightarrow> bool" where
  "id_fin s \<longleftrightarrow> (\<forall>k. s \<noteq> Got k)"

definition id_bnd :: "bool \<Rightarrow> 'a mem \<Rightarrow> bool" where
  "id_bnd ex M \<longleftrightarrow> ex \<or> length (out M) + 2 * nthreads M + 1 < 2 ^ 32"

section \<open>The invariant\<close>

definition over :: "(tid \<Rightarrow> idst) \<Rightarrow> nat \<Rightarrow> nat" where
  "over S n = (\<Sum>t<n. if S t = Over then 1 else 0)"

text \<open>The identifiers below \<open>s\<close> have been issued, each once: printed, or held by one thread.\<close>

definition id_book :: "nat \<Rightarrow> nat \<Rightarrow> (tid \<Rightarrow> idst) \<Rightarrow> nat \<Rightarrow> nat list \<Rightarrow> bool" where
  "id_book lim s S n ids \<longleftrightarrow> s \<le> lim \<and> distinct ids \<and> (\<forall>k \<in> set ids. k < s) \<and>
     (\<forall>t k. t < n \<longrightarrow> S t = Got k \<longrightarrow> k < s \<and> k \<notin> set ids) \<and>
     (\<forall>t u k. t < n \<longrightarrow> u < n \<longrightarrow> S t = Got k \<longrightarrow> S u = Got k \<longrightarrow> t = u) \<and>
     (\<forall>k < s. k \<in> set ids \<or> (\<exists>t < n. S t = Got k)) \<and>
     (\<forall>t < n. S t \<in> {Over, Full} \<longrightarrow> s = lim)"

definition id_hist :: "nat \<Rightarrow> nat \<Rightarrow> nat \<Rightarrow> (nat \<Rightarrow> 'a msg option) \<Rightarrow> bool" where
  "id_hist lim s v h \<longleftrightarrow> (\<exists>n m. chain h n \<and> h n = Some m \<and> mval m = VU32 (of_nat v)) \<and>
     (\<forall>k m. h k = Some m \<longrightarrow> (\<exists>w. mval m = VU32 w \<and> (lim \<le> unat w \<longrightarrow> s = lim)))"

definition id_inv :: "loc \<Rightarrow> nat \<Rightarrow> bool \<Rightarrow> (tid \<Rightarrow> idst) \<Rightarrow> 'a mem \<Rightarrow> bool" where
  "id_inv l lim ex S M \<longleftrightarrow> (ex \<longrightarrow> lim < 2 ^ 32 \<and> over S (nthreads M) = 0) \<and>
     (\<exists>s. id_book lim s S (nthreads M) (ids_of (out M)) \<and> id_hist lim s (s + over S (nthreads M)) (hist M l))"

lemma over_upd: "t < n \<Longrightarrow> over (S(t := x)) n + (if S t = Over then 1 else 0) = over S n + (if x = Over then 1 else 0)"
  unfolding over_def by (rule sum_upd)

lemma over_new: "over (S(n := x)) (Suc n) = over S n + (if x = Over then 1 else 0)"
  by (simp add: over_def)

lemma over_0: "over S n = 0 \<longleftrightarrow> (\<forall>t < n. S t \<noteq> Over)"
  by (auto simp: over_def)

lemma over_le: "over S n \<le> n"
proof -
  have "over S n \<le> (\<Sum>t<n. 1)" unfolding over_def by (rule sum_mono) simp
  then show ?thesis by simp
qed

lemma id_book_over: "id_book lim s S n ids \<Longrightarrow> 0 < over S n \<Longrightarrow> s = lim"
  using over_0 [of S n] unfolding id_book_def by auto

text \<open>Not more identifiers have been issued than printed, or held by a thread.\<close>

lemma id_book_count:
  assumes "id_book lim s S n ids"
  shows "s \<le> length ids + card {t. t < n \<and> (\<exists>k. S t = Got k)}"
proof -
  let ?H = "{t. t < n \<and> (\<exists>k. S t = Got k)}"
  have "{..<s} \<subseteq> set ids \<union> (\<lambda>t. THE k. S t = Got k) ` ?H"
    using assms unfolding id_book_def by (auto simp: image_iff) (metis (mono_tags, lifting) idst.inject the_equality)
  then have "card {..<s} \<le> card (set ids \<union> (\<lambda>t. THE k. S t = Got k) ` ?H)" by (intro card_mono) auto
  also have "\<dots> \<le> card (set ids) + card ?H"
    by (intro order_trans [OF card_Un_le] add_mono card_image_le order_refl) auto
  finally show ?thesis using card_length [of ids] by simp
qed

lemma id_fits:
  assumes "id_inv l lim ex S M" "id_bnd ex M" and book: "id_book lim s S (nthreads M) (ids_of (out M))"
  shows "s + over S (nthreads M) < 2 ^ 32" "\<not> ex \<Longrightarrow> s + over S (nthreads M) + 1 < 2 ^ 32"
proof -
  have "card {t. t < nthreads M \<and> (\<exists>k. S t = Got k)} \<le> card {..<nthreads M}" by (intro card_mono) auto
  then have s: "s \<le> length (out M) + nthreads M"
    using id_book_count [OF book] length_ids_of [of "out M"] by simp
  with assms(2) over_le [of S "nthreads M"] show *: "\<not> ex \<Longrightarrow> s + over S (nthreads M) + 1 < 2 ^ 32"
    by (simp add: id_bnd_def)
  have "s \<le> lim" using book by (simp add: id_book_def)
  with assms(1) * show "s + over S (nthreads M) < 2 ^ 32" by (cases ex) (auto simp: id_inv_def)
qed

section \<open>Every step keeps the invariant\<close>

lemma book_got:
  assumes "id_book lim s S n ids" "t < n" "S t = Idle" "s < lim"
  shows "id_book lim (Suc s) (S(t := Got s)) n ids"
proof -
  have "\<forall>u<n. S u \<notin> {Over, Full}" using assms(1,4) unfolding id_book_def by auto
  moreover have "S u = Got k \<Longrightarrow> k < Suc s" if "u < n" for u k
    using assms(1) that unfolding id_book_def by fastforce
  ultimately show ?thesis using assms unfolding id_book_def
    by (auto simp: less_Suc_eq split: if_splits) (metis idst.distinct(1))
qed

lemma book_print:
  assumes "id_book lim s S n ids" "t < n" "S t = Got k"
  shows "id_book lim s (S(t := Idle)) n (ids @ [k])"
proof -
  have k: "k < s" "k \<notin> set ids" using assms unfolding id_book_def by auto
  have uniq: "u = t" if "u < n" "S u = Got k" for u using that assms unfolding id_book_def by metis
  have all: "j \<in> set ids \<or> (\<exists>u<n. S u = Got j)" if "j < s" for j using that assms(1) unfolding id_book_def by metis
  have "j \<in> set (ids @ [k]) \<or> (\<exists>u<n. (S(t := Idle)) u = Got j)" if "j < s" for j
  proof (cases "j = k")
    case False
    then have "S u = Got j \<Longrightarrow> (S(t := Idle)) u = Got j" for u using assms(3) by auto
    with all [OF that] show ?thesis unfolding set_append by blast
  qed simp
  moreover have "j < s \<and> j \<notin> set (ids @ [k])" if "u < n" "(S(t := Idle)) u = Got j" for u j
    using that uniq assms(1) unfolding id_book_def by (cases "u = t") auto
  moreover have "u1 = u2" if "u1 < n" "u2 < n" "(S(t := Idle)) u1 = Got j" "(S(t := Idle)) u2 = Got j" for u1 u2 j
    using that assms(1) unfolding id_book_def by (auto split: if_splits)
  moreover have "s = lim" if "u < n" "(S(t := Idle)) u \<in> {Over, Full}" for u
    using that assms(1) unfolding id_book_def by (cases "u = t") auto
  moreover have "s \<le> lim" "distinct (ids @ [k])" "\<forall>j \<in> set (ids @ [k]). j < s"
    using assms(1) k unfolding id_book_def by auto
  ultimately show ?thesis unfolding id_book_def by blast
qed

lemma book_full:
  assumes "id_book lim s S n ids" "t < n" "id_fin (S t)" "x \<in> {Over, Full}" "s = lim"
  shows "id_book lim s (S(t := x)) n ids"
proof -
  have "(S(t := x)) u = Got k \<longleftrightarrow> S u = Got k" for u k using assms(3,4) by (auto simp: id_fin_def)
  then show ?thesis using assms(1,5) unfolding id_book_def by simp
qed

lemma book_new:
  assumes "id_book lim s S n ids"
  shows "id_book lim s (S(n := Idle)) (Suc n) ids"
proof -
  have "u < Suc n \<and> (S(n := Idle)) u = Got k \<longleftrightarrow> u < n \<and> S u = Got k" for u k by auto
  moreover have "u < Suc n \<and> (S(n := Idle)) u \<in> {Over, Full} \<longleftrightarrow> u < n \<and> S u \<in> {Over, Full}" for u by auto
  ultimately show ?thesis using assms unfolding id_book_def by meson
qed

lemma unat_u32: "v < 2 ^ 32 \<Longrightarrow> unat (of_nat v :: 32 word) = v"
  by (simp add: unat_of_nat)

text \<open>The counter is only ever changed by read-modify-writes: the next message follows the last.\<close>

lemma id_hist_rmw:
  assumes h: "id_hist lim s v h" and k: "h k = Some m" "h (Suc k) = None"
  shows "mval m = VU32 (of_nat v)"
    and "mval m' = VU32 (of_nat v') \<Longrightarrow> v' < 2 ^ 32 \<Longrightarrow> (s = lim \<Longrightarrow> s' = lim) \<Longrightarrow> (lim \<le> v' \<Longrightarrow> s' = lim) \<Longrightarrow>
      id_hist lim s' v' (h(Suc k \<mapsto> m'))"
proof -
  from h obtain n m1 where n: "chain h n" "h n = Some m1" "mval m1 = VU32 (of_nat v)"
    and all: "\<And>k m. h k = Some m \<Longrightarrow> \<exists>w. mval m = VU32 w \<and> (lim \<le> unat w \<longrightarrow> s = lim)"
    unfolding id_hist_def by blast
  have [simp]: "k = n" using n(1) k by (rule chain_last)
  show "mval m = VU32 (of_nat v)" using n k by simp
  assume m': "mval m' = VU32 (of_nat v')" "v' < 2 ^ 32" "s = lim \<Longrightarrow> s' = lim" "lim \<le> v' \<Longrightarrow> s' = lim"
  have "unat (of_nat v' :: 32 word) = v'" using m'(2) by (rule unat_u32)
  then have "\<exists>w. mval m2 = VU32 w \<and> (lim \<le> unat w \<longrightarrow> s' = lim)" if "(h(Suc k \<mapsto> m')) j = Some m2" for j m2
    using that m' all [of j m2] by (cases "j = Suc k") auto
  moreover have "\<exists>i m2. chain (h(Suc k \<mapsto> m')) i \<and> (h(Suc k \<mapsto> m')) i = Some m2 \<and> mval m2 = VU32 (of_nat v')"
    using chain_upd [OF n(1), of m'] m'(1) by (intro exI [of _ "Suc n"] exI [of _ m']) simp
  ultimately show "id_hist lim s' v' (h(Suc k \<mapsto> m'))" unfolding id_hist_def by blast
qed

lemma id_invE:
  assumes "id_inv l lim ex S M"
  obtains s where "id_book lim s S (nthreads M) (ids_of (out M))" "id_hist lim s (s + over S (nthreads M)) (hist M l)"
    "ex \<longrightarrow> lim < 2 ^ 32 \<and> over S (nthreads M) = 0"
  using assms unfolding id_inv_def by blast

lemma id_inv_val:
  assumes "id_inv l lim ex S M" "hist M l k = Some m"
  shows "\<exists>w. mval m = VU32 w"
  using assms unfolding id_inv_def id_hist_def by blast

text \<open>Reading a value at the limit shows that all identifiers are issued.\<close>

lemma id_inv_read:
  assumes inv: "id_inv l lim ex S M" and t: "t < nthreads M" and m: "hist M l k = Some m"
    and M': "hist M' = hist M" "nthreads M' = nthreads M" "out M' = out M"
    and s': "s' = (if S t = Idle \<and> lim \<le> unat (as_u32 (mval m)) then Full else S t)"
  shows "id_inv l lim ex (S(t := s')) M'"
proof (cases "S t = Idle \<and> lim \<le> unat (as_u32 (mval m))")
  case True
  from inv obtain s where book: "id_book lim s S (nthreads M) (ids_of (out M))"
    and h: "id_hist lim s (s + over S (nthreads M)) (hist M l)" and ex: "ex \<longrightarrow> lim < 2 ^ 32 \<and> over S (nthreads M) = 0"
    by (rule id_invE)
  have "s = lim" using h m True unfolding id_hist_def by fastforce
  moreover have "over (S(t := s')) (nthreads M) = over S (nthreads M)"
    using over_upd [OF t, of S s'] True s' by simp
  ultimately show ?thesis
    using book_full [OF book t, of s'] True s' h ex unfolding id_inv_def M' by (auto simp: id_fin_def)
next
  case False
  then have "S(t := s') = S" using s' by auto
  with inv show ?thesis by (simp add: id_inv_def M')
qed

lemma id_inv_rmw:
  assumes inv: "id_inv l lim ex S M" and bnd: "id_bnd ex M" and t: "t < nthreads M"
    and rmw: "rmw_step t l os k M M' m m'" and f: "f (mval m) = Some (mval m')"
    and tr: "id_tr l lim ex (S t) (IRmw os of1 w l f) (RCas True (mval m)) s'"
  shows "id_inv l lim ex (S(t := s')) M'"
proof -
  from inv obtain s where book: "id_book lim s S (nthreads M) (ids_of (out M))"
    and h: "id_hist lim s (s + over S (nthreads M)) (hist M l)" and ex: "ex \<longrightarrow> lim < 2 ^ 32 \<and> over S (nthreads M) = 0"
    by (rule id_invE)
  let ?o = "over S (nthreads M)"
  from rmw have k: "hist M l k = Some m" "hist M l (Suc k) = None" and M': "hist M' l = (hist M l)(Suc k \<mapsto> m')"
      "nthreads M' = nthreads M" "out M' = out M"
    by (auto simp: rmw_step_def accessed_def)
  define v where "v = s + ?o"
  have v: "mval m = VU32 (of_nat v)" using id_hist_rmw(1) [OF h k] by (simp only: v_def)
  have fits: "v < 2 ^ 32" "\<not> ex \<Longrightarrow> v + 1 < 2 ^ 32" using id_fits [OF inv bnd book] by (auto simp: v_def)
  have u: "unat (of_nat v :: 32 word) = v" using fits(1) by (rule unat_u32)
  have lim: "s \<le> lim" using book by (simp add: id_book_def)
  have full: "s = lim" if "lim \<le> v" using that lim id_book_over [OF book] by (cases "?o = 0") (auto simp: v_def)
  have over': "over (S(t := s')) (nthreads M) + (if S t = Over then 1 else 0) = ?o + (if s' = Over then 1 else 0)"
    using t by (rule over_upd)
  have result: "id_inv l lim ex (S(t := s')) M'"
    if "id_book lim s1 (S(t := s')) (nthreads M) (ids_of (out M))" "mval m' = VU32 (of_nat v')" "v' < 2 ^ 32"
      "v' = s1 + over (S(t := s')) (nthreads M)" "s = lim \<Longrightarrow> s1 = lim" "lim \<le> v' \<Longrightarrow> s1 = lim"
      "ex \<longrightarrow> over (S(t := s')) (nthreads M) = 0" for s1 v'
    using id_hist_rmw(2) [OF h k that(2,3,5,6)] that(1,4,7) ex unfolding id_inv_def M' by blast
  consider (got) "S t = Idle" "v < lim" "s' = Got v" "mval m' = VU32 (of_nat (Suc v))"
    | (over) "S t = Idle" "lim \<le> v" "s' = Over" "mval m' = VU32 (of_nat (Suc v))" "\<not> ex"
    | (sub) "S t = Over" "s' = Full" "mval m' = VU32 (of_nat v - 1)"
    using tr f u v by (auto simp: Let_def add.commute split: idst.splits if_splits)
  then show ?thesis
  proof cases
    case got
    then have o: "?o = 0" using id_book_over [OF book] by (cases "?o = 0") (auto simp: v_def)
    show ?thesis
    proof (rule result [of "Suc s" "Suc v"])
      show "id_book lim (Suc s) (S(t := s')) (nthreads M) (ids_of (out M))"
        using book_got [OF book t got(1)] got o by (simp add: v_def)
      show "Suc v < 2 ^ 32" using fits(2) ex got by (cases ex) auto
    qed (use got o over' v_def in auto)
  next
    case over
    show ?thesis
    proof (rule result [of s "Suc v"])
      show "id_book lim s (S(t := s')) (nthreads M) (ids_of (out M))"
        using book_full [OF book t, of s'] over full by (simp add: id_fin_def)
    qed (use over over' v_def fits full in auto)
  next
    case sub
    have s: "s = lim" using book t sub unfolding id_book_def by auto
    have o: "v = Suc (s + over (S(t := s')) (nthreads M))" using over' sub by (simp add: v_def)
    show ?thesis
    proof (rule result [of s "v - 1"])
      show "id_book lim s (S(t := s')) (nthreads M) (ids_of (out M))"
        using book_full [OF book t, of s'] sub s by (simp add: id_fin_def)
    qed (use sub o s fits ex over' in \<open>auto simp: v_def\<close>)
  qed
qed

lemma id_inv_step:
  assumes inv: "id_inv l lim ex S M" and bnd: "id_bnd ex M" and t: "t < nthreads M"
    and step: "mexec fx ch t i M = Some (r, M')" "atomic_instr i" and tr: "id_tr l lim ex (S t) i r s'"
  shows "id_inv l lim ex (upd_state (\<lambda>_. Idle) S t i s' (nthreads M)) M'"
  using step
proof (cases rule: atomic_cases)
  case (Load o1 x k m)
  then show ?thesis
    using id_inv_read [OF inv t, of k m M' s'] tr by (auto simp: upd_state_def load_step_def accessed_def)
next
  case (Rmw os of1 w x f k m m')
  then show ?thesis
    using id_inv_rmw [OF inv bnd t, of os k M' m m' f of1 w s'] tr by (auto simp: upd_state_def)
next
  case (Fail os of1 w x f k m)
  then show ?thesis
    using id_inv_read [OF inv t, of k m M' s'] tr by (auto simp: upd_state_def load_step_def accessed_def Let_def)
next
  case (Spawn a)
  from inv obtain s where book: "id_book lim s S (nthreads M) (ids_of (out M))"
    and h: "id_hist lim s (s + over S (nthreads M)) (hist M l)" and e: "ex \<longrightarrow> lim < 2 ^ 32 \<and> over S (nthreads M) = 0"
    by (rule id_invE)
  have S: "upd_state (\<lambda>_. Idle) S t i s' (nthreads M) = S(nthreads M := Idle)"
    using tr Spawn by (auto simp: upd_state_def)
  have o: "over (S(nthreads M := Idle)) (Suc (nthreads M)) = over S (nthreads M)" by (simp add: over_new)
  show ?thesis
    using book_new [OF book] h e unfolding id_inv_def S Spawn(3) by (auto simp: m_spawn_def o)
next
  case (Print v)
  from inv obtain s where book: "id_book lim s S (nthreads M) (ids_of (out M))"
    and h: "id_hist lim s (s + over S (nthreads M)) (hist M l)" and e: "ex \<longrightarrow> lim < 2 ^ 32 \<and> over S (nthreads M) = 0"
    by (rule id_invE)
  show ?thesis
  proof (cases "id_of_line v")
    case None
    with Print tr inv show ?thesis by (auto simp: upd_state_def id_inv_def)
  next
    case (Some k)
    with Print tr have "S t = Got k" "s' = Idle" by auto
    moreover from this have "over (S(t := Idle)) (nthreads M) = over S (nthreads M)"
      using over_upd [OF t, of S Idle] by simp
    ultimately show ?thesis
      using book_print [OF book t, of k] h e Print Some unfolding id_inv_def by (auto simp: upd_state_def)
  qed
qed (use inv tr in \<open>auto simp: upd_state_def id_inv_def m_join_def idle_step_def\<close>)

lemma id_bnd_back: "mexec fx ch t i M = Some (r, M') \<Longrightarrow> id_bnd ex M' \<Longrightarrow> id_bnd ex M"
  by (cases i) (auto simp: id_bnd_def m_defs split: option.splits if_splits)

interpretation idp: atomic_protocol "id_pos l" "id_tr l lim ex" id_pan "\<lambda>_. Idle" id_fin "id_bnd ex" "id_inv l lim ex"
proof
  show "id_tr l lim ex s ITau r s" for s r by simp
  show "id_bnd ex M' \<Longrightarrow> id_bnd ex M" if "mexec fx ch t i M = Some (r, M')" for fx ch t i M r M'
    using id_bnd_back [OF that] .
  show "atomic_instr i" if "id_tr l lim ex s i r s'" for s i r s' using that by (cases i) auto
  show "\<not> atomic_instr i \<Longrightarrow> id_pos l s i r" for s i r by (cases i) auto
next
  fix S M t i fx ch r M'
  assume inv: "id_inv l lim ex S M" and step: "mexec fx ch t i M = Some (r, M')" "atomic_instr i"
  from step show "id_pos l (S t) i r"
    by (cases rule: atomic_cases) (use id_inv_val [OF inv] in \<open>auto simp: load_step_def rmw_step_def\<close>)
next
  fix S M M' t i fx ch r s'
  assume "id_inv l lim ex S M" "id_bnd ex M" "t < nthreads M" "mexec fx ch t i M = Some (r, M')" "atomic_instr i"
    "id_tr l lim ex (S t) i r s'"
  then show "id_inv l lim ex (upd_state (\<lambda>_. Idle) S t i s' (nthreads M)) M'" by (rule id_inv_step)
qed

section \<open>Clients\<close>

text \<open>Every thread allocates and prints identifiers, spawns threads and joins them, in any order.\<close>

datatype 'a id_op = Issue | Start "'a val" | Await tid

fun id_client :: "('a, 32 word) prog \<Rightarrow> 'a id_op list \<Rightarrow> ('a, unit) prog" where
  "id_client issue [] = Ret ()"
| "id_client issue (Issue # ops) = bindp issue (\<lambda>w. seqp (println (id_line w)) (id_client issue ops))"
| "id_client issue (Start a # ops) = bindp (spawn a) (\<lambda>_. id_client issue ops)"
| "id_client issue (Await u # ops) = seqp (join u) (id_client issue ops)"

text \<open>A thread that has neither returned nor panicked.\<close>

definition running :: "'a config \<Rightarrow> tid set" where
  "running c = {t. case progs c t of Some (Do i k) \<Rightarrow> True | Some Abort \<Rightarrow> True | _ \<Rightarrow> False}"

text \<open>
  No undefined behaviour; no identifier is printed twice; all are below the limit; and when a
  thread has panicked, all identifiers below the limit have been printed, except for those that
  running threads hold.
\<close>

definition ids_sound :: "nat \<Rightarrow> 'a config \<Rightarrow> bool" where
  "ids_sound lim c \<longleftrightarrow> \<not> ub (mem c) \<and> distinct (ids_of (out (mem c))) \<and> (\<forall>k \<in> set (ids_of (out (mem c))). k < lim) \<and>
     (\<forall>t m. progs c t = Some (Panic m) \<longrightarrow> lim \<le> length (ids_of (out (mem c))) + card (running c))"

abbreviation id_prog :: "loc \<Rightarrow> nat \<Rightarrow> bool \<Rightarrow> ('r \<Rightarrow> idst \<Rightarrow> bool) \<Rightarrow> idst \<Rightarrow> ('a, 'r) prog \<Rightarrow> bool" where
  "id_prog l lim ex Q s p \<equiv> conforms (id_pos l) (id_tr l lim ex) id_pan Q s p"

lemma id_reach:
  assumes "ex \<longrightarrow> lim < 2 ^ 32" "static_val vs l = VU32 0" "id_prog l lim ex (\<lambda>_ s. id_fin s) Idle main"
    and "\<And>a. id_prog l lim ex (\<lambda>_ s. id_fin s) Idle (code a)"
    and reach: "reach fx code (init_config vs main) c" and bnd: "id_bnd ex (mem c)"
  shows "ids_sound lim c"
proof -
  have over: "over (\<lambda>_. Idle) n = 0" for n by (simp add: over_0)
  have "id_inv l lim ex (\<lambda>_. Idle) (init_mem vs)"
    unfolding id_inv_def over using assms(1,2)
    by (auto simp: id_book_def id_hist_def init_mem_def intro!: exI [of _ 0] chain_0)
  then obtain S where nub: "\<not> ub (mem c)" and inv: "id_inv l lim ex S (mem c)"
    and conf: "\<And>t p. progs c t = Some p \<Longrightarrow> t < nthreads (mem c) \<and> id_prog l lim ex (\<lambda>_ s. id_fin s) (S t) p"
    using idp.atomic_reach [OF _ assms(3,4) reach bnd] by blast
  let ?n = "nthreads (mem c)" and ?ids = "ids_of (out (mem c))"
  from inv obtain s where book: "id_book lim s S ?n ?ids" by (rule id_invE)
  have "t \<in> running c" if "t < ?n" "S t = Got k" for t k
  proof -
    from reach_progs [OF reach that(1)] obtain p where p: "progs c t = Some p" by auto
    then show ?thesis using conf [OF p] that(2) by (cases p) (auto simp: running_def id_fin_def id_pan_def)
  qed
  then have "{t. t < ?n \<and> (\<exists>k. S t = Got k)} \<subseteq> running c" by blast
  moreover have "running c \<subseteq> {..<?n}" unfolding running_def using conf by (auto split: option.splits)
  ultimately have "card {t. t < ?n \<and> (\<exists>k. S t = Got k)} \<le> card (running c)"
    by (intro card_mono) (auto intro: finite_subset)
  moreover have "s = lim" if "progs c t = Some (Panic m)" for t m
    using conf [OF that] book unfolding id_book_def by (auto simp: id_pan_def)
  ultimately show ?thesis
    using nub book id_book_count [OF book] unfolding ids_sound_def id_book_def by fastforce
qed

text \<open>The interface of an allocator: called without an identifier, it returns the one it got.\<close>

locale id_allocator =
  fixes issue :: "('a, 32 word) prog" and l :: loc and lim :: nat and ex :: bool
  assumes issue_ok: "id_prog l lim ex (\<lambda>w s. s = Got (unat w)) Idle issue"
    and lim_ok: "ex \<longrightarrow> lim < 2 ^ 32"
begin

lemma client_ok: "id_prog l lim ex (\<lambda>_ s. s = Idle) Idle (id_client issue ops)"
proof (induction ops)
  case (Cons op ops)
  show ?case
  proof (cases op)
    case Issue
    have "id_prog l lim ex (\<lambda>_ s. s = Idle) (Got (unat w)) (seqp (println (id_line w)) (id_client issue ops))" for w
      using Cons by (auto simp: conf_simps seqp_def)
    then show ?thesis unfolding Issue id_client.simps by (intro conforms_bind [OF issue_ok]) auto
  qed (use Cons in \<open>auto simp: conf_simps seqp_def\<close>)
qed simp

lemma clients_sound:
  assumes "static_val vs l = VU32 0"
    and "reach fx (\<lambda>a. id_client issue (thread a)) (init_config vs (id_client issue ops)) c" and "id_bnd ex (mem c)"
  shows "ids_sound lim c"
proof -
  have "id_prog l lim ex (\<lambda>_ s. id_fin s) Idle (id_client issue ops)" for ops
    by (rule conforms_mono [OF client_ok]) (simp add: id_fin_def)
  then show ?thesis using id_reach [OF lim_ok assms(1) _ _ assms(2,3)] by blast
qed

end

section \<open>The four allocators\<close>

lemma unat_less_u32: "unat (w :: 32 word) < 4294967296"
  using unsigned_less [of w] by simp

lemma unat_less_10: "unat (w :: 32 word) < 10 \<longleftrightarrow> w < 10" "unat (w :: 32 word) < 1000 \<longleftrightarrow> w < 1000"
  by (simp_all add: word_less_nat_alt)

interpretation idw: id_allocator allocate_new_id_with_wrap_around NEXT_ID_wrap "2 ^ 32" False
  by unfold_locales
     (auto simp: allocate_new_id_with_wrap_around_def conf_simps Let_def unat_less_u32)

interpretation idq: id_allocator allocate_new_id_with_problem NEXT_ID_problem 10 False
  by unfold_locales
     (auto simp: allocate_new_id_with_problem_def conf_simps Let_def seqp_def assert_that_def unat_less_10 id_pan_def)

interpretation idd: id_allocator allocate_new_id_with_decrement NEXT_ID_decrement 10 False
  by unfold_locales
     (auto simp: allocate_new_id_with_decrement_def conf_simps Let_def seqp_def unat_less_10 id_pan_def)

text \<open>The loop knows of the value it has read whether the limit is reached.\<close>

lemma allocate_loop_ok:
  "id_prog NEXT_ID 1000 True (\<lambda>w s. s = Got (unat w)) (if 1000 \<le> unat w then Full else Idle)
    (loop (\<lambda>w. seqp (assert_that (w < 1000) ''too many IDs!'')
       (bindp (compare_exchange_weak NEXT_ID (VU32 w) (VU32 (w + 1)) Relaxed Relaxed) (\<lambda>r.
         Ret (case r of Inr _ \<Rightarrow> Inr w | Inl v \<Rightarrow> Inl (as_u32 v))))) w)"
  by (rule conforms_loop [where J = "\<lambda>w s. s = (if 1000 \<le> unat w then Full else Idle)"])
     (auto simp: conf_simps seqp_def assert_that_def unat_less_10 not_less [symmetric] id_pan_def Let_def)

interpretation idn: id_allocator allocate_new_id NEXT_ID 1000 True
  by unfold_locales (simp_all add: allocate_new_id_def load_def conforms_Do_iff allocate_loop_ok [simplified])

section \<open>Counting the printed identifiers of a program\<close>

fun print_tr :: "nat \<Rightarrow> 'a instr \<Rightarrow> 'a resp \<Rightarrow> nat \<Rightarrow> bool" where
  "print_tr n (IPrint v) r n' = (n' = (case id_of_line v of None \<Rightarrow> n | Some _ \<Rightarrow> Suc n))"
| "print_tr n (ISpawn a) r n' = False"
| "print_tr n i r n' = (atomic_instr i \<and> n' = n)"

definition print_inv :: "(tid \<Rightarrow> nat) \<Rightarrow> 'a mem \<Rightarrow> bool" where
  "print_inv S M \<longleftrightarrow> nthreads M = 1 \<and> S 0 \<le> length (ids_of (out M))"

interpretation prp: atomic_protocol "\<lambda>_ _ _. True" print_tr "\<lambda>_. True" "\<lambda>_. k" "\<lambda>n. k \<le> n" "\<lambda>_. True" print_inv
proof
  show "atomic_instr i" if "print_tr s i r s'" for s and i :: "'a instr" and r s' using that by (cases i) auto
next
  fix S M M' t i fx ch r s'
  assume inv: "print_inv S M" and t: "t < nthreads M" and step: "mexec fx ch t i M = Some (r, M')" "atomic_instr i"
    and tr: "print_tr (S t) i r s'"
  from step show "print_inv (upd_state (\<lambda>_. k) S t i s' (nthreads M)) M'"
    by (cases rule: atomic_cases)
       (use inv t tr in \<open>auto simp: print_inv_def upd_state_def load_step_def store_step_def rmw_step_def accessed_def
          m_join_def idle_step_def split: option.splits\<close>)
qed auto

abbreviation print_prog :: "('r \<Rightarrow> nat \<Rightarrow> bool) \<Rightarrow> nat \<Rightarrow> ('a, 'r) prog \<Rightarrow> bool" where
  "print_prog Q n p \<equiv> conforms (\<lambda>_ _ _. True) print_tr (\<lambda>_. True) Q n p"

lemma prints_reach:
  assumes "print_prog (\<lambda>_ n. k \<le> n) 0 main" and "reach fx (\<lambda>_. Ret ()) (init_config vs main) c"
  shows "\<exists>S. nthreads (mem c) = 1 \<and> S 0 \<le> length (ids_of (out (mem c))) \<and>
    (\<forall>t p. progs c t = Some p \<longrightarrow> t < nthreads (mem c) \<and> print_prog (\<lambda>_ n. k \<le> n) (S t) p)"
  using prp.atomic_reach [OF _ assms(1) _ assms(2)] by (auto simp: print_inv_def init_mem_def)

lemma new_ids_main_prints: "print_prog (\<lambda>_ n. 1001 \<le> n) 0 new_ids_main"
proof -
  have issue: "print_prog (\<lambda>_ m. m = n) n (allocate_new_id :: ('a, 32 word) prog)" for n
  proof -
    have "print_prog (\<lambda>_ m. m = n) n (loop (\<lambda>w. seqp (assert_that (w < 1000) ''too many IDs!'')
       (bindp (compare_exchange_weak NEXT_ID (VU32 w :: 'a val) (VU32 (w + 1)) Relaxed Relaxed) (\<lambda>r.
         Ret (case r of Inr _ \<Rightarrow> Inr w | Inl v \<Rightarrow> Inl (as_u32 v))))) w)" for w
      by (rule conforms_loop [where J = "\<lambda>_ m. m = n"]) (auto simp: conf_simps seqp_def assert_that_def split: sum.splits)
    then show ?thesis by (simp add: allocate_new_id_def load_def conforms_Do_iff)
  qed
  have "print_prog (\<lambda>_ n. n + length ([] :: nat list) = 1001) 0 (new_ids_main :: ('a, unit) prog)"
    unfolding new_ids_main_def for_range_def
  proof (rule conforms_for_list)
    fix i :: nat and "is" n assume "n + length (i # is) = 1001"
    then show "print_prog (\<lambda>_ n. n + length is = 1001) n (bindp allocate_new_id (\<lambda>w. println (id_line w :: 'a val)))"
      by (intro conforms_bind [OF issue]) (auto simp: println_def conforms_Do_iff)
  qed (simp del: upt_rec_numeral)
  then show ?thesis by (rule conforms_mono) simp
qed

section \<open>Properties\<close>

lemma for_list_client:
  "for_list xs (\<lambda>_. bindp issue (\<lambda>w. println (id_line w))) = id_client issue (replicate (length xs) Issue)"
  by (induction xs) (simp_all add: bindp_assoc seqp_def)

lemma new_ids_main_client: "new_ids_main = id_client allocate_new_id (replicate 1001 Issue)"
  by (simp only: new_ids_main_def for_range_def for_list_client length_upt diff_zero)

lemma not_10_le_1 [simp]: "\<not> 10 \<le> (1 :: 32 word)"
  by (simp add: word_le_nat_alt)

text \<open>
  C20. Whatever threads allocate identifiers with the \<open>allocate_new_id\<close> of 02-03-01,
  under every scheduling: no identifier is issued twice and all are below 1000, without any
  bound on the number of threads or calls.
\<close>

theorem allocate_new_id_unique:
  assumes "reach fx (\<lambda>a. id_client allocate_new_id (thread a)) (init_config [[VU32 0]] (id_client allocate_new_id ops)) c"
  shows "ids_sound 1000 c"
  using idn.clients_sound [OF _ assms] by (simp add: static_val_def NEXT_ID_def id_bnd_def)

theorem allocate_new_id_unique_witness:
  "\<exists>c :: nat config. ids_sound 1000 c \<and> finished c 0 \<and> finished c 1 \<and> ids_of (out (mem c)) = [0, 1]"
proof -
  obtain c :: "nat config" where c: "run (\<lambda>_ _ _ _. True) (\<lambda>_. id_client allocate_new_id [Issue])
      (sched [(0, 0), (0, 0), (1, 0), (1, 0), (1, 0), (0, 1), (0, 0), (0, 1), (0, 0)])
      (init_config [[VU32 0]] (id_client allocate_new_id [Start VUnit, Issue])) = Some c"
      "finished c 0" "finished c 1" "out (mem c) = [id_line 0, id_line 1]"
    by (simp add: run_simps allocate_new_id_def NEXT_ID_def id_line_def assert_that_def cas_result_def)
  then have "ids_of (out (mem c)) = [0, 1]"
    by (simp add: ids_of_def map_filter_def id_line_def id_of_line_def)
  with allocate_new_id_unique [OF run_reach [OF c(1)]] c(2-) show ?thesis by blast
qed

text \<open>
  C21. The main program of 02-03-01 asks for more identifiers than there are: it never ends normally,
  and when it panics it has issued exactly the identifiers below 1000.
\<close>

theorem new_ids_main_exhausts:
  assumes "reach fx (\<lambda>_. Ret ()) (init_config [[VU32 0]] new_ids_main) c"
  shows "ids_sound 1000 c \<and> \<not> finished c 0 \<and>
    (\<forall>m. progs c 0 = Some (Panic m) \<longrightarrow> set (ids_of (out (mem c))) = {..<1000})"
proof -
  let ?ids = "ids_of (out (mem c))"
  have sound: "ids_sound 1000 c"
    using idn.clients_sound [of "[[VU32 0]]" fx "\<lambda>_. []" "replicate 1001 Issue" c] assms
    by (simp add: new_ids_main_client static_val_def NEXT_ID_def id_bnd_def)
  then have ids: "distinct ?ids" "set ?ids \<subseteq> {..<1000}" by (auto simp: ids_sound_def)
  then have le: "length ?ids \<le> 1000" using card_mono [OF _ ids(2)] by (simp add: distinct_card)
  obtain S where S: "nthreads (mem c) = 1" "S 0 \<le> length ?ids"
    and conf: "\<And>t p. progs c t = Some p \<Longrightarrow> t < nthreads (mem c) \<and> print_prog (\<lambda>_ n. 1001 \<le> n) (S t) p"
    using prints_reach [OF new_ids_main_prints assms] by blast
  have "\<not> finished c 0"
    using conf [of 0] S(2) le by (auto simp: finished_def split: option.splits prog.splits)
  moreover have "set ?ids = {..<1000}" if m: "progs c 0 = Some (Panic m)" for m
  proof -
    have "running c = {}" using conf S(1) m by (auto simp: running_def split: option.splits) (metis option.inject prog.simps)
    with sound m have "1000 \<le> length ?ids" by (auto simp: ids_sound_def)
    with ids le show ?thesis by (intro card_subset_eq) (auto simp: distinct_card)
  qed
  ultimately show ?thesis using sound by blast
qed

theorem new_ids_main_exhausts_witness:
  "\<exists>c :: nat config. ids_sound 1000 c \<and> \<not> finished c 0 \<and> out (mem c) = [id_line 0]"
proof -
  obtain q :: "unit \<Rightarrow> (nat, unit) prog"
    where q: "new_ids_main = bindp (bindp allocate_new_id (\<lambda>w. println (id_line w))) q"
    by (rule that, unfold new_ids_main_def, rule for_range_unroll, simp)
  obtain c :: "nat config" where c: "run (\<lambda>_ _ _ _. True) (\<lambda>_. Ret ()) (sched [(0, 0), (0, 0), (0, 0)])
      (init_config [[VU32 0]] new_ids_main) = Some c" "out (mem c) = [id_line 0]"
    by (simp add: q run_simps allocate_new_id_def NEXT_ID_def id_line_def assert_that_def cas_result_def)
  from new_ids_main_exhausts [OF run_reach [OF c(1)]] c(2) show ?thesis by blast
qed

text \<open>
  The \<open>allocate_new_id_with_wrap_around\<close> of 02-02-03 issues no identifier twice as
  long as the counter cannot have wrapped around, which the lines printed and the threads
  running bound.
\<close>

theorem wrap_around_unique:
  assumes "reach fx (\<lambda>a. id_client allocate_new_id_with_wrap_around (thread a))
      (init_config NEXT_ID_statics (id_client allocate_new_id_with_wrap_around ops)) c"
    and "length (out (mem c)) + 2 * nthreads (mem c) + 1 < 2 ^ 32"
  shows "ids_sound (2 ^ 32) c"
  using idw.clients_sound [OF _ assms(1)] assms(2)
  by (simp add: static_val_def NEXT_ID_wrap_def NEXT_ID_statics_def id_bnd_def)

theorem wrap_around_unique_witness:
  "\<exists>c :: nat config. ids_sound (2 ^ 32) c \<and> finished c 0 \<and> finished c 1 \<and> out (mem c) = [id_line 1, id_line 0]"
proof -
  obtain c :: "nat config" where c: "run (\<lambda>_ _ _ _. True) (\<lambda>_. id_client allocate_new_id_with_wrap_around [Issue])
      (sched [(0, 0), (1, 0), (0, 1), (0, 0), (1, 0)])
      (init_config NEXT_ID_statics (id_client allocate_new_id_with_wrap_around [Start VUnit, Issue])) = Some c"
      "finished c 0" "finished c 1" "out (mem c) = [id_line 1, id_line 0]" "nthreads (mem c) = 2"
    by (simp add: run_simps allocate_new_id_with_wrap_around_def NEXT_ID_wrap_def NEXT_ID_statics_def id_line_def current_value_def assert_that_def)
  then show ?thesis using wrap_around_unique [OF run_reach [OF c(1)]] by auto
qed

text \<open>
  The \<open>allocate_new_id_with_decrement\<close> of 02-02-03 takes an overrun of the counter
  back before it panics: the identifiers issued are distinct and below 10, however many calls
  have panicked, as long as the threads that are between the two operations do not fill the 32
  bits.
\<close>

theorem decrement_unique:
  assumes "reach fx (\<lambda>a. id_client allocate_new_id_with_decrement (thread a))
      (init_config NEXT_ID_statics (id_client allocate_new_id_with_decrement ops)) c"
    and "length (out (mem c)) + 2 * nthreads (mem c) + 1 < 2 ^ 32"
  shows "ids_sound 10 c"
  using idd.clients_sound [OF _ assms(1)] assms(2)
  by (simp add: static_val_def NEXT_ID_decrement_def NEXT_ID_statics_def id_bnd_def)

theorem decrement_unique_witness:
  "\<exists>c :: nat config. ids_sound 10 c \<and> finished c 0 \<and> finished c 1 \<and> out (mem c) = [id_line 1, id_line 0]"
proof -
  obtain c :: "nat config" where c: "run (\<lambda>_ _ _ _. True) (\<lambda>_. id_client allocate_new_id_with_decrement [Issue])
      (sched [(0, 0), (1, 0), (0, 1), (0, 0), (1, 0)])
      (init_config NEXT_ID_statics (id_client allocate_new_id_with_decrement [Start VUnit, Issue])) = Some c"
      "finished c 0" "finished c 1" "out (mem c) = [id_line 1, id_line 0]" "nthreads (mem c) = 2"
    by (simp add: run_simps allocate_new_id_with_decrement_def NEXT_ID_decrement_def NEXT_ID_statics_def id_line_def current_value_def assert_that_def)
  then show ?thesis using decrement_unique [OF run_reach [OF c(1)]] by auto
qed

theorem problem_unique:
  assumes "reach fx (\<lambda>a. id_client allocate_new_id_with_problem (thread a))
      (init_config NEXT_ID_statics (id_client allocate_new_id_with_problem ops)) c"
    and "length (out (mem c)) + 2 * nthreads (mem c) + 1 < 2 ^ 32"
  shows "ids_sound 10 c"
  using idq.clients_sound [OF _ assms(1)] assms(2)
  by (simp add: static_val_def NEXT_ID_problem_def NEXT_ID_statics_def id_bnd_def)

theorem problem_unique_witness:
  "\<exists>c :: nat config. ids_sound 10 c \<and> finished c 0 \<and> finished c 1 \<and> out (mem c) = [current_value (VU32 2), id_line 1, current_value (VU32 2), id_line 0]"
proof -
  obtain c :: "nat config" where c: "run (\<lambda>_ _ _ _. True) (\<lambda>_. id_client allocate_new_id_with_problem [Issue])
      (sched [(0, 0), (1, 0), (0, 1), (0, 2), (0, 0), (0, 0), (1, 2), (1, 0), (1, 0)])
      (init_config NEXT_ID_statics (id_client allocate_new_id_with_problem [Start VUnit, Issue])) = Some c"
      "finished c 0" "finished c 1" "out (mem c) = [current_value (VU32 2), id_line 1, current_value (VU32 2), id_line 0]" "nthreads (mem c) = 2"
    by (simp add: run_simps allocate_new_id_with_problem_def NEXT_ID_problem_def NEXT_ID_statics_def id_line_def current_value_def assert_that_def)
  then show ?thesis using problem_unique [OF run_reach [OF c(1)]] by auto
qed




end
