(* ===== verification/Litmus.thy ===== *)
theory Litmus
  imports Atomic_Protocol
begin

text \<open>
  The programs of chapters 2 and 3 that share nothing but a few atomic variables: values out of
  thin air, lazy initialisation with a key, spawning and joining, the total modification order
  of one variable, and release and acquire. Each is shown to have only the outcomes that the
  memory model promises.
\<close>

section \<open>Programs whose variables only ever hold certain values\<close>

text \<open>\<open>V l\<close> are the values of the variable \<open>l\<close>, \<open>P\<close> the lines that may be printed.\<close>

fun val_tr :: "(loc \<Rightarrow> 'a val set) \<Rightarrow> 'a val set \<Rightarrow> unit \<Rightarrow> 'a instr \<Rightarrow> 'a resp \<Rightarrow> unit \<Rightarrow> bool" where
  "val_tr V P s (IStore o1 l v) r s' = (v \<in> V l)"
| "val_tr V P s (IRmw os of1 w l f) r s' = (rok r \<longrightarrow> f (rval r) \<in> Some ` V l)"
| "val_tr V P s (IPrint v) r s' = (v \<in> P)"
| "val_tr V P s i r s' = atomic_instr i"

fun val_pos :: "(loc \<Rightarrow> 'a val set) \<Rightarrow> unit \<Rightarrow> 'a instr \<Rightarrow> 'a resp \<Rightarrow> bool" where
  "val_pos V s (ILoad o1 l) r = (rval r \<in> V l)"
| "val_pos V s (IRmw os of1 w l f) r = (rval r \<in> V l)"
| "val_pos V s i r = True"

definition val_inv :: "(loc \<Rightarrow> 'a val set) \<Rightarrow> 'a val set \<Rightarrow> 'a mem \<Rightarrow> bool" where
  "val_inv V P M \<longleftrightarrow> (\<forall>l k m. hist M l k = Some m \<longrightarrow> mval m \<in> V l) \<and> set (out M) \<subseteq> P"

interpretation vp: atomic_protocol "val_pos V" "val_tr V P" "\<lambda>_. False" "\<lambda>_. ()" "\<lambda>_. True" "\<lambda>_. True" "\<lambda>_. val_inv V P"
proof
  show "atomic_instr i" if "val_tr V P s i r s'" for s and i :: "'a instr" and r s' using that by (cases i) auto
  show "val_pos V s i r" if "\<not> atomic_instr i" for s and i :: "'a instr" and r using that by (cases i) auto
next
  fix S M t and i :: "'a instr" and fx ch r M'
  assume inv: "val_inv V P M" and step: "mexec fx ch t i M = Some (r, M')" "atomic_instr i"
  from step show "val_pos V (S t) i r"
    by (cases rule: atomic_cases) (use inv in \<open>auto simp: val_inv_def load_step_def rmw_step_def\<close>)
next
  fix S M M' t and i :: "'a instr" and fx ch r s'
  assume inv: "val_inv V P M" and step: "mexec fx ch t i M = Some (r, M')" "atomic_instr i" and tr: "val_tr V P (S t) i r s'"
  from step show "val_inv V P M'"
    by (cases rule: atomic_cases)
       (use inv tr in \<open>auto simp: val_inv_def load_step_def store_step_def rmw_step_def accessed_def m_spawn_def m_join_def
          idle_step_def split: if_splits\<close>)
qed auto

abbreviation val_prog :: "(loc \<Rightarrow> 'a val set) \<Rightarrow> 'a val set \<Rightarrow> ('r \<Rightarrow> bool) \<Rightarrow> ('a, 'r) prog \<Rightarrow> bool" where
  "val_prog V P Q p \<equiv> conforms (val_pos V) (val_tr V P) (\<lambda>_. False) (\<lambda>x _. Q x) () p"

lemma val_reach:
  assumes "\<And>l. static_val vs l \<in> V l" "val_prog V P (\<lambda>_. True) main" "\<And>a. val_prog V P (\<lambda>_. True) (code a)"
    and "reach fx code (init_config vs main) c"
  shows "\<not> ub (mem c) \<and> (\<forall>t m. progs c t \<noteq> Some (Panic m)) \<and> set (out (mem c)) \<subseteq> P \<and>
    (\<forall>l k m. hist (mem c) l k = Some m \<longrightarrow> mval m \<in> V l)"
proof -
  have "val_inv V P (init_mem vs)" using assms(1) by (auto simp: val_inv_def init_mem_def)
  from vp.atomic_reach [OF this assms(2,3,4)] show ?thesis unfolding val_inv_def by fastforce
qed

section \<open>03-04: values out of thin air\<close>





section \<open>02-03-02: a key that is generated once\<close>

definition KEY :: loc where "KEY = Loc 0 0"

definition generate_random_key :: "64 word" where
  "generate_random_key = 42"

definition get_key :: "('a, 64 word) prog" where
  "get_key =
     bindp (load KEY Relaxed) (\<lambda>v. let key = as_u64 v in
     if key = 0
     then let new_key = generate_random_key in
          bindp (compare_exchange KEY (VU64 0) (VU64 new_key) Relaxed Relaxed) (\<lambda>r.
          Ret (case r of Inr _ \<Rightarrow> new_key | Inl k \<Rightarrow> as_u64 k))
     else Ret key)"

definition key_main :: "('a, unit) prog" where
  "key_main = bindp get_key (\<lambda>key. println (VList [VStr ''key: '', VU64 key]))"

text \<open>Any number of threads that print the key.\<close>

fun key_client :: "'a val list \<Rightarrow> ('a, unit) prog" where
  "key_client [] = key_main"
| "key_client (a # as) = bindp (spawn a) (\<lambda>_. seqp key_main (key_client as))"

definition key_vals :: "loc \<Rightarrow> 'a val set" where
  "key_vals l = (if l = KEY then {VU64 0, VU64 42} else UNIV)"

lemma key_main_ok: "val_prog key_vals {VList [VStr ''key: '', VU64 42]} (\<lambda>_. True) key_main"
  by (auto simp: key_main_def get_key_def generate_random_key_def key_vals_def conf_simps Let_def)

lemma key_client_ok: "val_prog key_vals {VList [VStr ''key: '', VU64 42]} (\<lambda>_. True) (key_client as)"
proof (induction as)
  case (Cons a as)
  have "val_prog key_vals {VList [VStr ''key: '', VU64 42]} (\<lambda>_. True) (seqp key_main (key_client as))"
    by (rule conforms_seq [OF key_main_ok]) (use Cons in simp)
  then show ?case by (simp add: spawn_def conforms_Do_iff)
qed (use key_main_ok in simp)

section \<open>03-03-01: spawning and joining\<close>









section \<open>03-05: release and acquire\<close>

definition MP_DATA :: loc where "MP_DATA = Loc 0 0"

definition MP_READY :: loc where "MP_READY = Loc 1 0"

definition MP_thread :: "('a, unit) prog" where
  "MP_thread = seqp (store MP_DATA (VU32 123) Relaxed) (store MP_READY (VBool True) Release)"

definition MP_main :: "('a, unit) prog" where
  "MP_main =
     bindp (spawn VUnit) (\<lambda>_.
     seqp (while_do (bindp (load MP_READY Acquire) (\<lambda>v. Ret (\<not> as_bool v))) (seqp sleep (println (VStr ''waiting...''))))
     (bindp (load MP_DATA Relaxed) (\<lambda>v. println v)))"

datatype mpst = Unready | Known | W0 | W1 | W2

fun mp_tr :: "mpst \<Rightarrow> 'a instr \<Rightarrow> 'a resp \<Rightarrow> mpst \<Rightarrow> bool" where
  "mp_tr s (IStore o1 l v) r s' =
     (s = W0 \<and> l = MP_DATA \<and> v = VU32 123 \<and> s' = W1 \<or>
      s = W1 \<and> l = MP_READY \<and> v = VBool True \<and> releases o1 \<and> s' = W2)"
| "mp_tr s (ILoad o1 l) r s' =
     (s' = (if s = Unready \<and> l = MP_READY \<and> acquires o1 \<and> rval r = VBool True then Known else s))"
| "mp_tr s (ISpawn a) r s' = (s' = s)"
| "mp_tr s (IPrint v) r s' = ((v = VStr ''waiting...'' \<or> v = VU32 123) \<and> s' = s)"
| "mp_tr s ITau r s' = (s' = s)"
| "mp_tr s i r s' = False"

fun mp_pos :: "mpst \<Rightarrow> 'a instr \<Rightarrow> 'a resp \<Rightarrow> bool" where
  "mp_pos s (ILoad o1 l) r = (l = MP_DATA \<and> s = Known \<longrightarrow> rval r = VU32 123)"
| "mp_pos s i r = True"

definition mp_inv :: "(tid \<Rightarrow> mpst) \<Rightarrow> 'a mem \<Rightarrow> bool" where
  "mp_inv S M \<longleftrightarrow> set (out M) \<subseteq> {VStr ''waiting...'', VU32 123} \<and>
     (\<forall>t < nthreads M. S t \<in> {Known, W1, W2} \<longrightarrow> 1 \<le> cur M t (Ts MP_DATA)) \<and>
     (\<forall>k m. hist M MP_READY k = Some m \<longrightarrow> mval m = VBool True \<longrightarrow> 1 \<le> mview m (Ts MP_DATA)) \<and>
     (\<forall>k m. 1 \<le> k \<longrightarrow> hist M MP_DATA k = Some m \<longrightarrow> mval m = VU32 123)"

lemma MP_neq [simp]: "MP_DATA \<noteq> MP_READY" "MP_READY \<noteq> MP_DATA"
  by (simp_all add: MP_DATA_def MP_READY_def)

interpretation mpp: atomic_protocol mp_pos mp_tr "\<lambda>_. False" "\<lambda>_. W0" "\<lambda>_. True" "\<lambda>_. True" mp_inv
proof
  show "atomic_instr i" if "mp_tr s i r s'" for s and i :: "'a instr" and r s' using that by (cases i) auto
  show "mp_pos s i r" if "\<not> atomic_instr i" for s and i :: "'a instr" and r using that by (cases i) auto
next
  fix S M t and i :: "'a instr" and fx ch r M'
  assume inv: "mp_inv S M" and t: "t < nthreads M" and step: "mexec fx ch t i M = Some (r, M')" "atomic_instr i"
  from step show "mp_pos (S t) i r"
  proof (cases rule: atomic_cases)
    case (Load o1 l k m)
    have "1 \<le> k" if "l = MP_DATA" "S t = Known"
      using that Load(3) inv t by (fastforce simp: load_step_def mp_inv_def)
    moreover have "hist M l k = Some m" using Load(3) by (simp add: load_step_def)
    moreover have "mval m = VU32 123" if "1 \<le> k" "hist M MP_DATA k = Some m" using that inv by (simp add: mp_inv_def)
    ultimately show ?thesis using Load(1,2) by auto
  qed auto
next
  fix S M M' t and i :: "'a instr" and fx ch r s'
  assume inv: "mp_inv S M" and t: "t < nthreads M" and step: "mexec fx ch t i M = Some (r, M')" "atomic_instr i"
    and tr: "mp_tr (S t) i r s'"
  have keep: "1 \<le> cur M' u (Ts MP_DATA)" if "cur M u \<le> cur M' u" "u < nthreads M" "S u \<in> {Known, W1, W2}" for u
    using that inv view_le_apply [OF that(1), of "Ts MP_DATA"] by (auto simp: mp_inv_def)
  from step show "mp_inv (upd_state (\<lambda>_. W0) S t i s' (nthreads M)) M'"
  proof (cases rule: atomic_cases)
    case (Load o1 l k m)
    then have a: "accessed t l AtRead M M'" and h: "hist M' = hist M" and m: "hist M l k = Some m"
        "acquires o1 \<longrightarrow> mview m \<le> cur M' t"
      by (auto simp: load_step_def)
    have "1 \<le> cur M' t (Ts MP_DATA)" if "S t = Unready" "s' = Known"
      using that tr Load(1,2) m inv view_le_apply [of "mview m" "cur M' t" "Ts MP_DATA"]
      by (fastforce simp: mp_inv_def split: if_splits)
    moreover have "s' = S t \<or> s' = Known \<and> S t = Unready" using tr Load(1) by (auto split: if_splits)
    ultimately show ?thesis
      using inv t keep [OF accessedD(6) [OF a]] accessedD(1,5) [OF a] h Load(1)
      unfolding mp_inv_def upd_state_def by auto
  next
    case (Store o1 l v k m)
    then have a: "accessed t l AtWrite M M'" and h: "hist M' = (hist M)(l := (hist M l)(k \<mapsto> m))"
      and k: "cur M t (Ts l) < k" "k \<le> cur M' t (Ts l)" and rel: "releases o1 \<longrightarrow> cur M' t \<le> mview m"
      by (auto simp: store_step_def)
    have know: "1 \<le> cur M' t (Ts MP_DATA)"
      using keep [OF accessedD(6) [OF a] t] k tr Store(1) by auto
    have rdy: "1 \<le> mview m (Ts MP_DATA)" if "l = MP_READY"
      using that tr Store(1) rel know view_le_apply [of "cur M' t" "mview m" "Ts MP_DATA"] by auto
    have dat: "mval m = VU32 123" if "l = MP_DATA" using that tr Store(1,3) by auto
    have "1 \<le> cur M' u (Ts MP_DATA)" if "u < nthreads M" "(S(t := s')) u \<in> {Known, W1, W2}" for u
      using that know keep [OF accessedD(6) [OF a] that(1)] by (cases "u = t") simp_all
    moreover have "1 \<le> mview m' (Ts MP_DATA)" if "hist M' MP_READY j = Some m'" "mval m' = VBool True" for j m'
      using that rdy inv unfolding mp_inv_def h by (cases "l = MP_READY \<and> j = k") (auto split: if_splits)
    moreover have "mval m' = VU32 123" if "hist M' MP_DATA j = Some m'" "1 \<le> j" for j m'
      using that dat inv unfolding mp_inv_def h by (cases "l = MP_DATA \<and> j = k") (auto split: if_splits)
    moreover have "set (out M') \<subseteq> {VStr ''waiting...'', VU32 123}"
      using inv unfolding mp_inv_def accessedD(5) [OF a] by blast
    ultimately show ?thesis unfolding mp_inv_def Store(1) upd_state_def accessedD(1) [OF a] by simp
  next
    case (Spawn a)
    then show ?thesis using tr inv t by (auto simp: mp_inv_def upd_state_def m_spawn_def less_Suc_eq)
  next
    case Idle
    have S: "upd_state (\<lambda>_. W0) S t i s' (nthreads M) = S" using tr Idle(1) by (auto simp: upd_state_def)
    show ?thesis using inv keep [OF idle_cur [OF Idle(2)]] Idle(2)
      unfolding mp_inv_def S by (simp add: idle_step_def)
  next
    case (Print v)
    have S: "upd_state (\<lambda>_. W0) S t i s' (nthreads M) = S" using tr Print(1) by (simp add: upd_state_def)
    have "v \<in> {VStr ''waiting...'', VU32 123}" using tr Print(1) by simp
    then show ?thesis using inv unfolding mp_inv_def S Print(3) by simp
  qed (use tr in auto)
qed auto

section \<open>Properties\<close>

text \<open>No undefined behaviour, no panic (so that no assertion fails), and only lines of \<open>P\<close> are printed.\<close>

definition litmus_sound :: "'a val set \<Rightarrow> 'a config \<Rightarrow> bool" where
  "litmus_sound P c \<longleftrightarrow> \<not> ub (mem c) \<and> (\<forall>t m. progs c t \<noteq> Some (Panic m)) \<and> set (out (mem c)) \<subseteq> P"





text \<open>
  C24. The lazy initialisation of 02-03-02: whatever threads ask for the key and race to store it,
  each of them gets the generated key; no undefined behaviour and no panic.
\<close>

theorem key_clients_print:
  assumes "reach fx (\<lambda>a. key_client (thread a)) (init_config [[VU64 0]] (key_client ops)) c"
  shows "litmus_sound {VList [VStr ''key: '', VU64 42]} c"
proof -
  have "static_val [[VU64 0]] l \<in> key_vals l" for l by (auto simp: static_val_def key_vals_def KEY_def)
  from val_reach [OF this key_client_ok key_client_ok assms] show ?thesis by (simp add: litmus_sound_def)
qed

theorem key_clients_print_witness:
  "\<exists>c :: nat config. litmus_sound {VList [VStr ''key: '', VU64 42]} c \<and>
     out (mem c) = [VList [VStr ''key: '', VU64 42], VList [VStr ''key: '', VU64 42]]"
proof -
  obtain c :: "nat config" where c: "run (\<lambda>_ _ _ _. True) (\<lambda>_. key_client [])
      (sched [(0, 0), (0, 0), (1, 0), (0, 0), (1, 1), (0, 0), (1, 0)])
      (init_config [[VU64 0]] (key_client [VUnit])) = Some c"
      "out (mem c) = [VList [VStr ''key: '', VU64 42], VList [VStr ''key: '', VU64 42]]"
    by (simp add: run_simps key_main_def get_key_def generate_random_key_def cas_result_def KEY_def)
  from key_clients_print [of _ "\<lambda>_. []", OF run_reach [OF c(1)]] c(2) show ?thesis by blast
qed



lemma MP_wait_ok:
  "conforms mp_pos mp_tr (\<lambda>_. False) (\<lambda>_ s. s = Known) Unready
     (while_do (bindp (load MP_READY Acquire) (\<lambda>v. Ret (\<not> as_bool v))) (seqp sleep (println (VStr ''waiting...''))))"
  by (rule conforms_while [where J = "\<lambda>s. s = Unready" and C = "\<lambda>s. s = Unready"])
     (auto simp: conf_simps seqp_def elim: as_bool.elims)

lemma MP_main_ok: "conforms mp_pos mp_tr (\<lambda>_. False) (\<lambda>_ _. True) Unready MP_main"
proof -
  have rest: "conforms mp_pos mp_tr (\<lambda>_. False) (\<lambda>_ _. True) Known (bindp (load MP_DATA Relaxed) (\<lambda>v :: 'a val. println v))"
    by (auto simp: conf_simps)
  from conforms_then [OF MP_wait_ok rest] show ?thesis by (simp add: MP_main_def spawn_def conforms_Do_iff)
qed

text \<open>
  C25. Message passing by release and acquire (03-05): when the main thread has left its loop it
  prints 123 and never the initial value of \<open>DATA\<close>; while it waits it prints only
  that it waits.
\<close>

theorem MP_main_prints:
  assumes "reach fx (\<lambda>_. MP_thread) (init_config [[VU32 0], [VBool False]] MP_main) c"
  shows "litmus_sound {VStr ''waiting...'', VU32 123} c"
proof -
  have "mp_inv (\<lambda>_. Unready) (init_mem [[VU32 0], [VBool False]])"
    by (simp add: mp_inv_def init_mem_def static_val_def MP_READY_def)
  moreover have "conforms mp_pos mp_tr (\<lambda>_. False) (\<lambda>_ _. True) W0 MP_thread"
    by (auto simp: MP_thread_def conf_simps seqp_def)
  ultimately obtain S where "\<not> ub (mem c)" and inv: "mp_inv S (mem c)"
    and conf: "\<And>t p. progs c t = Some p \<Longrightarrow> conforms mp_pos mp_tr (\<lambda>_. False) (\<lambda>_ _. True) (S t) p"
    using mpp.atomic_reach [OF _ MP_main_ok _ assms] by blast
  moreover have "progs c t \<noteq> Some (Panic m)" for t m using conf [of t "Panic m"] by auto
  moreover have "set (out (mem c)) \<subseteq> {VStr ''waiting...'', VU32 123}" using inv unfolding mp_inv_def by blast
  ultimately show ?thesis unfolding litmus_sound_def by blast
qed

theorem MP_main_prints_witness:
  "\<exists>c :: nat config. litmus_sound {VStr ''waiting...'', VU32 123} c \<and> finished c 0 \<and>
     out (mem c) = [VStr ''waiting...'', VU32 123]"
proof -
  obtain c :: "nat config" where c: "run (\<lambda>_ _ _ _. True) (\<lambda>_. MP_thread)
      (sched [(0, 0), (0, 0), (0, 0), (0, 0), (0, 0), (1, 1), (1, 1), (0, 1), (0, 1), (0, 0)])
      (init_config [[VU32 0], [VBool False]] MP_main) = Some c" "finished c 0"
      "out (mem c) = [VStr ''waiting...'', VU32 123]"
    by (simp add: run_simps MP_main_def MP_thread_def MP_DATA_def MP_READY_def)
  from MP_main_prints [OF run_reach [OF c(1)]] c(2-) show ?thesis by blast
qed

end
