(* ===== verification/Mod_Order.thy ===== *)
theory Mod_Order
  imports Atomic_Protocol
begin

text \<open>
  The total modification order of one variable (03-04): threads that only load it may see
  different values, but all of them see the same order of changes, even with relaxed ordering.
\<close>

section \<open>The code\<close>

definition MX :: loc where "MX = Loc 0 0"

definition order_a :: "('a, unit) prog" where
  "order_a = seqp sleep (seqp (fetch_add MX (VI32 5) Relaxed) (seqp sleep (bindp (fetch_add MX (VI32 10) Relaxed) (\<lambda>_. Ret ()))))"

text \<open>The line \<open>{a}, {b}, {c}, {d}\<close> is the list of the four values.\<close>

definition order_b :: "('a, unit) prog" where
  "order_b =
     bindp (load MX Relaxed) (\<lambda>a.
     seqp sleep
     (bindp (load MX Relaxed) (\<lambda>b.
     seqp sleep
     (bindp (load MX Relaxed) (\<lambda>c.
     bindp (load MX Relaxed) (\<lambda>d.
     println (VList [a, b, c, d])))))))"

definition order_thread :: "'a code" where
  "order_thread x = (if x = VUsize 0 then order_a else order_b)"

definition order_main :: "('a, unit) prog" where
  "order_main =
     bindp (spawn (VUsize 0)) (\<lambda>handle_a.
     bindp (spawn (VUsize 1)) (\<lambda>handle_b.
     seqp (join handle_a)
     (join handle_b)))"






section \<open>The protocol\<close>

text \<open>
  A thread has increments to do, each of which is made once, and values it has read. \<open>seq1\<close> are
  the sequences of values when 5 is added before 10, \<open>seq2\<close> when in any order.
\<close>

datatype 'a rst = RS (todo: "32 word set") (reads: "'a val list")

definition seq1 :: "32 word list set" where
  "seq1 = {[0], [0, 5], [0, 5, 15]}"

definition seq2 :: "32 word list set" where
  "seq2 = {[0], [0, 5], [0, 10], [0, 5, 15], [0, 10, 15]}"

text \<open>The increments that lead to a sequence of values.\<close>

definition used :: "32 word list \<Rightarrow> 32 word set" where
  "used vs = {d. (d = 5 \<and> (5 \<in> set vs \<or> 15 \<in> set vs)) \<or> (d = 10 \<and> (10 \<in> set vs \<or> 15 \<in> set vs))}"

fun ord_tr :: "bool \<Rightarrow> ('a val \<Rightarrow> 'a rst) \<Rightarrow> 'a rst \<Rightarrow> 'a instr \<Rightarrow> 'a resp \<Rightarrow> 'a rst \<Rightarrow> bool" where
  "ord_tr first ch s (ILoad o1 l) r s' = (l = MX \<and> s' = RS (todo s) (reads s @ [rval r]))"
| "ord_tr first ch s (IRmw os of1 w l f) r s' = (l = MX \<and> rok r \<and> (\<exists>d \<in> todo s. f = (\<lambda>v. Some (vadd v (VI32 d))) \<and>
     (first \<longrightarrow> d = 10 \<longrightarrow> 5 \<notin> todo s) \<and> s' = RS (todo s - {d}) (reads s)))"
| "ord_tr first ch s (IPrint v) r s' = (v = VList (reads s) \<and> s' = s)"
| "ord_tr first ch s (ISpawn a) r s' = (todo (ch a) \<subseteq> todo s \<and> (first \<longrightarrow> todo (ch a) \<in> {{}, todo s}) \<and>
     s' = RS (todo s - todo (ch a)) (reads s))"
| "ord_tr first ch s (IJoin u) r s' = (s' = s)"
| "ord_tr first ch s ITau r s' = (s' = s)"
| "ord_tr first ch s i r s' = False"

text \<open>The history of the variable is the sequence \<open>vs\<close>.\<close>

definition is_seq :: "(nat \<Rightarrow> 'a msg option) \<Rightarrow> 32 word list \<Rightarrow> bool" where
  "is_seq h vs \<longleftrightarrow> (\<forall>k. map_option mval (h k) = (if k < length vs then Some (VI32 (vs ! k)) else None))"

text \<open>The values were read from the sequence at increasing positions, up to \<open>c\<close>.\<close>

definition coherent :: "32 word list \<Rightarrow> nat \<Rightarrow> 'a val list \<Rightarrow> bool" where
  "coherent vs c rs \<longleftrightarrow> (\<exists>ks. sorted ks \<and> (\<forall>k \<in> set ks. k < length vs \<and> k \<le> c) \<and> rs = map (\<lambda>k. VI32 (vs ! k)) ks)"

definition ord_thread :: "bool \<Rightarrow> 32 word list \<Rightarrow> nat \<Rightarrow> 'a rst \<Rightarrow> bool" where
  "ord_thread first vs c s \<longleftrightarrow> todo s \<subseteq> {5, 10} - used vs \<and> coherent vs c (reads s) \<and>
     (first \<longrightarrow> 10 \<in> todo s \<longrightarrow> 5 \<in> todo s \<union> used vs)"

definition ord_at :: "bool \<Rightarrow> 32 word list \<Rightarrow> (tid \<Rightarrow> 'a rst) \<Rightarrow> 'a mem \<Rightarrow> bool" where
  "ord_at first vs S M \<longleftrightarrow> vs \<in> (if first then seq1 else seq2) \<and> is_seq (hist M MX) vs \<and>
     (\<forall>t < nthreads M. ord_thread first vs (cur M t (Ts MX)) (S t)) \<and>
     (\<forall>t < nthreads M. \<forall>u < nthreads M. t \<noteq> u \<longrightarrow> todo (S t) \<inter> todo (S u) = {}) \<and>
     (\<forall>v \<in> set (out M). \<exists>c rs. coherent vs c rs \<and> v = VList rs)"

section \<open>Every step keeps the invariant\<close>

lemma used_seqs [simp]:
  "used [0] = {}" "used [0, 5] = {5}" "used [0, 10] = {10}" "used [0, 5, 15] = {5, 10}" "used [0, 10, 15] = {5, 10}"
  by (auto simp: used_def)

lemma seq_extend:
  assumes "vs \<in> (if first then seq1 else seq2)" "d \<in> {5, 10} - used vs" "first \<longrightarrow> d = 10 \<longrightarrow> 5 \<in> used vs"
  shows "vs @ [last vs + d] \<in> (if first then seq1 else seq2)" "used (vs @ [last vs + d]) = insert d (used vs)" "vs \<noteq> []"
  using assms by (cases first; auto simp: seq1_def seq2_def)+

lemma coherent_mono: "coherent vs c rs \<Longrightarrow> c \<le> c' \<Longrightarrow> coherent (vs @ ws) c' rs"
  unfolding coherent_def by (force simp: nth_append)

lemma coherent_snoc:
  assumes "coherent vs c rs" "c \<le> k" "k < length vs"
  shows "coherent vs k (rs @ [VI32 (vs ! k)])"
proof -
  from assms(1) obtain ks where "sorted ks" "\<forall>k \<in> set ks. k < length vs \<and> k \<le> c" "rs = map (\<lambda>k. VI32 (vs ! k)) ks"
    unfolding coherent_def by blast
  with assms(2,3) show ?thesis
    unfolding coherent_def by (intro exI [of _ "ks @ [k]"]) (fastforce simp: sorted_append)
qed

lemma ord_thread_mono: "ord_thread first vs c s \<Longrightarrow> c \<le> c' \<Longrightarrow> ord_thread first vs c' s"
  using coherent_mono [of vs c "reads s" c' "[]"] by (simp add: ord_thread_def)

lemma is_seq_read: "is_seq h vs \<Longrightarrow> h k = Some m \<Longrightarrow> k < length vs \<and> mval m = VI32 (vs ! k)"
  unfolding is_seq_def by (drule spec [of _ k]) (simp split: if_splits)

lemma is_seq_last:
  assumes "is_seq h vs" "h k = Some m" "h (Suc k) = None"
  shows "length vs = Suc k" "mval m = VI32 (last vs)"
proof -
  have k: "k < length vs" "mval m = VI32 (vs ! k)" using is_seq_read [OF assms(1,2)] by auto
  have "\<not> Suc k < length vs" using assms(1,3) unfolding is_seq_def by (metis option.distinct(1) option.simps(8))
  with k show "length vs = Suc k" by simp
  then show "mval m = VI32 (last vs)" using k(2) by (cases vs) (auto simp: last_conv_nth)
qed

lemma is_seq_upd:
  assumes "is_seq h vs" "length vs = Suc k" "mval m' = VI32 w"
  shows "is_seq (h(Suc k \<mapsto> m')) (vs @ [w])"
  unfolding is_seq_def
proof
  fix j
  have "map_option mval (h j) = (if j < length vs then Some (VI32 (vs ! j)) else None)"
    using assms(1) by (simp add: is_seq_def)
  then show "map_option mval ((h(Suc k \<mapsto> m')) j) = (if j < length (vs @ [w]) then Some (VI32 ((vs @ [w]) ! j)) else None)"
    using assms(2,3) by (cases "j = Suc k") (simp_all add: nth_append)
qed

text \<open>Steps that change only the states of threads, their views, and the output.\<close>

lemma ord_at_step:
  assumes inv: "ord_at first vs S M" and "hist M' MX = hist M MX" "nthreads M' = nthreads M"
    and S': "\<And>u. u < nthreads M \<Longrightarrow> todo (S' u) = todo (S u) \<and> coherent vs (cur M' u (Ts MX)) (reads (S' u))"
    and out: "\<And>v. v \<in> set (out M') \<Longrightarrow> v \<in> set (out M) \<or> (\<exists>c rs. coherent vs c rs \<and> v = VList rs)"
  shows "ord_at first vs S' M'"
proof -
  have "ord_thread first vs (cur M' u (Ts MX)) (S' u)" if "u < nthreads M" for u
    using inv S' [OF that] that unfolding ord_at_def ord_thread_def by auto
  moreover have "todo (S' u) \<inter> todo (S' v) = {}" if "u < nthreads M" "v < nthreads M" "u \<noteq> v" for u v
    using inv S' [OF that(1)] S' [OF that(2)] that unfolding ord_at_def by auto
  moreover have "\<exists>c rs. coherent vs c rs \<and> v = VList rs" if "v \<in> set (out M')" for v
    using out [OF that] inv unfolding ord_at_def by blast
  ultimately show ?thesis using inv assms(2,3) unfolding ord_at_def by simp
qed

lemma ord_at_rmw:
  assumes inv: "ord_at first vs S M" and t: "t < nthreads M" and rmw: "rmw_step t MX os k M M' m m'"
    and d: "d \<in> todo (S t)" "vadd (mval m) (VI32 d) = mval m'" "first \<longrightarrow> d = 10 \<longrightarrow> 5 \<notin> todo (S t)"
  shows "ord_at first (vs @ [last vs + d]) (S(t := RS (todo (S t) - {d}) (reads (S t)))) M'"
proof -
  let ?ws = "vs @ [last vs + d]" and ?S = "S(t := RS (todo (S t) - {d}) (reads (S t)))"
  from rmw have a: "accessed t MX AtWrite M M'" and h: "hist M' MX = (hist M MX)(Suc k \<mapsto> m')"
    and k: "hist M MX k = Some m" "hist M MX (Suc k) = None"
    by (auto simp: rmw_step_def)
  from inv have vs: "vs \<in> (if first then seq1 else seq2)" and seq: "is_seq (hist M MX) vs"
    and th: "\<And>u. u < nthreads M \<Longrightarrow> ord_thread first vs (cur M u (Ts MX)) (S u)"
    and dis: "\<And>u v. u < nthreads M \<Longrightarrow> v < nthreads M \<Longrightarrow> u \<noteq> v \<Longrightarrow> todo (S u) \<inter> todo (S v) = {}"
    and out: "\<And>v. v \<in> set (out M) \<Longrightarrow> \<exists>c rs. coherent vs c rs \<and> v = VList rs"
    unfolding ord_at_def by blast+
  have d': "d \<in> {5, 10} - used vs" "first \<longrightarrow> d = 10 \<longrightarrow> 5 \<in> used vs"
    using th [OF t] d(1,3) unfolding ord_thread_def by blast+
  note ext = seq_extend [OF vs d']
  have m': "mval m' = VI32 (last vs + d)" using d(2) is_seq_last(2) [OF seq k] by simp
  have cur: "cur M u (Ts MX) \<le> cur M' u (Ts MX)" for u using accessedD(6) [OF a] by (rule view_le_apply)
  have coh: "coherent ?ws (cur M' u (Ts MX)) (reads (S u))" if "u < nthreads M" for u
    using th [OF that] coherent_mono [OF _ cur] unfolding ord_thread_def by blast
  have "ord_thread first ?ws (cur M' u (Ts MX)) (?S u)" if u: "u < nthreads M" for u
  proof (cases "u = t")
    case True
    then show ?thesis using th [OF t] coh [OF t] ext(2) unfolding ord_thread_def by auto
  next
    case False
    have "d \<notin> todo (S u)" using dis [OF u t False] d(1) by blast
    then show ?thesis using False th [OF u] coh [OF u] ext(2) unfolding ord_thread_def by auto
  qed
  moreover have "todo (?S u) \<inter> todo (?S v) = {}" if "u < nthreads M" "v < nthreads M" "u \<noteq> v" for u v
    using dis [OF that] that(3) by auto
  moreover have "\<exists>c rs. coherent ?ws c rs \<and> v = VList rs" if "v \<in> set (out M')" for v
    using out [of v] that coherent_mono [of vs _ _ _ "[last vs + d]"] unfolding accessedD(5) [OF a] by blast
  ultimately show ?thesis
    using ext(1) is_seq_upd [OF seq is_seq_last(1) [OF seq k] m'] unfolding ord_at_def h accessedD(1) [OF a] by blast
qed

lemma ord_at_spawn:
  assumes inv: "ord_at first vs S M" and t: "t < nthreads M" and T: "T \<subseteq> todo (S t)" "first \<longrightarrow> T \<in> {{}, todo (S t)}"
  shows "ord_at first vs ((S(t := RS (todo (S t) - T) (reads (S t))))(nthreads M := RS T [])) (m_spawn t M)"
    (is "ord_at first vs ?S ?M")
proof -
  let ?n = "nthreads M"
  from inv have th: "\<And>u. u < ?n \<Longrightarrow> ord_thread first vs (cur M u (Ts MX)) (S u)"
    and dis: "\<And>u v. u < ?n \<Longrightarrow> v < ?n \<Longrightarrow> u \<noteq> v \<Longrightarrow> todo (S u) \<inter> todo (S v) = {}"
    unfolding ord_at_def by blast+
  have empty: "coherent vs c []" for c by (simp add: coherent_def)
  have "ord_thread first vs (cur ?M u (Ts MX)) (?S u)" if "u < Suc ?n" for u
  proof -
    consider "u = ?n" | "u = t" "u < ?n" | "u \<noteq> t" "u < ?n" using \<open>u < Suc ?n\<close> by linarith
    then show ?thesis
    proof cases
      case 1
      then show ?thesis using th [OF t] T empty unfolding ord_thread_def by (auto simp: m_spawn_def)
    next
      case 2
      then show ?thesis using th [OF t] T unfolding ord_thread_def by (auto simp: m_spawn_def)
    next
      case 3
      then show ?thesis using th [of u] by (simp add: m_spawn_def)
    qed
  qed
  moreover have "todo (?S u) \<inter> todo (?S v) = {}" if "u < Suc ?n" "v < Suc ?n" "u \<noteq> v" for u v
  proof -
    have sub: "todo (?S u) \<subseteq> (if u = ?n then T else if u = t then todo (S t) - T else todo (S u))" for u by simp
    show ?thesis
      using that t T(1) dis [of u v] dis [of u t] dis [of t v]
      by (cases "u = ?n"; cases "v = ?n"; cases "u = t"; cases "v = t") auto
  qed
  ultimately show ?thesis using inv unfolding ord_at_def by (simp add: m_spawn_def)
qed

lemma ord_at_init: "static_val vs MX = VI32 0 \<Longrightarrow> ord_at first [0] (\<lambda>_. RS {5, 10} []) (init_mem vs)"
  by (auto simp: ord_at_def ord_thread_def init_mem_def seq1_def seq2_def is_seq_def coherent_def)

interpretation odp: atomic_protocol "\<lambda>_ _ _. True" "ord_tr first ch" "\<lambda>_. False" ch "\<lambda>_. True" "\<lambda>_. True"
    "\<lambda>S M. (\<forall>a. reads (ch a) = []) \<longrightarrow> (\<exists>vs. ord_at first vs S M)"
proof
  show "atomic_instr i" if "ord_tr first ch s i r s'" for s and i :: "'a instr" and r s' using that by (cases i) auto
next
  fix S M M' t and i :: "'a instr" and fx x r s'
  assume inv: "(\<forall>a. reads (ch a) = []) \<longrightarrow> (\<exists>vs. ord_at first vs S M)" and t: "t < nthreads M"
    and step: "mexec fx x t i M = Some (r, M')" "atomic_instr i" and tr: "ord_tr first ch (S t) i r s'"
  show "(\<forall>a. reads (ch a) = []) \<longrightarrow> (\<exists>vs. ord_at first vs (upd_state ch S t i s' (nthreads M)) M')"
  proof
    assume ch: "\<forall>a. reads (ch a) = []"
    with inv obtain vs where vs: "ord_at first vs S M" by blast
    have coh: "coherent vs (cur M' u (Ts MX)) (reads (S u))" if "cur M u \<le> cur M' u" "u < nthreads M" for u
    proof -
      have "ord_thread first vs (cur M u (Ts MX)) (S u)" using vs that(2) by (simp add: ord_at_def)
      then have "ord_thread first vs (cur M' u (Ts MX)) (S u)" using view_le_apply [OF that(1)] by (rule ord_thread_mono)
      then show ?thesis by (simp add: ord_thread_def)
    qed
    from step show "\<exists>vs. ord_at first vs (upd_state ch S t i s' (nthreads M)) M'"
    proof (cases rule: atomic_cases)
      case (Load o1 l k m)
      then have a: "accessed t l AtRead M M'" and h: "hist M' = hist M" and k: "hist M l k = Some m"
          "cur M t (Ts l) \<le> k" "k \<le> cur M' t (Ts l)"
        by (auto simp: load_step_def)
      have l: "l = MX" "s' = RS (todo (S t)) (reads (S t) @ [mval m])" using tr Load(1,2) by auto
      have m: "k < length vs" "mval m = VI32 (vs ! k)"
        using is_seq_read k(1) vs l(1) unfolding ord_at_def by blast+
      have "coherent vs k (reads (S t) @ [mval m])"
        using vs t k(2) l(1) m unfolding ord_at_def ord_thread_def by (auto intro: coherent_snoc)
      then have "coherent vs (cur M' t (Ts MX)) (reads (S t) @ [mval m])"
        using k(3) l(1) coherent_mono [of vs k _ _ "[]"] by simp
      then have "ord_at first vs (S(t := s')) M'"
        using l(2) accessedD(5) [OF a] coh [OF accessedD(6) [OF a]] h
        by (intro ord_at_step [OF vs _ accessedD(1) [OF a]]) auto
      with Load(1) show ?thesis by (auto simp: upd_state_def)
    next
      case (Rmw os of1 w l f k m m')
      with tr obtain d where d: "d \<in> todo (S t)" "f = (\<lambda>v. Some (vadd v (VI32 d)))" "first \<longrightarrow> d = 10 \<longrightarrow> 5 \<notin> todo (S t)"
          "l = MX" "s' = RS (todo (S t) - {d}) (reads (S t))"
        by auto
      with ord_at_rmw [OF vs t, of os k M' m m' d] Rmw show ?thesis by (auto simp: upd_state_def)
    next
      case (Spawn a)
      have *: "todo (ch a) \<subseteq> todo (S t)" "first \<longrightarrow> todo (ch a) \<in> {{}, todo (S t)}" "s' = RS (todo (S t) - todo (ch a)) (reads (S t))" using tr Spawn(1) by auto
      show ?thesis
        using ord_at_spawn [OF vs t *(1,2)] rst.collapse [of "ch a"] ch *(3) Spawn by (auto simp: upd_state_def)
    next
      case (Join u)
      have "ord_at first vs S M'"
        using Join(3) coh by (intro ord_at_step [OF vs]) (auto simp: m_join_def le_fun_def)
      then show ?thesis using Join(1) tr by (auto simp: upd_state_def)
    next
      case (Print v)
      have S: "upd_state ch S t i s' (nthreads M) = S" using tr Print(1) by (simp add: upd_state_def)
      have "ord_at first vs S M'"
        using coh [of t] t Print tr vs unfolding Print(3)
        by (intro ord_at_step [OF vs]) (auto simp: ord_at_def ord_thread_def)
      with S show ?thesis by auto
    next
      case Idle
      have S: "upd_state ch S t i s' (nthreads M) = S" using tr Idle(1) by (auto simp: upd_state_def)
      have "ord_at first vs S M'" 
        using coh [OF idle_cur [OF Idle(2)]] Idle(2) by (intro ord_at_step [OF vs]) (auto simp: idle_step_def)
      with S show ?thesis by auto
    qed (use tr in auto)
  qed
qed auto

section \<open>Properties\<close>

text \<open>
  No undefined behaviour and no panic, and there is one sequence of values, among \<open>W\<close>, such that
  every printed line consists of values of the sequence, in its order.
\<close>

definition one_order :: "32 word list set \<Rightarrow> 'a config \<Rightarrow> bool" where
  "one_order W c \<longleftrightarrow> \<not> ub (mem c) \<and> (\<forall>t m. progs c t \<noteq> Some (Panic m)) \<and>
     (\<exists>vs \<in> W. \<forall>v \<in> set (out (mem c)).
        \<exists>ks. sorted ks \<and> (\<forall>k \<in> set ks. k < length vs) \<and> v = VList (map (\<lambda>k. VI32 (vs ! k)) ks))"

abbreviation ord_prog :: "bool \<Rightarrow> ('a val \<Rightarrow> 'a rst) \<Rightarrow> 'a rst \<Rightarrow> ('a, unit) prog \<Rightarrow> bool" where
  "ord_prog first ch s p \<equiv> conforms (\<lambda>_ _ _. True) (ord_tr first ch) (\<lambda>_. False) (\<lambda>_ _. True) s p"

lemma ord_reach:
  fixes main :: "('a, unit) prog"
  assumes "\<And>a. reads (ch a) = []" "ord_prog first ch (RS {5, 10} []) main" "\<And>a. ord_prog first ch (ch a) (code a)"
    and "reach fx code (init_config [[VI32 0]] main) c"
  shows "one_order (if first then seq1 else seq2) c"
proof -
  have "static_val [[VI32 0]] MX = (VI32 0 :: 'a val)" by (simp add: static_val_def MX_def)
  from ord_at_init [OF this] obtain S where *: "\<not> ub (mem c)" "\<exists>vs. ord_at first vs S (mem c)"
    and conf: "\<And>t p. progs c t = Some p \<Longrightarrow> t < nthreads (mem c) \<and> ord_prog first ch (S t) p"
    using odp.atomic_reach [OF _ assms(2,3,4)] assms(1) by blast
  from *(2) obtain vs where vs: "ord_at first vs S (mem c)" by blast
  have "vs \<in> (if first then seq1 else seq2)" using vs by (simp add: ord_at_def)
  moreover have "\<exists>ks. sorted ks \<and> (\<forall>k \<in> set ks. k < length vs) \<and> v = VList (map (\<lambda>k. VI32 (vs ! k)) ks)"
    if "v \<in> set (out (mem c))" for v
  proof -
    from vs that obtain d rs where "coherent vs d rs" "v = VList rs" unfolding ord_at_def by blast
    then show ?thesis unfolding coherent_def by blast
  qed
  moreover have "progs c t \<noteq> Some (Panic m)" for t m using conf [of t "Panic m"] by auto
  ultimately show ?thesis using *(1) unfolding one_order_def by blast
qed

definition order_todo :: "'a val \<Rightarrow> 'a rst" where
  "order_todo x = (if x = VUsize 0 then RS {5, 10} [] else RS {} [])"

definition order2_todo :: "'a val \<Rightarrow> 'a rst" where
  "order2_todo x = (if x = VUsize 0 then RS {} [] else if x = VUsize 1 then RS {10} [] else RS {5} [])"

lemmas ord_simps = conf_simps seqp_def order_todo_def order2_todo_def

lemma order_ok: "ord_prog True order_todo (RS {5, 10} []) order_main" "ord_prog True order_todo (order_todo x) (order_thread x)"
  by (auto simp: ord_simps order_main_def order_thread_def order_a_def order_b_def MX_def)


text \<open>
  One modification order for all threads (03-04): the values of the variable form one of the
  sequences the two stores allow, and the loads of the reader, printed on one line, never go
  back in it.
\<close>

theorem order_main_one_order:
  assumes "reach fx order_thread (init_config [[VI32 0]] order_main) c"
  shows "one_order seq1 c"
  using ord_reach [OF _ order_ok assms] by (simp add: order_todo_def)


theorem order_main_one_order_witness:
  "\<exists>c :: nat config. one_order seq1 c \<and> out (mem c) = [VList [VI32 0, VI32 5, VI32 5, VI32 15]]"
proof -
  obtain c :: "nat config" where c: "run (\<lambda>_ _ _ _. True) order_thread
      (sched [(0, 0), (0, 0), (1, 0), (1, 0), (1, 0), (1, 1), (2, 0), (2, 0), (2, 1), (2, 0), (2, 1), (2, 2), (2, 0)])
      (init_config [[VI32 0]] order_main) = Some c" "out (mem c) = [VList [VI32 0, VI32 5, VI32 5, VI32 15]]"
    by (simp add: run_simps order_main_def order_thread_def order_a_def order_b_def MX_def)
  from order_main_one_order [OF run_reach [OF c(1)]] c(2) show ?thesis by blast
qed


end
