(* ===== verification/Seq_Cst.thy ===== *)
theory Seq_Cst
  imports Protocol Access
begin

text \<open>
  Sequential consistency (03-07): two threads each raise a flag and then look at the flag of the
  other. With sequentially consistent accesses at most one of them finds the other flag down,
  so that the string, which is not protected in any other way, is written by one thread only.
\<close>

section \<open>The code\<close>

text \<open>The flags \<open>A\<close> and \<open>B\<close> and the string \<open>S\<close>; \<open>x\<close> tells the two threads apart.\<close>

definition sc_flag :: "bool \<Rightarrow> loc" where
  "sc_flag x = Loc (if x then 1 else 0) 0"

definition sc_S :: loc where
  "sc_S = Loc 2 0"

definition sc_thread :: "'a code" where
  "sc_thread a = (let x = as_bool a in
     seqp (store (sc_flag x) (VBool True) SeqCst)
     (bindp (load (sc_flag (\<not> x)) SeqCst) (\<lambda>v.
       if \<not> as_bool v then push_str sc_S ''!'' else Ret ())))"

definition sc_main :: "('a, unit) prog" where
  "sc_main =
     bindp (spawn (VBool False)) (\<lambda>a.
     bindp (spawn (VBool True)) (\<lambda>b.
     seqp (join a) (join b)))"

definition sc_statics :: "'a val list list" where
  "sc_statics = [[VBool False], [VBool False], [VStr []]]"

section \<open>The protocol\<close>

text \<open>
  The phases of a thread: 0 before its store, 1 before its load, 2 when it has found the other
  flag down, 3 when it has pushed, 4 when it has found the other flag up.
\<close>

datatype scst = ScMain nat | Sc bool nat

fun sc_tr :: "scst \<Rightarrow> 'a instr \<Rightarrow> 'a resp \<Rightarrow> scst \<Rightarrow> bool" where
  "sc_tr s (IStore o1 l v) r s' = (\<exists>x. s = Sc x 0 \<and> l = sc_flag x \<and> o1 = SeqCst \<and> v = VBool True \<and> s' = Sc x 1)"
| "sc_tr s (ILoad o1 l) r s' = (\<exists>x. s = Sc x 1 \<and> l = sc_flag (\<not> x) \<and> o1 = SeqCst \<and>
     s' = Sc x (if rval r = VBool True then 4 else 2))"
| "sc_tr s (IRead l) r s' = (\<exists>x. s = Sc x 2 \<and> l = sc_S \<and> s' = s)"
| "sc_tr s (IWrite l v) r s' = (\<exists>x. s = Sc x 2 \<and> l = sc_S \<and> v = VStr ''!'' \<and> s' = Sc x 3)"
| "sc_tr s (ISpawn a) r s' = (\<exists>k. s = ScMain k \<and> k < 2 \<and> a = VBool (k = 1) \<and> s' = ScMain (Suc k))"
| "sc_tr s (IJoin u) r s' = (s' = s)"
| "sc_tr s ITau r s' = (s' = s)"
| "sc_tr s i r s' = False"

fun sc_pos :: "scst \<Rightarrow> 'a instr \<Rightarrow> 'a resp \<Rightarrow> bool" where
  "sc_pos s (IRead l) r = (l = sc_S \<and> (\<exists>x. s = Sc x 2) \<longrightarrow> rval r = VStr [])"
| "sc_pos s (ILoad o1 l) r = ((\<exists>x. l = sc_flag x) \<longrightarrow> (\<exists>b. rval r = VBool b))"
| "sc_pos s i r = True"

definition sc_tid :: "bool \<Rightarrow> tid" where
  "sc_tid x = (if x then 2 else 1)"

text \<open>The phases of the two threads, and who may write.\<close>

definition sc_threads :: "(bool \<Rightarrow> nat) \<Rightarrow> (tid \<Rightarrow> scst) \<Rightarrow> nat \<Rightarrow> bool" where
  "sc_threads ph S n \<longleftrightarrow> n \<in> {1, 2, 3} \<and> S 0 = ScMain (n - 1) \<and>
     (\<forall>x. if sc_tid x < n then S (sc_tid x) = Sc x (ph x) else ph x = 0)"

definition entered :: "(bool \<Rightarrow> nat) \<Rightarrow> bool \<Rightarrow> bool" where
  "entered ph x \<longleftrightarrow> ph x = 2 \<or> ph x = 3"

definition sc_mem :: "(bool \<Rightarrow> nat) \<Rightarrow> 'a mem \<Rightarrow> bool" where
  "sc_mem ph M \<longleftrightarrow> \<not> ub M \<and> (\<forall>b. \<not> freed M b) \<and> (\<forall>x. atomic_only (log M (sc_flag x))) \<and>
     (\<forall>x. 1 \<le> ph x \<longrightarrow> 1 \<le> scv M (sc_flag x)) \<and>
     (\<forall>x k m. hist M (sc_flag x) k = Some m \<longrightarrow> mval m = VBool (1 \<le> k)) \<and>
     \<not> (entered ph False \<and> entered ph True) \<and>
     (\<forall>u n k. (u, n, k) \<in> set (log M sc_S) \<longrightarrow> (\<exists>x. u = sc_tid x \<and> entered ph x)) \<and>
     cell M sc_S = VStr (if ph False = 3 \<or> ph True = 3 then ''!'' else [])"

definition sc_inv :: "(tid \<Rightarrow> scst) \<Rightarrow> 'a mem \<Rightarrow> bool" where
  "sc_inv S M \<longleftrightarrow> (\<exists>ph. sc_threads ph S (nthreads M) \<and> sc_mem ph M)"

definition sc_child :: "'a val \<Rightarrow> scst" where
  "sc_child a = Sc (as_bool a) 0"

definition sc_fin :: "scst \<Rightarrow> bool" where
  "sc_fin s \<longleftrightarrow> (case s of ScMain k \<Rightarrow> True | Sc x p \<Rightarrow> 3 \<le> p)"

lemma sc_simps [simp]:
  "sc_flag x = sc_flag y \<longleftrightarrow> x = y" "sc_flag x \<noteq> sc_S" "sc_S \<noteq> sc_flag x" "sc_tid x = sc_tid y \<longleftrightarrow> x = y" "sc_tid x \<noteq> 0"
  by (auto simp: sc_flag_def sc_S_def sc_tid_def)

lemma sc_threadsD:
  assumes "sc_threads ph S n" "t < n"
  shows "S t = ScMain (n - 1) \<and> t = 0 \<or> (\<exists>x. t = sc_tid x \<and> S t = Sc x (ph x))"
proof -
  have "t = 0 \<or> t = sc_tid False \<or> t = sc_tid True" using assms by (auto simp: sc_threads_def sc_tid_def)
  with assms show ?thesis unfolding sc_threads_def by (metis (full_types))
qed

lemma sc_threads_upd:
  assumes "sc_threads ph S n" "t < n" "S t = Sc x p"
  shows "t = sc_tid x" "p = ph x" "sc_threads (ph(x := q)) (S(t := Sc x q)) n"
proof -
  show t: "t = sc_tid x" and "p = ph x" using sc_threadsD [OF assms(1,2)] assms(3) by auto
  show "sc_threads (ph(x := q)) (S(t := Sc x q)) n"
    using assms(1,2) t unfolding sc_threads_def by auto
qed

text \<open>A thread that has entered is the only one to access the string.\<close>

lemma sc_covered:
  assumes "sc_mem ph M" "wf_mem M" "entered ph x"
  shows "covered (log M sc_S) (cur M (sc_tid x))"
proof -
  have "u = sc_tid x \<and> n \<le> cur M u (Clk u)" if "(u, n, k) \<in> set (log M sc_S)" for u n k
  proof -
    from assms(1) that obtain y where "u = sc_tid y" "entered ph y" unfolding sc_mem_def by blast
    moreover have "\<not> (entered ph x \<and> entered ph (\<not> x))" using assms(1) unfolding sc_mem_def by (cases x) auto
    ultimately have "u = sc_tid x" using assms(3) by (cases "y = x") auto
    with that assms(2) show ?thesis unfolding wf_mem_def wf_core_def by blast
  qed
  then show ?thesis unfolding covered_def by blast
qed

section \<open>Every step keeps the invariant\<close>

lemma scv_steps:
  "m_load ts t o1 l M = Some (v, M') \<Longrightarrow> scv M y \<le> scv M' y"
  "m_load ts t SeqCst l M = Some (v, M') \<Longrightarrow> scv M l \<le> ts"
  "m_store ts t o1 l v M = Some M' \<Longrightarrow> scv M y \<le> scv M' y"
  "m_store ts t SeqCst l v M = Some M' \<Longrightarrow> ts \<le> scv M' l"
  "scv (m_read t l M) = scv M" "scv (m_write t l v M) = scv M"
  by (auto simp: m_load_def m_store_def m_read_def m_write_def touch_def observe_def post_def readable_def Let_def
      split: option.splits if_splits)

lemma sc_memD:
  assumes "sc_mem ph M"
  shows "\<not> ub M" "\<not> freed M b" "atomic_only (log M (sc_flag x))" "1 \<le> ph x \<Longrightarrow> 1 \<le> scv M (sc_flag x)"
    "hist M (sc_flag x) k = Some m \<Longrightarrow> mval m = VBool (1 \<le> k)" "\<not> (entered ph x \<and> entered ph (\<not> x))"
    "(u, n, a) \<in> set (log M sc_S) \<Longrightarrow> \<exists>x. u = sc_tid x \<and> entered ph x"
    "cell M sc_S = VStr (if ph False = 3 \<or> ph True = 3 then ''!'' else [])"
proof -
  have "\<not> (entered ph False \<and> entered ph True)" using assms unfolding sc_mem_def by simp
  then show "\<not> (entered ph x \<and> entered ph (\<not> x))" by (cases x) auto
  show "\<exists>x. u = sc_tid x \<and> entered ph x" if "(u, n, a) \<in> set (log M sc_S)"
    using assms that unfolding sc_mem_def by meson
qed (use assms in \<open>simp_all add: sc_mem_def\<close>)

lemma sc_memI:
  assumes "\<not> ub M" "\<And>b. \<not> freed M b" "\<And>x. atomic_only (log M (sc_flag x))" "\<And>x. 1 \<le> ph x \<Longrightarrow> 1 \<le> scv M (sc_flag x)"
    "\<And>x k m. hist M (sc_flag x) k = Some m \<Longrightarrow> mval m = VBool (1 \<le> k)" "\<not> (entered ph False \<and> entered ph True)"
    "\<And>u n a. (u, n, a) \<in> set (log M sc_S) \<Longrightarrow> \<exists>x. u = sc_tid x \<and> entered ph x"
    "cell M sc_S = VStr (if ph False = 3 \<or> ph True = 3 then ''!'' else [])"
  shows "sc_mem ph M"
  unfolding sc_mem_def using assms by (intro conjI allI impI) simp_all

lemma sc_mem_load:
  assumes inv: "sc_mem ph M" and ld: "m_load ts t SeqCst (sc_flag y) M = Some (v, M')" and x: "ph x = 1" "y \<noteq> x"
  shows "sc_mem (ph(x := (if v = VBool True then 4 else 2))) M'" (is "sc_mem ?ph M'")
proof -
  note D = sc_memD [OF inv]
  from m_load_step [OF ld] obtain m where m: "v = mval m" "load_step t (sc_flag y) SeqCst ts M M' m" by blast
  then have a: "accessed t (sc_flag y) AtRead M M'" and h: "hist M' = hist M" "cell M' = cell M" and k: "hist M (sc_flag y) ts = Some m"
    and ub: "ub M' = (ub M \<or> freed M (blk (sc_flag y)) \<or> races AtRead (cur M t) (log M (sc_flag y)))"
    by (auto simp: load_step_def)
  obtain n where log: "log M' = (log M)(sc_flag y := (t, n, AtRead) # log M (sc_flag y))"
    using a by (auto simp: accessed_def)
  have v: "v = VBool (1 \<le> ts)" using D(5) [OF k] m(1) by simp
  have y: "ph y = 0" if "v \<noteq> VBool True"
  proof (rule ccontr)
    assume "ph y \<noteq> 0"
    then have "1 \<le> scv M (sc_flag y)" using D(4) [of y] by simp
    then show False using scv_steps(2) [OF ld] v that by simp
  qed
  have ent: "entered ph z \<Longrightarrow> entered ?ph z" for z using x(1) by (cases "z = x") (auto simp: entered_def)
  show ?thesis
  proof (rule sc_memI)
    show "\<not> ub M'" using ub D(1,2,3) by simp
    show "\<not> freed M' b" for b using D(2) accessedD(2) [OF a] by simp
    show "atomic_only (log M' (sc_flag z))" for z using D(3) by (simp add: log)
    show "1 \<le> scv M' (sc_flag z)" if "1 \<le> ?ph z" for z
      using that D(4) [of z] scv_steps(1) [OF ld, of "sc_flag z"] x(1) by (cases "z = x") (auto intro: le_trans)
    show "mval m = VBool (1 \<le> k)" if "hist M' (sc_flag z) k = Some m" for z k m using that D(5) h by simp
    show "\<not> (entered ?ph False \<and> entered ?ph True)"
      using D(6) [of x] y x by (cases x; cases y) (auto simp: entered_def)
    show "\<exists>z. u = sc_tid z \<and> entered ?ph z" if "(u, n, c) \<in> set (log M' sc_S)" for u n c
      using that D(7) [of u n c] ent log by auto
    show "cell M' sc_S = VStr (if ?ph False = 3 \<or> ?ph True = 3 then ''!'' else [])"
      using D(8) x(1) unfolding h by (cases x) auto
  qed
qed

lemma sc_mem_store:
  assumes inv: "sc_mem ph M" and st: "m_store ts t SeqCst (sc_flag x) (VBool True) M = Some M'" and x: "ph x = 0"
  shows "sc_mem (ph(x := 1)) M'" (is "sc_mem ?ph M'")
proof -
  note D = sc_memD [OF inv]
  from m_store_step [OF st] obtain m where m: "mval m = VBool True" "store_step t (sc_flag x) SeqCst ts M M' m" by blast
  then have a: "accessed t (sc_flag x) AtWrite M M'" and h: "hist M' = (hist M)(sc_flag x := (hist M (sc_flag x))(ts \<mapsto> m))"
    "cell M' = cell M" and ts: "1 \<le> ts"
    and ub: "ub M' = (ub M \<or> freed M (blk (sc_flag x)) \<or> races AtWrite (cur M t) (log M (sc_flag x)))"
    by (auto simp: store_step_def)
  obtain n where log: "log M' = (log M)(sc_flag x := (t, n, AtWrite) # log M (sc_flag x))"
    using a by (auto simp: accessed_def)
  have ent: "entered ?ph z \<longleftrightarrow> entered ph z" for z using x by (auto simp: entered_def)
  show ?thesis
  proof (rule sc_memI)
    show "\<not> ub M'" using ub D(1,2,3) by simp
    show "\<not> freed M' b" for b using D(2) accessedD(2) [OF a] by simp
    show "atomic_only (log M' (sc_flag z))" for z using D(3) by (simp add: log)
    show "1 \<le> scv M' (sc_flag z)" if "1 \<le> ?ph z" for z
      using that D(4) [of z] scv_steps(3) [OF st, of "sc_flag z"] scv_steps(4) [OF st] ts
      by (cases "z = x") (auto intro: le_trans)
    show "mval m' = VBool (1 \<le> k)" if "hist M' (sc_flag z) k = Some m'" for z k m'
      using that D(5) [of z k m'] h m(1) ts by (auto split: if_splits)
    show "\<not> (entered ?ph False \<and> entered ?ph True)" using D(6) [of False] ent by auto
    show "\<exists>z. u = sc_tid z \<and> entered ?ph z" if "(u, n, c) \<in> set (log M' sc_S)" for u n c
      using that D(7) [of u n c] ent log by auto
    show "cell M' sc_S = VStr (if ?ph False = 3 \<or> ?ph True = 3 then ''!'' else [])"
      using D(8) x unfolding h by (cases x) auto
  qed
qed

lemma sc_mem_cell:
  assumes inv: "sc_mem ph M" and wf: "wf_mem M" and x: "ph x = 2" and step: "cell_step (sc_tid x) sc_S k M M'"
    and ub: "ub M' = (ub M \<or> freed M (blk sc_S) \<or> races k (cur M (sc_tid x)) (log M sc_S))" and scv: "scv M' = scv M"
    and q: "q = 2 \<and> cell M' sc_S = cell M sc_S \<or> q = 3 \<and> cell M' sc_S = VStr ''!''"
  shows "sc_mem (ph(x := q)) M'" (is "sc_mem ?ph M'")
proof -
  note D = sc_memD [OF inv]
  from step have a: "accessed (sc_tid x) sc_S k M M'" and h: "hist M' = hist M" by (auto simp: cell_step_def)
  obtain n where log: "log M' = (log M)(sc_S := (sc_tid x, n, k) # log M sc_S)"
    using a by (auto simp: accessed_def)
  have ent: "entered ?ph z \<longleftrightarrow> entered ph z" for z using x q by (auto simp: entered_def)
  have ex: "entered ph x" using x by (simp add: entered_def)
  show ?thesis
  proof (rule sc_memI)
    show "\<not> ub M'" using ub D(1,2) sc_covered [OF inv wf ex] by simp
    show "\<not> freed M' b" for b using D(2) accessedD(2) [OF a] by simp
    show "atomic_only (log M' (sc_flag z))" for z using D(3) by (simp add: log)
    show "1 \<le> scv M' (sc_flag z)" if "1 \<le> ?ph z" for z
      using that D(4) [of z] x scv by (cases "z = x") auto
    show "mval m' = VBool (1 \<le> k)" if "hist M' (sc_flag z) k = Some m'" for z k m'
      using that D(5) [of z k m'] h by simp
    show "\<not> (entered ?ph False \<and> entered ?ph True)" using D(6) [of False] ent by auto
    show "\<exists>z. u = sc_tid z \<and> entered ?ph z" if "(u, n, c) \<in> set (log M' sc_S)" for u n c
      using that D(7) [of u n c] ent log ex by auto
    show "cell M' sc_S = VStr (if ?ph False = 3 \<or> ?ph True = 3 then ''!'' else [])"
      using D(8) D(6) [of x] x q by (cases x) (auto simp: entered_def)
  qed
qed

lemma sc_mem_frame:
  assumes "sc_mem ph M" "hist M' = hist M" "log M' = log M" "cell M' = cell M" "scv M' = scv M" "freed M' = freed M" "ub M' = ub M"
  shows "sc_mem ph M'"
  using assms(1) unfolding sc_mem_def assms(2-) .

lemma sc_threads_spawn:
  assumes "sc_threads ph S n" "S t = ScMain k" "k < 2" "t < n"
  shows "sc_threads ph ((S(t := ScMain (Suc k)))(n := Sc (k = 1) 0)) (Suc n)"
proof -
  have t: "t = 0" "k = n - 1" using sc_threadsD [OF assms(1,4)] assms(2) by auto
  then have n: "n = Suc k" using assms(1) unfolding sc_threads_def by (metis assms(4) Suc_pred' gr_implies_not0 not_gr_zero)
  let ?S = "(S(t := ScMain (Suc k)))(n := Sc (k = 1) 0)"
  have x: "if sc_tid x < Suc n then ?S (sc_tid x) = Sc x (ph x) else ph x = 0" for x
  proof -
    have old: "if sc_tid x < n then S (sc_tid x) = Sc x (ph x) else ph x = 0"
      using assms(1) unfolding sc_threads_def by blast
    consider "sc_tid x < n" | "sc_tid x = n" "x = (k = 1)" | "sc_tid x > n"
      using n assms(3) by (cases x; cases "k = 1") (auto simp: sc_tid_def)
    then show ?thesis using old t(1) by cases auto
  qed
  have "?S 0 = ScMain (Suc n - 1)" "Suc n \<in> {1, 2, 3}" using t(1) n assms(3) by auto
  with x show ?thesis unfolding sc_threads_def by blast
qed

lemma sc_inv_step:
  assumes inv: "sc_inv S M" and wf: "wf_mem M" and t: "t < nthreads M"
    and ex: "mexec fx ch t i M = Some (r, M')" and tr: "sc_tr (S t) i r s'"
  shows "sc_inv (upd_state sc_child S t i s' (nthreads M)) M'"
proof -
  from inv obtain ph where th: "sc_threads ph S (nthreads M)" and mem: "sc_mem ph M" unfolding sc_inv_def by blast
  have move: ?thesis if "S t = Sc x p" "s' = Sc x q" "nthreads M' = nthreads M" "\<And>a. i \<noteq> ISpawn a" "sc_mem (ph(x := q)) M'" for x p q
  proof -
    have "upd_state sc_child S t i s' (nthreads M) = S(t := Sc x q)"
      using that(2,4) by (cases i) (auto simp: upd_state_def)
    then show ?thesis using sc_threads_upd(3) [OF th t that(1), of q] that(3,5) unfolding sc_inv_def by auto
  qed
  show ?thesis
  proof (cases i)
    case (IStore o1 l v)
    then obtain x where x: "S t = Sc x 0" "l = sc_flag x" "o1 = SeqCst" "v = VBool True" "s' = Sc x 1" using tr by auto
    with ex IStore have st: "m_store (ch_ts ch) t SeqCst (sc_flag x) (VBool True) M = Some M'" by auto
    have "nthreads M' = nthreads M" using m_store_step [OF st] by (auto simp: store_step_def accessed_def)
    with move [OF x(1,5)] sc_mem_store [OF mem st] sc_threads_upd(2) [OF th t x(1)] IStore show ?thesis by simp
  next
    case (ILoad o1 l)
    then obtain x where x: "S t = Sc x 1" "l = sc_flag (\<not> x)" "o1 = SeqCst" "s' = Sc x (if rval r = VBool True then 4 else 2)"
      using tr by auto
    with ex ILoad obtain v where v: "r = RVal v" and ld: "m_load (ch_ts ch) t SeqCst (sc_flag (\<not> x)) M = Some (v, M')" by auto
    have "nthreads M' = nthreads M" using m_load_step [OF ld] by (auto simp: load_step_def accessed_def)
    with move [OF x(1,4)] sc_mem_load [OF mem ld, of x] sc_threads_upd(2) [OF th t x(1)] ILoad v show ?thesis by simp
  next
    case (IRead l)
    then obtain x where x: "S t = Sc x 2" "l = sc_S" "s' = S t" using tr by auto
    have M': "M' = m_read t sc_S M" using ex IRead x by simp
    have t': "t = sc_tid x" "ph x = 2" using sc_threads_upd(1,2) [OF th t x(1)] by auto
    have "sc_mem (ph(x := 2)) M'"
      using m_cell_step(1) [of t sc_S M] m_cell_step(4) [of t sc_S M] sc_memD(8) [OF mem]
      by (intro sc_mem_cell [OF mem wf t'(2), of NaRead]) (auto simp: M' t'(1) scv_steps m_cell_step)
    moreover have "nthreads M' = nthreads M" by (simp add: M' m_read_def touch_def Let_def)
    ultimately show ?thesis using move [OF x(1), of 2] IRead x by simp
  next
    case (IWrite l v)
    then obtain x where x: "S t = Sc x 2" "l = sc_S" "v = VStr ''!''" "s' = Sc x 3" using tr by auto
    have M': "M' = m_write t sc_S (VStr ''!'') M" using ex IWrite x by simp
    have t': "t = sc_tid x" "ph x = 2" using sc_threads_upd(1,2) [OF th t x(1)] by auto
    have "sc_mem (ph(x := 3)) M'"
      by (intro sc_mem_cell [OF mem wf t'(2), of NaWrite]) (auto simp: M' t'(1) scv_steps m_cell_step)
    moreover have "nthreads M' = nthreads M" by (simp add: M' m_write_def touch_def Let_def)
    ultimately show ?thesis using move [OF x(1,4)] IWrite by simp
  next
    case (ISpawn a)
    then obtain k where k: "S t = ScMain k" "k < 2" "a = VBool (k = 1)" "s' = ScMain (Suc k)" using tr by auto
    have M': "M' = m_spawn t M" using ex ISpawn by simp
    have "sc_mem ph M'" unfolding M' by (rule sc_mem_frame [OF mem]) (simp_all add: m_spawn_def)
    then show ?thesis
      using sc_threads_spawn [OF th k(1,2) t] ISpawn k unfolding sc_inv_def M'
      by (auto simp: upd_state_def sc_child_def m_spawn_def)
  next
    case (IJoin u)
    then have "upd_state sc_child S t i s' (nthreads M) = S" using tr by (simp add: upd_state_def)
    moreover have "sc_mem ph M'" "nthreads M' = nthreads M"
      using ex IJoin by (auto simp: m_join_def intro: sc_mem_frame [OF mem])
    ultimately show ?thesis using th unfolding sc_inv_def by auto
  next
    case ITau
    then show ?thesis using tr ex inv by (auto simp: upd_state_def)
  qed (use tr in auto)
qed

interpretation scp: protocol sc_pos sc_tr "\<lambda>_. False" sc_child sc_fin sc_inv
proof
  fix S M t and i :: "'a instr" and fx ch r M'
  assume inv: "sc_inv S M" and t: "t < nthreads M" and ex: "mexec fx ch t i M = Some (r, M')"
  show "sc_pos (S t) i r"
  proof (cases i)
    case (IRead l)
    from inv obtain ph where th: "sc_threads ph S (nthreads M)" and mem: "sc_mem ph M" unfolding sc_inv_def by blast
    have "cell M sc_S = VStr []" if x: "S t = Sc x 2" for x
      using sc_memD(8) [OF mem] sc_memD(6) [OF mem, of x] sc_threads_upd(2) [OF th t x]
      by (cases x) (auto simp: entered_def)
    then show ?thesis using IRead ex by auto
  next
    case (ILoad o1 l)
    from inv obtain ph where mem: "sc_mem ph M" unfolding sc_inv_def by blast
    have "\<exists>b. v = VBool b" if "l = sc_flag x" "m_load (ch_ts ch) t o1 l M = Some (v, M')" for x v
      using m_load_step [OF that(2)] sc_memD(5) [OF mem, of x] that(1) by (auto simp: load_step_def)
    then show ?thesis using ILoad ex by auto
  qed auto
qed (auto intro: sc_inv_step)

lemma sc_push_ok:
  fixes b :: bool
  shows "conforms sc_pos sc_tr (\<lambda>_. False) (\<lambda>_ s. sc_fin s) (Sc x (if b then 4 else 2))
    (if \<not> b then push_str sc_S ''!'' else Ret ())"
  by (simp add: push_str_def conf_simps sc_fin_def)

lemma sc_thread_ok: "conforms sc_pos sc_tr (\<lambda>_. False) (\<lambda>_ s. sc_fin s) (sc_child a) (sc_thread a)"
  using sc_push_ok by (auto simp: sc_thread_def sc_child_def conf_simps seqp_def Let_def split del: if_split)

section \<open>Properties\<close>

text \<open>
  C29. Sequentially consistent flags (03-07): at most one of the threads finds the flag of the other
  down, so that there is no data race on the static mutable string and it is pushed to at most
  once.
\<close>

theorem sc_main_exclusive:
  assumes "reach fx sc_thread (init_config sc_statics sc_main) c"
  shows "\<not> ub (mem c) \<and> (\<forall>t m. progs c t \<noteq> Some (Panic m)) \<and> cell (mem c) sc_S \<in> {VStr [], VStr ''!''}"
proof -
  have "sc_threads (\<lambda>_. 0) (\<lambda>_. ScMain 0) 1" by (auto simp: sc_threads_def sc_tid_def)
  moreover have "sc_mem (\<lambda>_. 0) (init_mem sc_statics)"
    by (auto simp: sc_mem_def init_mem_def entered_def static_val_def sc_statics_def sc_flag_def sc_S_def)
  ultimately have "sc_inv (\<lambda>_. ScMain 0) (init_mem sc_statics)" unfolding sc_inv_def by (auto simp: init_mem_def)
  moreover have "conforms sc_pos sc_tr (\<lambda>_. False) (\<lambda>_ s. sc_fin s) (ScMain 0) sc_main"
    by (auto simp: sc_main_def conf_simps seqp_def sc_fin_def)
  ultimately have "scp.safe (init_config sc_statics sc_main)" by (rule scp.safe_init)
  then have "scp.safe c" by (rule scp.safe_reach [OF sc_thread_ok _ assms])
  then obtain S where inv: "sc_inv S (mem c)"
    and conf: "\<And>t p. progs c t = Some p \<Longrightarrow> conforms sc_pos sc_tr (\<lambda>_. False) (\<lambda>_ s. sc_fin s) (S t) p"
    unfolding scp.safe_def by blast
  from inv obtain ph where mem: "sc_mem ph (mem c)" unfolding sc_inv_def by blast
  have "progs c t \<noteq> Some (Panic m)" for t m using conf [of t "Panic m"] by auto
  with sc_memD(1,8) [OF mem] show ?thesis by auto
qed

theorem sc_main_exclusive_witness:
  "\<exists>c :: nat config. \<not> ub (mem c) \<and> finished c 0 \<and> cell (mem c) sc_S = VStr ''!''"
proof -
  obtain c :: "nat config" where c: "run (\<lambda>_ _ _ _. True) sc_thread
      (sched [(0, 0), (0, 0), (1, 1), (1, 0), (2, 1), (2, 1), (1, 0), (1, 0), (0, 0), (0, 0)])
      (init_config sc_statics sc_main) = Some c" "finished c 0" "cell (mem c) sc_S = VStr ''!''"
    by (simp add: run_simps sc_main_def sc_thread_def sc_statics_def sc_flag_def sc_S_def push_str_def)
  from sc_main_exclusive [OF run_reach [OF c(1)]] c(2-) show ?thesis by blast
qed

end
