(* ===== verification/Monitor.thy ===== *)
theory Monitor
  imports Protocol Access
begin

text \<open>
  Data behind a \<open>std::sync::Mutex\<close>, with a \<open>Condvar\<close> or thread parking to wait for it to change.
  A protocol in which only the holder of the lock accesses the protected cells has no data race;
  \<open>monitor\<close> is the interface for such protocols: their invariant has to speak of the contents of
  the cells, of the waiting threads and of the output only.
\<close>

section \<open>Steps of programs that share data behind a lock\<close>

text \<open>\<open>mon_instr D h i h'\<close>: a thread may issue \<open>i\<close> when it holds the lock (\<open>h\<close>), and holds it afterwards (\<open>h'\<close>).\<close>

fun mon_instr :: "loc set \<Rightarrow> bool \<Rightarrow> 'a instr \<Rightarrow> bool \<Rightarrow> bool" where
  "mon_instr D h (IRead d) h' = (d \<in> D \<and> h \<and> h')"
| "mon_instr D h (IWrite d v) h' = (d \<in> D \<and> h \<and> h')"
| "mon_instr D h (IMLock m) h' = (m = 0 \<and> \<not> h \<and> h')"
| "mon_instr D h (IMUnlock m) h' = (m = 0 \<and> h \<and> \<not> h')"
| "mon_instr D h (ICvPark cv m) h' = (cv = 0 \<and> m = 0 \<and> h \<and> \<not> h')"
| "mon_instr D h (ICvWoken cv) h' = (cv = 0 \<and> h' = h)"
| "mon_instr D h (ICvNotify cv) h' = (cv = 0 \<and> h' = h)"
| "mon_instr D h (ISpawn a) h' = (h' = h)"
| "mon_instr D h (IJoin u) h' = (h' = h)"
| "mon_instr D h IPark h' = (h' = h)"
| "mon_instr D h (IUnpark u) h' = (h' = h)"
| "mon_instr D h (IPrint v) h' = (h' = h)"
| "mon_instr D h ICurrent h' = (h' = h)"
| "mon_instr D h ITau h' = (h' = h)"
| "mon_instr D h i h' = False"

text \<open>The lock is held by the thread whose state says so, and whoever gets it next knows all accesses.\<close>

definition lock_owner :: "(tid \<Rightarrow> bool) \<Rightarrow> 'a mem \<Rightarrow> bool" where
  "lock_owner H M \<longleftrightarrow> (\<forall>t. mheld M 0 = Some t \<longleftrightarrow> t < nthreads M \<and> H t)"

definition knows_all :: "loc set \<Rightarrow> 'a mem \<Rightarrow> view \<Rightarrow> bool" where
  "knows_all D M V \<longleftrightarrow> (\<forall>d \<in> D. covered (log M d) V)"

definition mon_inv :: "loc set \<Rightarrow> (tid \<Rightarrow> bool) \<Rightarrow> 'a mem \<Rightarrow> bool" where
  "mon_inv D H M \<longleftrightarrow> \<not> ub M \<and> (\<forall>b. \<not> freed M b) \<and> lock_owner H M \<and>
     knows_all D M (case mheld M 0 of None \<Rightarrow> mvw M 0 | Some t \<Rightarrow> cur M t)"

lemma mon_inv_init: "(\<And>t. \<not> H t) \<Longrightarrow> mon_inv D H (init_mem vs)"
  by (simp add: mon_inv_def lock_owner_def knows_all_def init_mem_def)

lemma lock_ownerD:
  assumes "lock_owner H M"
  shows "t < nthreads M \<Longrightarrow> H t \<Longrightarrow> mheld M 0 = Some t" "mheld M 0 = None \<Longrightarrow> t < nthreads M \<Longrightarrow> \<not> H t"
    "t < nthreads M \<Longrightarrow> H t \<Longrightarrow> u < nthreads M \<Longrightarrow> H u \<Longrightarrow> u = t"
  using assms unfolding lock_owner_def by (metis option.distinct(1) option.inject)+

lemma knows_all_mono: "knows_all D M V \<Longrightarrow> V \<le> W \<Longrightarrow> knows_all D M W"
  unfolding knows_all_def using covered_mono by blast

text \<open>An access by the holder.\<close>

lemma mon_access:
  assumes inv: "mon_inv D H M" and t: "t < nthreads M" "H t" and d: "d \<in> D" and acc: "accessed t d k M M'"
    and ub: "ub M' = (ub M \<or> freed M (blk d) \<or> races k (cur M t) (log M d))" and mh: "mheld M' = mheld M"
  shows "mon_inv D H M'"
proof -
  have held: "mheld M 0 = Some t" using lock_ownerD(1) [of H M t] inv t by (simp add: mon_inv_def)
  then have know: "knows_all D M (cur M t)" using inv by (simp add: mon_inv_def)
  have "\<not> ub M'" using ub inv know d by (auto simp: mon_inv_def knows_all_def)
  moreover have "knows_all D M' (cur M' t)"
  proof -
    have "cur M t \<le> cur M' t" using acc by (simp add: accessedD(6))
    with know have "covered (log M e) (cur M' t)" if "e \<in> D" for e
      using that covered_mono unfolding knows_all_def by blast
    with acc show ?thesis by (auto simp: knows_all_def accessed_def)
  qed
  ultimately show ?thesis
    using inv held mh acc by (auto simp: mon_inv_def lock_owner_def accessedD(1,2))
qed

lemma mon_frame:
  assumes inv: "mon_inv D H M" and "log M' = log M" "ub M' = ub M" "freed M' = freed M" "mheld M' = mheld M" "mvw M' = mvw M"
    and "\<And>u. u < nthreads M \<Longrightarrow> cur M u \<le> cur M' u" and "\<And>u. u < nthreads M \<Longrightarrow> H' u = H u" and "nthreads M \<le> nthreads M'"
    and "\<And>u. nthreads M \<le> u \<Longrightarrow> u < nthreads M' \<Longrightarrow> \<not> H' u"
  shows "mon_inv D H' M'"
proof -
  have own: "lock_owner H M" and know: "knows_all D M (case mheld M 0 of None \<Rightarrow> mvw M 0 | Some t \<Rightarrow> cur M t)"
    using inv by (auto simp: mon_inv_def)
  have "mheld M' 0 = Some t \<longleftrightarrow> t < nthreads M' \<and> H' t" for t
    using own assms(5,8-10) unfolding lock_owner_def by (metis leI order.strict_trans2)
  moreover have "knows_all D M' (case mheld M' 0 of None \<Rightarrow> mvw M' 0 | Some t \<Rightarrow> cur M' t)"
  proof (cases "mheld M 0")
    case (Some t)
    with own have "t < nthreads M" by (auto simp: lock_owner_def)
    with know Some assms(7) have "knows_all D M (cur M' t)" by (auto intro: knows_all_mono)
    with Some assms(2,5) show ?thesis by (simp add: knows_all_def)
  qed (use know assms(2,5,6) in \<open>simp add: knows_all_def\<close>)
  ultimately show ?thesis using inv assms(3,4) by (simp add: mon_inv_def lock_owner_def)
qed

text \<open>Taking the lock and giving it back.\<close>

lemma mon_lock:
  assumes inv: "mon_inv D H M" and t: "t < nthreads M" and ex: "m_mlock t 0 M = Some M'"
  shows "mon_inv D (H(t := True)) M'"
proof -
  have M': "mheld M 0 = None" "M' = M\<lparr>mheld := (mheld M)(0 \<mapsto> t), cur := (cur M)(t := sup (cur M t) (mvw M 0))\<rparr>"
    using ex by (auto simp: m_mlock_def split: if_splits)
  have "knows_all D M (sup (cur M t) (mvw M 0))"
    using inv M'(1) knows_all_mono [of D M "mvw M 0"] by (simp add: mon_inv_def)
  moreover have "\<not> H u" if "u < nthreads M" for u using lock_ownerD(2) [of H M u] inv M'(1) that by (simp add: mon_inv_def)
  ultimately show ?thesis
    using inv t by (auto simp: mon_inv_def M'(2) lock_owner_def knows_all_def)
qed

lemma mon_unlock:
  assumes inv: "mon_inv D H M" and t: "t < nthreads M" "H t"
    and M': "M' = (m_munlock t 0 M)\<lparr>cvq := q\<rparr>"
  shows "mon_inv D (H(t := False)) M'"
proof -
  have own: "lock_owner H M" using inv by (simp add: mon_inv_def)
  have held: "mheld M 0 = Some t" using lock_ownerD(1) [OF own t] .
  have "\<not> H u" if "u < nthreads M" "u \<noteq> t" for u using lock_ownerD(3) [OF own t, of u] that by auto
  then show ?thesis
    using inv held by (auto simp: mon_inv_def M' m_munlock_def lock_owner_def knows_all_def)
qed

lemma mon_inv_step:
  assumes inv: "mon_inv D (\<lambda>u. holds (S u)) M" and t: "t < nthreads M" and ex: "mexec fx ch t i M = Some (r, M')"
    and mi: "mon_instr D (holds (S t)) i (holds s')" and ch: "\<And>a. \<not> holds (child a)"
    and init: "\<And>d. d \<in> D \<Longrightarrow> cell M d \<noteq> Uninit"
  shows "mon_inv D (\<lambda>u. holds (upd_state child S t i s' (nthreads M) u)) M'"
proof -
  let ?H' = "\<lambda>u. holds (upd_state child S t i s' (nthreads M) u)"
  have idle: ?thesis
    if "log M' = log M" "ub M' = ub M" "freed M' = freed M" "mheld M' = mheld M" "mvw M' = mvw M"
      "\<And>u. u < nthreads M \<Longrightarrow> cur M u \<le> cur M' u" "holds s' = holds (S t)"
      "nthreads M' = (case i of ISpawn a \<Rightarrow> Suc (nthreads M) | _ \<Rightarrow> nthreads M)"
    by (rule mon_frame [OF inv that(1-6)])
       (use that(7,8) ch t in \<open>cases i; auto simp: upd_state_def split: if_splits\<close>)+
  have upd: ?thesis if "mon_inv D ((\<lambda>u. holds (S u))(t := holds s')) M'" "\<And>a. i \<noteq> ISpawn a"
  proof -
    have "?H' = (\<lambda>u. holds (S u))(t := holds s')" using that(2) by (cases i) (auto simp: upd_state_def)
    with that(1) show ?thesis by simp
  qed
  have same: "(\<lambda>u. holds (S u))(t := holds s') = (\<lambda>u. holds (S u))" if "holds s' = holds (S t)" using that by auto
  show ?thesis
  proof (cases i)
    case (IRead d)
    then have "mon_inv D (\<lambda>u. holds (S u)) M'"
      using ex mi init m_cell_step(1,4) [of t d M]
      by (intro mon_access [OF inv t]) (auto simp: cell_step_def m_read_def touch_def Let_def)
    with IRead mi same upd show ?thesis by auto
  next
    case (IWrite d v)
    then have "mon_inv D (\<lambda>u. holds (S u)) M'"
      using ex mi m_cell_step(2) [of t d M v] m_cell_step(5) [of t d v M]
      by (intro mon_access [OF inv t]) (auto simp: cell_step_def m_write_def touch_def Let_def)
    with IWrite mi same upd show ?thesis by auto
  next
    case (IMLock m)
    with ex mi mon_lock [OF inv t, of M'] have "mon_inv D ((\<lambda>u. holds (S u))(t := True)) M'" by auto
    with IMLock mi upd show ?thesis by auto
  next
    case (IMUnlock m)
    with ex mi have "M' = (m_munlock t 0 M)\<lparr>cvq := cvq M\<rparr>" "holds (S t)" by (auto simp: m_munlock_def)
    with mon_unlock [OF inv t _] IMUnlock mi upd show ?thesis by auto
  next
    case (ICvPark cv m)
    with ex mi have "M' = (m_munlock t 0 M)\<lparr>cvq := (cvq M)(0 := cvq M 0 @ [t])\<rparr>" "holds (S t)"
      by (auto simp: m_cvpark_def m_munlock_def)
    with mon_unlock [OF inv t _] ICvPark mi upd show ?thesis by auto
  next
    case (ICvWoken cv)
    with ex mi show ?thesis by (intro idle) (auto simp: m_cvwoken_def split: if_splits)
  next
    case (ICvNotify cv)
    with ex mi show ?thesis by (intro idle) (auto simp: m_cvnotify_def)
  next
    case (ISpawn a)
    with ex mi show ?thesis by (intro idle) (auto simp: m_spawn_def)
  next
    case (IJoin u)
    with ex mi show ?thesis by (intro idle) (auto simp: m_join_def le_fun_def)
  next
    case IPark
    with ex mi show ?thesis by (intro idle) (auto simp: m_park_def le_fun_def split: if_splits option.splits)
  next
    case (IUnpark u)
    with ex mi show ?thesis by (intro idle) (auto simp: m_unpark_def)
  next
    case (IPrint v)
    with ex mi show ?thesis by (intro idle) auto
  next
    case ICurrent
    with ex mi show ?thesis by (intro idle) auto
  next
    case ITau
    with ex mi show ?thesis by (intro idle) auto
  qed (use mi in auto)
qed

section \<open>The interface\<close>

locale monitor =
  fixes D :: "loc set"
    and holds :: "'s \<Rightarrow> bool"
    and pos :: "'s \<Rightarrow> 'a instr \<Rightarrow> 'a resp \<Rightarrow> bool"
    and tr :: "'s \<Rightarrow> 'a instr \<Rightarrow> 'a resp \<Rightarrow> 's \<Rightarrow> bool"
    and pan :: "'s \<Rightarrow> bool"
    and child :: "'a val \<Rightarrow> 's"
    and fin :: "'s \<Rightarrow> bool"
    and J :: "(tid \<Rightarrow> 's) \<Rightarrow> 'a mem \<Rightarrow> bool"
  assumes tau: "tr s ITau r s"
    and tr_mon: "J S M \<Longrightarrow> t < nthreads M \<Longrightarrow> tr (S t) i r s' \<Longrightarrow> mon_instr D (holds (S t)) i (holds s')"
    and child_free: "\<not> holds (child a)"
    and j_init: "J S M \<Longrightarrow> d \<in> D \<Longrightarrow> cell M d \<noteq> Uninit"
    and j_pos: "J S M \<Longrightarrow> lock_owner (\<lambda>u. holds (S u)) M \<Longrightarrow> t < nthreads M \<Longrightarrow> joins_final fin S M i \<Longrightarrow>
      mexec fx ch t i M = Some (r, M') \<Longrightarrow> pos (S t) i r"
    and j_step: "J S M \<Longrightarrow> lock_owner (\<lambda>u. holds (S u)) M \<Longrightarrow> t < nthreads M \<Longrightarrow> joins_final fin S M i \<Longrightarrow>
      mexec fx ch t i M = Some (r, M') \<Longrightarrow> tr (S t) i r s' \<Longrightarrow>
      J (upd_state child S t i s' (nthreads M)) M'"

sublocale monitor \<subseteq> protocol pos tr pan child fin "\<lambda>S M. J S M \<and> mon_inv D (\<lambda>u. holds (S u)) M"
proof
  show "tr s ITau r s" for s r by (rule tau)
next
  fix S M t i fx ch r M'
  assume "J S M \<and> mon_inv D (\<lambda>u. holds (S u)) M" "t < nthreads M" "joins_final fin S M i" "mexec fx ch t i M = Some (r, M')"
  then show "pos (S t) i r" using j_pos unfolding mon_inv_def by blast
next
  fix S M M' t i fx ch r s'
  assume inv: "J S M \<and> mon_inv D (\<lambda>u. holds (S u)) M" and t: "t < nthreads M" and jf: "joins_final fin S M i"
    and ex: "mexec fx ch t i M = Some (r, M')" and tr: "tr (S t) i r s'"
  have j: "J S M" and m: "mon_inv D (\<lambda>u. holds (S u)) M" and own: "lock_owner (\<lambda>u. holds (S u)) M"
    using inv by (auto simp: mon_inv_def)
  have "mon_inv D (\<lambda>u. holds (upd_state child S t i s' (nthreads M) u)) M'"
    by (rule mon_inv_step [where holds = holds and S = S, OF m t ex tr_mon [OF j t tr] child_free j_init [OF j]])
  with j_step [OF j own t jf ex tr]
  show "J (upd_state child S t i s' (nthreads M)) M' \<and>
      mon_inv D (\<lambda>u. holds (upd_state child S t i s' (nthreads M) u)) M'" ..
qed simp

context monitor
begin

text \<open>What every process all of whose threads conform satisfies.\<close>

theorem monitor_reach:
  assumes "J (\<lambda>_. s0) (init_mem vs)" and "\<not> holds s0" and "conforms pos tr pan (\<lambda>_ s. fin s) s0 main"
    and "\<And>a. conforms pos tr pan (\<lambda>_ s. fin s) (child a) (code a)"
    and "reach fx code (init_config vs main) c"
  shows "\<not> ub (mem c) \<and> wf_mem (mem c) \<and> (\<exists>S. J S (mem c) \<and> lock_owner (\<lambda>u. holds (S u)) (mem c) \<and>
    (\<forall>t p. progs c t = Some p \<longrightarrow> t < nthreads (mem c) \<and> conforms pos tr pan (\<lambda>_ s. fin s) (S t) p))"
proof -
  have "safe (init_config vs main)" using assms(1-3) mon_inv_init [of "\<lambda>_. holds s0"] by (intro safe_init) auto
  with assms(4) have "safe c" using assms(5) by (rule safe_reach)
  then obtain S where "wf_mem (mem c)" "J S (mem c)" and inv: "mon_inv D (\<lambda>u. holds (S u)) (mem c)"
    and "\<forall>t p. progs c t = Some p \<longrightarrow> t < nthreads (mem c) \<and> conforms pos tr pan (\<lambda>_ s. fin s) (S t) p"
    unfolding safe_def by blast
  moreover from inv have "\<not> ub (mem c)" "lock_owner (\<lambda>u. holds (S u)) (mem c)" by (auto simp: mon_inv_def)
  ultimately show ?thesis by blast
qed

end

end
