(* ===== verification/Queue_Protocol.thy ===== *)
theory Queue_Protocol
  imports Monitor "HOL-Library.Multiset"
begin

text \<open>
  The protocol of programs that share a queue behind a \<open>Mutex\<close>, and wait for messages on a
  condition variable or by parking: what is taken from the queue is what has been put in, in
  that order, and nobody sleeps forever while there is a message.
\<close>

text \<open>The \<open>VecDeque\<close> behind lock 0; \<open>item_ready\<close> and \<open>not_empty\<close> are condition variable 0.\<close>

definition queue :: loc where "queue = Loc 0 0"

section \<open>The protocol\<close>

text \<open>
  The phases of a thread. \<open>Locked w\<close> and \<open>Look w q\<close>: it holds the lock, and has read the queue
  \<open>q\<close>; \<open>w\<close> says whether it has been woken up to receive. \<open>Pushed\<close>, \<open>Notify\<close>: it has put in a
  message, and has still to wake up a receiver. \<open>Popped x\<close>, \<open>Have x\<close>, \<open>Shown\<close>: it has taken a
  message, given the lock back, or printed it before that. \<open>Parked\<close>, \<open>Woken\<close>: it waits on the
  condition variable; \<open>Empty\<close>: it has found the queue empty and is about to park.
\<close>

datatype 'a qph = Idle | Locked bool | Look bool "'a val list" | Pushed | Notify | Popped "'a val"
  | Have "'a val" | Shown | Parked | Woken | Empty

text \<open>
  The state of a thread: its phase, what it has put into and taken from the queue so far, the
  messages that it has announced and printed, the argument it was spawned with, whether it is the
  main thread, the arguments of the threads it has spawned, and the threads it has joined.
\<close>

record 'a qst =
  ph :: "'a qph"
  sent :: "'a val list"
  got :: "'a val list"
  said :: "'a val list"
  told :: "'a val list"
  arg :: "'a val"
  lead :: bool
  kids :: "'a val list"
  joined :: "tid list"

text \<open>
  The parameters of a program: whether messages are announced; which threads the main thread
  spawns, if that is fixed; which message a thread may send after which others and which
  messages it may take; how many of them it has sent and taken when it ends, and which threads
  the main thread has joined by then; whether threads end at all; the label of the
  messages that are printed; whom to wake up (the condition variable or a parked thread); and
  whether the main thread may panic once it has spawned them.
\<close>

record 'a qpar =
  announce :: bool
  plan :: "'a val list option"
  sends :: "'a val \<Rightarrow> 'a val list \<Rightarrow> 'a val \<Rightarrow> bool"
  recvs :: "'a val \<Rightarrow> nat \<Rightarrow> bool"
  need_s :: "'a val \<Rightarrow> nat"
  need_r :: "'a val \<Rightarrow> nat"
  joins :: "tid list"
  ends :: bool
  label :: string
  wake :: "tid option"
  panics :: bool

fun qholds_ph :: "'a qph \<Rightarrow> bool" where
  "qholds_ph (Locked w) = True"
| "qholds_ph (Look w q) = True"
| "qholds_ph Pushed = True"
| "qholds_ph (Popped x) = True"
| "qholds_ph Shown = True"
| "qholds_ph s = False"

definition qholds :: "'a qst \<Rightarrow> bool" where
  "qholds s = qholds_ph (ph s)"

definition spawn_ok :: "'a qpar \<Rightarrow> 'a qst \<Rightarrow> 'a val \<Rightarrow> bool" where
  "spawn_ok K s a \<longleftrightarrow> (case plan K of None \<Rightarrow> True
     | Some as \<Rightarrow> lead s \<and> (\<exists>zs. as = kids s @ a # zs))"

text \<open>A thread with an argument that is not in the plan is never spawned.\<close>

definition dead :: "'a qpar \<Rightarrow> 'a qst \<Rightarrow> bool" where
  "dead K s \<longleftrightarrow> (case plan K of None \<Rightarrow> False | Some as \<Rightarrow> \<not> lead s \<and> arg s \<notin> set as)"

definition push_ok :: "'a qpar \<Rightarrow> 'a qst \<Rightarrow> 'a val \<Rightarrow> bool" where
  "push_ok K s x \<longleftrightarrow> sends K (arg s) (sent s) x \<and> (announce K \<longrightarrow> said s = sent s @ [x])"

definition recv_ok :: "'a qpar \<Rightarrow> 'a qst \<Rightarrow> bool" where
  "recv_ok K s \<longleftrightarrow> recvs K (arg s) (length (got s))"

fun line_of :: "string \<Rightarrow> 'a val \<Rightarrow> 'a val option" where
  "line_of p (VList [VStr s, x]) = (if s = p then Some x else None)"
| "line_of p v = None"

fun qtr :: "'a qpar \<Rightarrow> 'a qst \<Rightarrow> 'a instr \<Rightarrow> 'a resp \<Rightarrow> 'a qst \<Rightarrow> bool" where
  "qtr K s (IMLock m) r s' = (m = 0 \<and> (ph s = Idle \<and> s' = s\<lparr>ph := Locked False\<rparr> \<or> ph s = Woken \<and> s' = s\<lparr>ph := Locked True\<rparr>))"
| "qtr K s (IRead d) r s' = (d = queue \<and> (\<exists>w. ph s = Locked w \<and> s' = s\<lparr>ph := Look w (as_list (rval r))\<rparr>))"
| "qtr K s (IWrite d v) r s' = (d = queue \<and>
     ((\<exists>q x. ph s = Look False q \<and> v = VList (q @ [x]) \<and> push_ok K s x \<and> s' = s\<lparr>ph := Pushed, sent := sent s @ [x]\<rparr>) \<or>
      (\<exists>w x xs. ph s = Look w (x # xs) \<and> v = VList xs \<and> recv_ok K s \<and> s' = s\<lparr>ph := Popped x, got := got s @ [x]\<rparr>)))"
| "qtr K s (IMUnlock m) r s' = (m = 0 \<and>
     (ph s = Pushed \<and> s' = s\<lparr>ph := Notify\<rparr> \<or> (\<exists>x. ph s = Popped x \<and> s' = s\<lparr>ph := Have x\<rparr>) \<or>
      ph s = Shown \<and> s' = s\<lparr>ph := Idle\<rparr> \<or>
      ph s = Look False [] \<and> recv_ok K s \<and> wake K \<noteq> None \<and> s' = s\<lparr>ph := Empty\<rparr>))"
| "qtr K s (ICvPark cv m) r s' = (cv = 0 \<and> m = 0 \<and> wake K = None \<and> recv_ok K s \<and> (\<exists>w. ph s = Look w []) \<and> s' = s\<lparr>ph := Parked\<rparr>)"
| "qtr K s (ICvWoken cv) r s' = (cv = 0 \<and> ph s = Parked \<and> s' = s\<lparr>ph := Woken\<rparr>)"
| "qtr K s (ICvNotify cv) r s' = (cv = 0 \<and> wake K = None \<and> ph s = Notify \<and> s' = s\<lparr>ph := Idle\<rparr>)"
| "qtr K s (IUnpark u) r s' = (wake K = Some u \<and> ph s = Notify \<and> s' = s\<lparr>ph := Idle\<rparr>)"
| "qtr K s IPark r s' = (ph s = Empty \<and> s' = s\<lparr>ph := Idle\<rparr>)"
| "qtr K s (IPrint v) r s' =
     (case line_of (label K) v of
        Some x \<Rightarrow> ph s = Popped x \<and> s' = s\<lparr>ph := Shown, told := told s @ [x]\<rparr> \<or> ph s = Have x \<and> s' = s\<lparr>ph := Idle, told := told s @ [x]\<rparr>
      | None \<Rightarrow> ph s = Idle \<and> s' = (case line_of ''Sending: '' v of Some x \<Rightarrow> s\<lparr>said := said s @ [x]\<rparr> | None \<Rightarrow> s))"
| "qtr K s (ISpawn a) r s' = (ph s = Idle \<and> spawn_ok K s a \<and> s' = s\<lparr>kids := kids s @ [a]\<rparr>)"
| "qtr K s (IJoin u) r s' = (u \<in> set (joins K) \<and> lead s \<and> u \<le> length (kids s) \<and> ph s = Idle \<and> s' = s\<lparr>joined := u # joined s\<rparr>)"
| "qtr K s ICurrent r s' = (s' = s)"
| "qtr K s ITau r s' = (s' = s)"
| "qtr K s i r s' = False"

fun qpos :: "'a qpar \<Rightarrow> 'a qst \<Rightarrow> 'a instr \<Rightarrow> 'a resp \<Rightarrow> bool" where
  "qpos K s (IRead d) r = (d = queue \<longrightarrow> (\<exists>q. rval r = VList q))"
| "qpos K s (ISpawn a) r = (plan K \<noteq> None \<and> lead s \<longrightarrow> rval r = VTid (Suc (length (kids s))))"
| "qpos K s i r = True"

definition qpan :: "'a qpar \<Rightarrow> 'a qst \<Rightarrow> bool" where
  "qpan K s \<longleftrightarrow> dead K s \<or> panics K \<and> ph s = Idle \<and> lead s \<and> plan K = Some (kids s)"

definition qchild :: "'a val \<Rightarrow> 'a qst" where
  "qchild a = \<lparr>ph = Idle, sent = [], got = [], said = [], told = [], arg = a, lead = False, kids = [], joined = []\<rparr>"

definition qlead :: "'a qst" where
  "qlead = (qchild VUnit)\<lparr>lead := True\<rparr>"

definition done_ok :: "'a qpar \<Rightarrow> 'a qst \<Rightarrow> bool" where
  "done_ok K s \<longleftrightarrow> need_s K (arg s) \<le> length (sent s) \<and> need_r K (arg s) \<le> length (told s)"

definition qfin :: "'a qpar \<Rightarrow> 'a qst \<Rightarrow> bool" where
  "qfin K s \<longleftrightarrow> dead K s \<or> ph s = Idle \<and> done_ok K s \<and> ends K \<and> (lead s \<longrightarrow> set (joins K) \<subseteq> set (joined s))"

section \<open>Tallies\<close>

text \<open>
  \<open>tallied f S n L\<close>: the list \<open>L\<close> interleaves the lists \<open>f (S t)\<close> of the threads.
\<close>

definition by_thread :: "tid \<Rightarrow> (tid \<times> 'v) list \<Rightarrow> 'v list" where
  "by_thread t H = map snd (filter (\<lambda>(u, x). u = t) H)"

definition tallied :: "('s \<Rightarrow> 'v list) \<Rightarrow> (tid \<Rightarrow> 's) \<Rightarrow> nat \<Rightarrow> 'v list \<Rightarrow> bool" where
  "tallied f S n L \<longleftrightarrow> (\<exists>H. map snd H = L \<and> (\<forall>t < n. f (S t) = by_thread t H) \<and> fst ` set H \<subseteq> {..<n})"

lemma by_thread_simps [simp]:
  "by_thread t [] = []" "by_thread t (H @ [(u, x)]) = by_thread t H @ (if u = t then [x] else [])"
  by (auto simp: by_thread_def)

lemma tallied_same:
  assumes "tallied f S n L" "t < n" "f s' = f (S t)"
  shows "tallied f (S(t := s')) n L"
  using assms unfolding tallied_def by auto

lemma tallied_add:
  assumes "tallied f S n L" "t < n" "f s' = f (S t) @ [x]"
  shows "tallied f (S(t := s')) n (L @ [x])"
proof -
  from assms(1) obtain H where H: "map snd H = L" "\<forall>t < n. f (S t) = by_thread t H" "fst ` set H \<subseteq> {..<n}"
    unfolding tallied_def by blast
  with assms(2,3) show ?thesis unfolding tallied_def by (intro exI [of _ "H @ [(t, x)]"]) auto
qed

lemma tallied_spawn:
  assumes "tallied f S n L" "f s = []"
  shows "tallied f (S(n := s)) (Suc n) L"
proof -
  from assms(1) obtain H where H: "map snd H = L" "\<forall>t < n. f (S t) = by_thread t H" "fst ` set H \<subseteq> {..<n}"
    unfolding tallied_def by blast
  moreover have "by_thread n H = []" using H(3) by (force simp: by_thread_def filter_empty_conv)
  ultimately show ?thesis using assms(2) unfolding tallied_def
    by (intro exI [of _ H]) (auto simp: less_Suc_eq)
qed

lemma tallied_init: "f s = [] \<Longrightarrow> tallied f (\<lambda>_. s) n []"
  by (simp add: tallied_def)

lemma by_thread_mset:
  assumes "fst ` set H \<subseteq> {..<n}"
  shows "mset (map snd H) = (\<Sum>t<n. mset (by_thread t H))"
  using assms
proof (induction H rule: rev_induct)
  case (snoc h H)
  obtain u x where h: "h = (u, x)" by (cases h)
  have "(\<Sum>t<n. mset (by_thread t (H @ [h]))) = (\<Sum>t<n. mset (by_thread t H) + (if t = u then {#x#} else {#}))"
    by (rule sum.cong) (auto simp: h)
  also have "\<dots> = (\<Sum>t<n. mset (by_thread t H)) + {#x#}"
    using snoc.prems by (simp add: sum.distrib h)
  finally show ?case using snoc h by simp
qed (simp add: by_thread_def)

lemma tallied_mset: "tallied f S n L \<Longrightarrow> mset L = (\<Sum>t<n. mset (f (S t)))"
  unfolding tallied_def using by_thread_mset by (metis (no_types, lifting) lessThan_iff sum.cong)

lemma tallied_single:
  assumes "tallied f S n L" "\<And>u. u < n \<Longrightarrow> u \<noteq> t \<Longrightarrow> f (S u) = []" "t < n"
  shows "f (S t) = L"
proof -
  from assms(1) obtain H where H: "map snd H = L" "\<forall>t < n. f (S t) = by_thread t H" "fst ` set H \<subseteq> {..<n}"
    unfolding tallied_def by blast
  have "u = t" if "(u, x) \<in> set H" for u x
  proof (rule ccontr)
    assume "u \<noteq> t"
    moreover have "u < n" using H(3) that by force
    ultimately have "by_thread u H = []" using H(2) assms(2) by auto
    with that show False by (force simp: by_thread_def filter_empty_conv)
  qed
  then have "filter (\<lambda>(u, x). u = t) H = H" by (auto simp: filter_id_conv)
  with H assms(3) show ?thesis by (simp add: by_thread_def)
qed


section \<open>The invariant\<close>

definition lines :: "string \<Rightarrow> 'a val list \<Rightarrow> 'a val list" where
  "lines p vs = List.map_filter (line_of p) vs"

lemma lines_simps [simp]:
  "lines p [] = []"
  "lines p (vs @ [v]) = lines p vs @ (case line_of p v of None \<Rightarrow> [] | Some x \<Rightarrow> [x])"
  by (simp_all add: lines_def map_filter_def split: option.splits)

text \<open>The message that a thread has taken and not yet printed.\<close>

fun pocket :: "'a qph \<Rightarrow> 'a val list" where
  "pocket (Popped x) = [x]"
| "pocket (Have x) = [x]"
| "pocket p = []"

text \<open>What holds of one thread, and of all of them: the lists that they have kept.\<close>

definition qok :: "'a qpar \<Rightarrow> 'a val list \<Rightarrow> 'a qst \<Rightarrow> bool" where
  "qok K q s \<longleftrightarrow> (\<forall>w q'. ph s = Look w q' \<longrightarrow> q' = q) \<and> got s = told s @ pocket (ph s) \<and>
     (announce K \<longrightarrow> (\<exists>zs. said s = sent s @ zs)) \<and>
     (\<forall>k < length (sent s). sends K (arg s) (take k (sent s)) (sent s ! k)) \<and>
     (\<forall>k < length (got s). recvs K (arg s) k) \<and> (ph s \<in> {Parked, Empty} \<longrightarrow> recv_ok K s) \<and>
     (ph s = Empty \<longrightarrow> wake K \<noteq> None) \<and> (ph s = Parked \<longrightarrow> wake K = None)"

definition qbook :: "'a qpar \<Rightarrow> (tid \<Rightarrow> 'a qst) \<Rightarrow> nat \<Rightarrow> 'a val list \<Rightarrow> 'a val list \<Rightarrow> bool" where
  "qbook K S n q os \<longleftrightarrow> (\<exists>G. tallied sent S n (G @ q) \<and> tallied got S n G) \<and>
     tallied said S n (lines ''Sending: '' os) \<and> tallied told S n (lines (label K) os)"

definition qplan :: "'a qpar \<Rightarrow> (tid \<Rightarrow> 'a qst) \<Rightarrow> nat \<Rightarrow> bool" where
  "qplan K S n \<longleftrightarrow> (case plan K of None \<Rightarrow> True
     | Some as \<Rightarrow> n = Suc (length (kids (S 0))) \<and> (\<exists>zs. as = kids (S 0) @ zs) \<and> arg (S 0) = VUnit \<and> lead (S 0) \<and>
         (\<forall>u < length (kids (S 0)). arg (S (Suc u)) = kids (S 0) ! u \<and> \<not> lead (S (Suc u))))"

definition qjoin :: "'a qpar \<Rightarrow> (tid \<Rightarrow> 'a qst) \<Rightarrow> nat \<Rightarrow> bool" where
  "qjoin K S n \<longleftrightarrow> (\<forall>t < n. \<forall>u \<in> set (joined (S t)). u < n \<and> done_ok K (S u))"

text \<open>
  No lost wake-up: while threads wait, every message has a thread that will wake up one of them,
  or a thread that has been woken up for it.
\<close>

fun pending :: "'a qph \<Rightarrow> bool" where
  "pending Pushed = True"
| "pending Notify = True"
| "pending p = False"

fun weight :: "'a qph \<Rightarrow> nat" where
  "weight Pushed = 1"
| "weight Notify = 1"
| "weight Parked = 1"
| "weight Woken = 1"
| "weight (Locked w) = (if w then 1 else 0)"
| "weight (Look w q) = (if w then 1 else 0)"
| "weight p = 0"

definition weights :: "(tid \<Rightarrow> 'a qst) \<Rightarrow> nat \<Rightarrow> nat" where
  "weights S n = (\<Sum>t<n. weight (ph (S t)))"

definition qwait :: "'a qpar \<Rightarrow> (tid \<Rightarrow> 'a qst) \<Rightarrow> nat \<Rightarrow> 'a val list \<Rightarrow> tid list \<Rightarrow> (tid \<Rightarrow> view option) \<Rightarrow> bool" where
  "qwait K S n q ws tk \<longleftrightarrow> distinct ws \<and> (\<forall>t \<in> set ws. t < n \<and> ph (S t) = Parked) \<and>
     (ws \<noteq> [] \<longrightarrow> length q + length ws \<le> weights S n) \<and>
     (\<forall>t < n. ph (S t) = Empty \<longrightarrow> q = [] \<or> tk t \<noteq> None \<or> (\<exists>u < n. pending (ph (S u))))"

definition qall :: "'a qpar \<Rightarrow> (tid \<Rightarrow> 'a qst) \<Rightarrow> nat \<Rightarrow> 'a val list \<Rightarrow> 'a val list \<Rightarrow> bool" where
  "qall K S n q os \<longleftrightarrow> (\<forall>t < n. qok K q (S t)) \<and> qbook K S n q os \<and> qplan K S n \<and> qjoin K S n"

definition qinv :: "'a qpar \<Rightarrow> (tid \<Rightarrow> 'a qst) \<Rightarrow> 'a mem \<Rightarrow> bool" where
  "qinv K S M \<longleftrightarrow> (\<exists>q. cell M queue = VList q \<and> qall K S (nthreads M) q (out M) \<and>
     qwait K S (nthreads M) q (cvq M 0) (token M))"

text \<open>The thread that a parked consumer program wakes up is the one that receives.\<close>

definition qpar_ok :: "'a qpar \<Rightarrow> bool" where
  "qpar_ok K \<longleftrightarrow> label K \<noteq> ''Sending: '' \<and> (\<forall>u. wake K = Some u \<longrightarrow> (\<exists>a. plan K = Some [a] \<and> u = 1) \<and> (\<forall>n. \<not> recvs K VUnit n))"

lemma weights_upd: "t < n \<Longrightarrow> weights (S(t := s)) n + weight (ph (S t)) = weights S n + weight (ph s)"
proof -
  assume t: "t < n"
  have "weights S n = weight (ph (S t)) + (\<Sum>u \<in> {..<n} - {t}. weight (ph (S u)))"
    using t by (simp add: weights_def sum.remove)
  moreover have "weights (S(t := s)) n = weight (ph s) + (\<Sum>u \<in> {..<n} - {t}. weight (ph ((S(t := s)) u)))"
    using t by (simp add: weights_def sum.remove)
  moreover have "(\<Sum>u \<in> {..<n} - {t}. weight (ph ((S(t := s)) u))) = (\<Sum>u \<in> {..<n} - {t}. weight (ph (S u)))"
    by (rule sum.cong) auto
  ultimately show ?thesis by simp
qed

lemma weights_waiters:
  assumes "distinct ws" "\<And>t. t \<in> set ws \<Longrightarrow> t < n \<and> ph (S t) = Parked"
  shows "length ws \<le> weights S n"
proof -
  have "length ws = (\<Sum>t \<in> set ws. weight (ph (S t)))"
    using assms by (simp add: distinct_card)
  also have "\<dots> \<le> weights S n" unfolding weights_def using assms(2) by (intro sum_mono2) auto
  finally show ?thesis .
qed

lemma weights_only:
  assumes "distinct ws" "\<And>t. t < n \<Longrightarrow> t \<notin> set ws \<Longrightarrow> weight (ph (S t)) = 0" "\<And>t. t \<in> set ws \<Longrightarrow> t < n \<and> ph (S t) = Parked"
  shows "weights S n = length ws"
proof -
  have "weights S n = (\<Sum>t \<in> set ws. weight (ph (S t)))"
    unfolding weights_def using assms(2,3) by (intro sum.mono_neutral_right) auto
  then show ?thesis using assms(1,3) by (simp add: distinct_card)
qed

section \<open>Every step keeps the invariant\<close>

lemma qallD:
  assumes "qall K S n q os"
  shows "t < n \<Longrightarrow> qok K q (S t)" "qbook K S n q os" "qplan K S n" "qjoin K S n"
  using assms by (auto simp: qall_def)

lemma qplanD:
  assumes "qplan K S n" "plan K = Some as"
  shows "n \<le> Suc (length as)" "arg (S 0) = VUnit" "0 < u \<Longrightarrow> u < n \<Longrightarrow> arg (S u) = as ! (u - 1)"
    "0 < u \<Longrightarrow> u < n \<Longrightarrow> \<not> lead (S u)" "n = Suc (length (kids (S 0)))" "lead (S 0)"
proof -
  from assms obtain zs where as: "as = kids (S 0) @ zs" and n: "n = Suc (length (kids (S 0)))" and "arg (S 0) = VUnit" "lead (S 0)"
    and u: "\<And>u. u < length (kids (S 0)) \<Longrightarrow> arg (S (Suc u)) = kids (S 0) ! u \<and> \<not> lead (S (Suc u))" unfolding qplan_def by auto
  then show "n \<le> Suc (length as)" "arg (S 0) = VUnit" "lead (S 0)" by simp_all
  show "arg (S u) = as ! (u - 1)" if "0 < u" "u < n"
    using u that n as by (cases u) (auto simp: nth_append)
  show "\<not> lead (S u)" if "0 < u" "u < n" using u that n by (cases u) auto
  show "n = Suc (length (kids (S 0)))" by (rule n)
qed

lemma qplan_alive:
  assumes "qplan K S n" "t < n"
  shows "\<not> dead K (S t)"
proof (cases "plan K")
  case (Some as)
  with assms show ?thesis
    by (cases t) (auto simp: qplan_def dead_def)
qed (simp add: dead_def)

lemma qplan_upd:
  assumes "qplan K S n" "t < n" "arg s' = arg (S t)" "lead s' = lead (S t)" "kids s' = kids (S t)"
  shows "qplan K (S(t := s')) n"
  using assms unfolding qplan_def by (auto split: option.splits)

lemma qjoin_upd:
  assumes "qjoin K S n" "t < n" "arg s' = arg (S t)" "length (sent (S t)) \<le> length (sent s')" "length (told (S t)) \<le> length (told s')"
    and "\<And>u. u \<in> set (joined s') \<Longrightarrow> u \<in> set (joined (S t)) \<or> u < n \<and> done_ok K (S u)"
  shows "qjoin K (S(t := s')) n"
proof -
  have "done_ok K ((S(t := s')) u)" if "done_ok K (S u)" for u
    using that assms(3-5) by (auto simp: done_ok_def)
  moreover have "u < n \<and> done_ok K (S u)" if "v < n" "u \<in> set (joined ((S(t := s')) v))" for u v
    using that assms(1,2,6) unfolding qjoin_def by (cases "v = t") auto
  ultimately show ?thesis unfolding qjoin_def by blast
qed

lemma qjoin_spawn:
  assumes "qjoin K S n" "joined s = []"
  shows "qjoin K (S(n := s)) (Suc n)"
  unfolding qjoin_def
proof (intro allI impI ballI)
  fix v u assume v: "v < Suc n" "u \<in> set (joined ((S(n := s)) v))"
  with assms(2) have "v < n" "u \<in> set (joined (S v))" by (auto simp: less_Suc_eq split: if_splits)
  with assms(1) have "u < n" "done_ok K (S u)" unfolding qjoin_def by auto
  then show "u < Suc n \<and> done_ok K ((S(n := s)) u)" by simp
qed

text \<open>A step of thread \<open>t\<close> that keeps the queue.\<close>

lemma qall_upd:
  assumes all: "qall K S n q os" and t: "t < n" and s': "arg s' = arg (S t)" "lead s' = lead (S t)" "kids s' = kids (S t)" "sent s' = sent (S t)" "got s' = got (S t)"
    and ok: "qok K q s'" and said: "said s' = said (S t) @ said'" "lines ''Sending: '' os' = lines ''Sending: '' os @ said'" "length said' \<le> 1"
    and told: "told s' = told (S t) @ told'" "lines (label K) os' = lines (label K) os @ told'" "length told' \<le> 1"
    and jn: "\<And>u. u \<in> set (joined s') \<Longrightarrow> u \<in> set (joined (S t)) \<or> u < n \<and> done_ok K (S u)"
  shows "qall K (S(t := s')) n q os'"
proof -
  have add: "tallied f (S(t := s')) n (L @ l')" if "tallied f S n L" "f s' = f (S t) @ l'" "length l' \<le> 1" for f L and l' :: "'a val list"
    using that tallied_same [OF that(1) t] tallied_add [OF that(1) t] by (cases l') auto
  from qallD(2) [OF all] obtain G where G: "tallied sent S n (G @ q)" "tallied got S n G"
    and sl: "tallied said S n (lines ''Sending: '' os)" "tallied told S n (lines (label K) os)"
    unfolding qbook_def by blast
  have "tallied sent (S(t := s')) n (G @ q)" "tallied got (S(t := s')) n G"
    using tallied_same [OF G(1) t s'(4)] tallied_same [OF G(2) t s'(5)] by auto
  moreover have "tallied said (S(t := s')) n (lines ''Sending: '' os')" "tallied told (S(t := s')) n (lines (label K) os')"
    using add [OF sl(1) said(1,3)] add [OF sl(2) told(1,3)] said(2) told(2) by simp_all
  ultimately have "qbook K (S(t := s')) n q os'" unfolding qbook_def by blast
  moreover have "\<forall>u<n. qok K q ((S(t := s')) u)" using qallD(1) [OF all] ok by simp
  moreover have "qjoin K (S(t := s')) n"
    by (rule qjoin_upd [OF qallD(4) [OF all] t s'(1) _ _ jn]) (simp_all add: s' told)
  ultimately show ?thesis using qplan_upd [OF qallD(3) [OF all] t s'(1-3)] by (simp add: qall_def)
qed

lemma qall_phase:
  assumes all: "qall K S n q os" and t: "t < n" and "pocket p = pocket (ph (S t))" "\<And>w q'. p = Look w q' \<Longrightarrow> q' = q"
    "p \<in> {Parked, Empty} \<Longrightarrow> recv_ok K (S t)" "p = Empty \<Longrightarrow> wake K \<noteq> None" "p = Parked \<Longrightarrow> wake K = None"
  shows "qall K (S(t := (S t)\<lparr>ph := p\<rparr>)) n q os"
  using qallD(1) [OF all t] assms(3-7)
  by (intro qall_upd [OF all t, where said' = "[]" and told' = "[]"]) (auto simp: qok_def recv_ok_def)

lemma qok_other:
  assumes "qok K q s" "\<And>w q'. ph s \<noteq> Look w q'"
  shows "qok K q' s"
  using assms by (auto simp: qok_def)

text \<open>A step that changes the queue: only its thread looks at it.\<close>

lemma qall_push:
  assumes all: "qall K S n q os" and t: "t < n" and p: "push_ok K (S t) x" "pocket (ph (S t)) = []"
    and other: "\<And>u w q'. u < n \<Longrightarrow> u \<noteq> t \<Longrightarrow> ph (S u) \<noteq> Look w q'"
  shows "qall K (S(t := (S t)\<lparr>ph := Pushed, sent := sent (S t) @ [x]\<rparr>)) n (q @ [x]) os" (is "qall K (S(t := ?s)) n _ _")
proof -
  from qallD(2) [OF all] obtain G where G: "tallied sent S n (G @ q)" "tallied got S n G"
    and sl: "tallied said S n (lines ''Sending: '' os)" "tallied told S n (lines (label K) os)"
    unfolding qbook_def by blast
  have "tallied sent (S(t := ?s)) n (G @ (q @ [x]))" using tallied_add [OF G(1) t, of ?s x] by simp
  moreover have "tallied got (S(t := ?s)) n G" "tallied said (S(t := ?s)) n (lines ''Sending: '' os)"
      "tallied told (S(t := ?s)) n (lines (label K) os)"
    using tallied_same [OF G(2) t] tallied_same [OF sl(1) t] tallied_same [OF sl(2) t] by simp_all
  ultimately have "qbook K (S(t := ?s)) n (q @ [x]) os" unfolding qbook_def by blast
  moreover have "qok K (q @ [x]) ?s"
    using qallD(1) [OF all t] p by (auto simp: qok_def push_ok_def nth_append less_Suc_eq)
  then have "\<forall>u<n. qok K (q @ [x]) ((S(t := ?s)) u)"
    using qok_other [OF qallD(1) [OF all] other] by simp
  ultimately show ?thesis
    using qplan_upd [OF qallD(3) [OF all] t] qjoin_upd [OF qallD(4) [OF all] t, of ?s] by (simp add: qall_def)
qed

lemma qall_pop:
  assumes all: "qall K S n (x # xs) os" and t: "t < n" and p: "recv_ok K (S t)" "pocket (ph (S t)) = []"
    and other: "\<And>u w q'. u < n \<Longrightarrow> u \<noteq> t \<Longrightarrow> ph (S u) \<noteq> Look w q'"
  shows "qall K (S(t := (S t)\<lparr>ph := Popped x, got := got (S t) @ [x]\<rparr>)) n xs os" (is "qall K (S(t := ?s)) n _ _")
proof -
  from qallD(2) [OF all] obtain G where G: "tallied sent S n (G @ x # xs)" "tallied got S n G"
    and sl: "tallied said S n (lines ''Sending: '' os)" "tallied told S n (lines (label K) os)"
    unfolding qbook_def by blast
  have "tallied got (S(t := ?s)) n (G @ [x])" using tallied_add [OF G(2) t, of ?s x] by simp
  moreover have "tallied sent (S(t := ?s)) n ((G @ [x]) @ xs)" "tallied said (S(t := ?s)) n (lines ''Sending: '' os)"
      "tallied told (S(t := ?s)) n (lines (label K) os)"
    using tallied_same [OF G(1) t] tallied_same [OF sl(1) t] tallied_same [OF sl(2) t] by simp_all
  ultimately have "qbook K (S(t := ?s)) n xs os" unfolding qbook_def by blast
  moreover have "qok K xs ?s"
    using qallD(1) [OF all t] p by (auto simp: qok_def recv_ok_def less_Suc_eq)
  then have "\<forall>u<n. qok K xs ((S(t := ?s)) u)"
    using qok_other [OF qallD(1) [OF all] other] by simp
  ultimately show ?thesis
    using qplan_upd [OF qallD(3) [OF all] t] qjoin_upd [OF qallD(4) [OF all] t, of ?s] by (simp add: qall_def)
qed

lemma qall_spawn:
  assumes all: "qall K S n q os" and t: "t < n" and sp: "spawn_ok K (S t) a"
  shows "qall K ((S(t := (S t)\<lparr>kids := kids (S t) @ [a]\<rparr>))(n := qchild a)) (Suc n) q os"
    (is "qall K (?S(n := qchild a)) (Suc n) q os")
proof -
  have ok: "qok K q (?S u)" if "u < n" for u using qallD(1) [OF all that] by (auto simp: qok_def recv_ok_def)
  from qallD(2) [OF all] obtain G where G: "tallied sent S n (G @ q)" "tallied got S n G"
    and sl: "tallied said S n (lines ''Sending: '' os)" "tallied told S n (lines (label K) os)"
    unfolding qbook_def by blast
  have keep: "tallied f (?S(n := qchild a)) (Suc n) L"
    if "tallied f S n L" "f (?S t) = f (S t)" "f (qchild a) = []" for f and L :: "'a val list"
    using tallied_spawn [OF tallied_same [OF that(1) t]] that(2,3) by simp
  have "tallied sent (?S(n := qchild a)) (Suc n) (G @ q)" "tallied got (?S(n := qchild a)) (Suc n) G"
      "tallied said (?S(n := qchild a)) (Suc n) (lines ''Sending: '' os)"
      "tallied told (?S(n := qchild a)) (Suc n) (lines (label K) os)"
    using keep [OF G(1)] keep [OF G(2)] keep [OF sl(1)] keep [OF sl(2)] by (simp_all add: qchild_def)
  then have "qbook K (?S(n := qchild a)) (Suc n) q os" unfolding qbook_def by blast
  moreover have "\<forall>u<Suc n. qok K q ((?S(n := qchild a)) u)"
    using ok by (auto simp: less_Suc_eq) (simp add: qok_def qchild_def)
  moreover have "qplan K (?S(n := qchild a)) (Suc n)"
  proof (cases "plan K")
    case (Some as)
    have n: "n = Suc (length (kids (S 0)))" "arg (S 0) = VUnit" "lead (S 0)"
        "\<And>u. u < length (kids (S 0)) \<Longrightarrow> arg (S (Suc u)) = kids (S 0) ! u \<and> \<not> lead (S (Suc u))"
      using qallD(3) [OF all] by (auto simp: qplan_def Some)
    have "t = 0"
      using n(4) [of "t - 1"] t n(1) sp by (cases t) (auto simp: spawn_ok_def Some)
    with n sp show ?thesis
      by (auto simp: qplan_def spawn_ok_def Some qchild_def nth_append less_Suc_eq)
  qed (simp add: qplan_def)
  moreover have "qjoin K (?S(n := qchild a)) (Suc n)"
  proof -
    have "qjoin K ?S n" by (rule qjoin_upd [OF qallD(4) [OF all] t]) simp_all
    then show ?thesis by (rule qjoin_spawn) (simp add: qchild_def)
  qed
  ultimately show ?thesis by (simp add: qall_def)
qed

text \<open>The waiting threads.\<close>

lemma qwaitD:
  assumes "qwait K S n q ws tk"
  shows "distinct ws" "t \<in> set ws \<Longrightarrow> t < n \<and> ph (S t) = Parked" "ws \<noteq> [] \<Longrightarrow> length q + length ws \<le> weights S n"
    "t < n \<Longrightarrow> ph (S t) = Empty \<Longrightarrow> q = [] \<or> tk t \<noteq> None \<or> (\<exists>u < n. pending (ph (S u)))"
  using assms by (auto simp: qwait_def)

lemma qwait_upd:
  assumes w: "qwait K S n q ws tk" and t: "t < n" and ws: "distinct ws'" "\<And>u. u \<in> set ws' \<Longrightarrow> u \<in> set ws \<and> u \<noteq> t \<or> u = t \<and> ph s' = Parked"
    and bal: "ws' \<noteq> [] \<Longrightarrow> ws \<noteq> [] \<Longrightarrow> q' \<noteq> [] \<Longrightarrow> length q' + length ws' + weight (ph (S t)) \<le> length q + length ws + weight (ph s')"
    and new: "ws' \<noteq> [] \<Longrightarrow> ws = [] \<Longrightarrow> q' = []"
    and nolost: "\<And>u. u < n \<Longrightarrow> ph ((S(t := s')) u) = Empty \<Longrightarrow>
      q' = [] \<or> tk' u \<noteq> None \<or> pending (ph s') \<or> ph (S u) = Empty \<and> \<not> pending (ph (S t)) \<and> (q = [] \<longrightarrow> q' = []) \<and> tk' u = tk u"
  shows "qwait K (S(t := s')) n q' ws' tk'"
proof -
  have par: "u < n \<and> ph ((S(t := s')) u) = Parked" if "u \<in> set ws'" for u
    using ws(2) [OF that] qwaitD(2) [OF w] t by auto
  have "length q' + length ws' \<le> weights (S(t := s')) n" if ne: "ws' \<noteq> []"
  proof (cases "q' = []")
    case True
    then show ?thesis using weights_waiters [OF ws(1), of n "S(t := s')"] par by simp
  next
    case False
    with new [OF ne] have "ws \<noteq> []" by blast
    then show ?thesis using qwaitD(3) [OF w] bal [OF ne _ False] weights_upd [OF t, of S s'] by linarith
  qed
  moreover have "q' = [] \<or> tk' u \<noteq> None \<or> (\<exists>v < n. pending (ph ((S(t := s')) v)))" if u: "u < n" "ph ((S(t := s')) u) = Empty" for u
  proof -
    consider "q' = [] \<or> tk' u \<noteq> None" | "pending (ph s')" | "ph (S u) = Empty" "\<not> pending (ph (S t))" "q = [] \<longrightarrow> q' = []" "tk' u = tk u"
      using nolost [OF u] by blast
    then show ?thesis
    proof cases
      case 2
      then have "pending (ph ((S(t := s')) t))" by simp
      with t show ?thesis by blast
    next
      case 3
      with qwaitD(4) [OF w u(1)] show ?thesis by (metis fun_upd_other)
    qed blast
  qed
  ultimately show ?thesis using ws(1) par unfolding qwait_def by blast
qed

lemma qwait_spawn:
  assumes w: "qwait K S n q ws tk" and t: "t < n" and ph: "ph s' = ph (S t)" "ph s1 = Idle"
  shows "qwait K ((S(t := s'))(n := s1)) (Suc n) q ws tk"
proof -
  define S' where "S' = (S(t := s'))(n := s1)"
  have eq: "ph (S' u) = ph (S u)" if "u < n" for u using that ph by (auto simp: S'_def)
  have new: "ph (S' n) = Idle" using ph(2) by (simp add: S'_def)
  have "weights S' (Suc n) = weights S n" unfolding weights_def using eq new by simp
  moreover have "q = [] \<or> tk v \<noteq> None \<or> (\<exists>u < Suc n. pending (ph (S' u)))" if v: "v < Suc n" "ph (S' v) = Empty" for v
  proof -
    have "v < n" using v new by (auto simp: less_Suc_eq)
    with v(2) eq qwaitD(4) [OF w, of v] have "q = [] \<or> tk v \<noteq> None \<or> (\<exists>u < n. pending (ph (S u)))" by simp
    with eq show ?thesis by (metis less_SucI)
  qed
  ultimately have "qwait K S' (Suc n) q ws tk"
    using qwaitD(1-3) [OF w] eq unfolding qwait_def by (metis less_SucI)
  then show ?thesis by (simp add: S'_def)
qed

lemma qinvI:
  assumes "cell M queue = VList q" "qall K S (nthreads M) q (out M)" "qwait K S (nthreads M) q (cvq M 0) (token M)"
  shows "qinv K S M"
  using assms unfolding qinv_def by blast

lemma qwait_phase:
  assumes w: "qwait K S n q ws tk" and t: "t < n" and "ph (S t) \<noteq> Parked" "weight (ph (S t)) \<le> weight (ph s')"
    "pending (ph (S t)) \<Longrightarrow> pending (ph s')" "ph s' = Empty \<Longrightarrow> q = []"
  shows "qwait K (S(t := s')) n q ws tk"
  using assms(3-6) qwaitD(1,2) [OF w]
  by (intro qwait_upd [OF w t]) (auto split: if_splits)

lemma qinv_phase_step:
  assumes c: "cell M queue = VList q" and all: "qall K S (nthreads M) q (out M)" and w: "qwait K S (nthreads M) q (cvq M 0) (token M)"
    and t: "t < nthreads M" and M': "cell M' queue = cell M queue" "out M' = out M" "nthreads M' = nthreads M" "cvq M' 0 = cvq M 0" "token M' = token M"
    and p: "pocket p = pocket (ph (S t))" "\<And>w q'. p = Look w q' \<Longrightarrow> q' = q" "p \<in> {Parked, Empty} \<Longrightarrow> recv_ok K (S t)" "p = Empty \<Longrightarrow> wake K \<noteq> None" "p = Parked \<Longrightarrow> wake K = None"
    and u: "ph (S t) \<noteq> Parked" "weight (ph (S t)) \<le> weight p" "pending (ph (S t)) \<Longrightarrow> pending p" "p = Empty \<Longrightarrow> q = []"
  shows "qinv K (S(t := (S t)\<lparr>ph := p\<rparr>)) M'"
  using qall_phase [OF all t p] qwait_phase [OF w t u(1), of "(S t)\<lparr>ph := p\<rparr>"] u(2-) M' c
  by (intro qinvI [of M' q]) simp_all

lemma line_of_other: "line_of p v = Some x \<Longrightarrow> p' \<noteq> p \<Longrightarrow> line_of p' v = None"
  by (cases "(p, v)" rule: line_of.cases) auto

lemma look_unique:
  assumes "lock_owner (\<lambda>u. qholds (S u)) M" "t < nthreads M" "qholds (S t)" "u < nthreads M" "u \<noteq> t"
  shows "ph (S u) \<noteq> Look w q"
  using lock_ownerD(3) [OF assms(1-4)] assms(5) by (auto simp: qholds_def)

lemma qinv_step:
  assumes inv: "qinv K S M" and own: "lock_owner (\<lambda>u. qholds (S u)) M" and t: "t < nthreads M"
    and jf: "joins_final (qfin K) S M i" and ex: "mexec fx ch t i M = Some (r, M')" and tr: "qtr K (S t) i r s'"
    and K: "qpar_ok K"
  shows "qinv K (upd_state qchild S t i s' (nthreads M)) M'"
proof -
  from inv obtain q where c: "cell M queue = VList q" and all: "qall K S (nthreads M) q (out M)"
    and w: "qwait K S (nthreads M) q (cvq M 0) (token M)" unfolding qinv_def by blast
  note phase = qinv_phase_step [OF c all w t]
  note ok = qallD(1) [OF all t]
  show ?thesis
  proof (cases i)
    case (IMLock m)
    then show ?thesis using tr ex
      by (auto simp: upd_state_simp m_mlock_def split: if_splits intro!: phase)
  next
    case (IRead d)
    then show ?thesis using tr ex c
      by (auto simp: upd_state_simp m_read_def touch_def Let_def intro!: phase)
  next
    case (IMUnlock m)
    have look: "q' = q" if "ph (S t) = Look w q'" for w q' using ok that by (auto simp: qok_def)
    have M': "M' = m_munlock t 0 M" using ex tr IMUnlock by simp
    from tr IMUnlock consider "ph (S t) = Pushed" "s' = (S t)\<lparr>ph := Notify\<rparr>" | x where "ph (S t) = Popped x" "s' = (S t)\<lparr>ph := Have x\<rparr>"
      | "ph (S t) = Shown" "s' = (S t)\<lparr>ph := Idle\<rparr>"
      | "ph (S t) = Look False []" "recv_ok K (S t)" "wake K \<noteq> None" "s' = (S t)\<lparr>ph := Empty\<rparr>" by auto
    then have "qinv K (S(t := s')) M'"
      by cases (use look in \<open>auto simp: M' m_munlock_def intro!: phase\<close>)
    then show ?thesis using IMUnlock by (simp add: upd_state_simp)
  next
    case (IWrite d v)
    then have d: "d = queue" using tr by simp
    have M': "M' = m_write t queue v M" using IWrite ex d by simp
    have upd: "upd_state qchild S t i s' (nthreads M) = S(t := s')" using IWrite by (simp add: upd_state_simp)
    have M'': "nthreads M' = nthreads M" "out M' = out M" "cvq M' = cvq M" "token M' = token M" "cell M' queue = v"
      by (simp_all add: M' m_write_def touch_def Let_def)
    from tr IWrite consider (push) q' x where "ph (S t) = Look False q'" "v = VList (q' @ [x])" "push_ok K (S t) x"
          "s' = (S t)\<lparr>ph := Pushed, sent := sent (S t) @ [x]\<rparr>"
      | (pop) b x xs where "ph (S t) = Look b (x # xs)" "v = VList xs" "recv_ok K (S t)" "s' = (S t)\<lparr>ph := Popped x, got := got (S t) @ [x]\<rparr>"
      by auto
    then show ?thesis
    proof cases
      case push
      then have q': "q' = q" using ok by (auto simp: qok_def)
      have other: "ph (S u) \<noteq> Look b p" if "u < nthreads M" "u \<noteq> t" for u b p
        using look_unique [OF own t _ that] push(1) by (simp add: qholds_def)
      have "qall K (S(t := s')) (nthreads M) (q @ [x]) (out M)"
        unfolding push(4) by (rule qall_push [OF all t push(3) _ other]) (simp_all add: push(1))
      moreover have "qwait K (S(t := s')) (nthreads M) (q @ [x]) (cvq M 0) (token M)"
        using qwaitD(1,2) [OF w] push(1) by (intro qwait_upd [OF w t]) (auto simp: push(4) split: if_splits)
      ultimately show ?thesis unfolding upd using M'' push(2) q' by (intro qinvI) simp_all
    next
      case pop
      then have q: "q = x # xs" using ok by (auto simp: qok_def)
      have other: "ph (S u) \<noteq> Look b p" if "u < nthreads M" "u \<noteq> t" for u b p
        using look_unique [OF own t _ that] pop(1) by (simp add: qholds_def)
      have "qall K (S(t := s')) (nthreads M) xs (out M)"
        unfolding pop(4) by (rule qall_pop [OF all [unfolded q] t pop(3) _ other]) (simp_all add: pop(1))
      moreover have "qwait K (S(t := s')) (nthreads M) xs (cvq M 0) (token M)"
        using qwaitD(1,2) [OF w] pop(1) q by (intro qwait_upd [OF w t]) (auto simp: pop(4) split: if_splits)
      ultimately show ?thesis unfolding upd using M'' pop(2) by (intro qinvI) simp_all
    qed
  next
    case (ICvPark cv m)
    then obtain b where p: "ph (S t) = Look b []" "recv_ok K (S t)" "s' = (S t)\<lparr>ph := Parked\<rparr>" "wake K = None"
      using tr by auto
    have q: "q = []" using ok p(1) by (auto simp: qok_def)
    have M': "M' = m_cvpark t 0 0 M" using ICvPark ex tr by simp
    have "t \<notin> set (cvq M 0)" using qwaitD(2) [OF w, of t] p(1) by auto
    then have "qwait K (S(t := s')) (nthreads M) q (cvq M 0 @ [t]) (token M)"
      using qwaitD(1,2) [OF w] p(1) q by (intro qwait_upd [OF w t]) (auto simp: p(3))
    moreover have "qall K (S(t := s')) (nthreads M) q (out M)"
      unfolding p(3) using p by (intro qall_phase [OF all t]) simp_all
    ultimately show ?thesis
      using c ICvPark by (intro qinvI) (simp_all add: upd_state_simp M' m_cvpark_def m_munlock_def)
  next
    case (ICvWoken cv)
    then have p: "ph (S t) = Parked" "s' = (S t)\<lparr>ph := Woken\<rparr>" using tr by auto
    have M': "m_cvwoken (ch_flag ch) t 0 M = Some M'" using ICvWoken ex tr by simp
    have ws: "cvq M' 0 = removeAll t (cvq M 0)" "cell M' = cell M" "out M' = out M" "nthreads M' = nthreads M" "token M' = token M"
      using M' by (auto simp: m_cvwoken_def removeAll_id split: if_splits)
    have "length (removeAll t (cvq M 0)) \<le> length (cvq M 0)" by (simp add: length_removeAll_less_eq)
    then have "qwait K (S(t := s')) (nthreads M) q (removeAll t (cvq M 0)) (token M)"
      using qwaitD(1,2) [OF w] p(1) by (intro qwait_upd [OF w t]) (auto simp: p(2) distinct_removeAll split: if_splits)
    moreover have "qall K (S(t := s')) (nthreads M) q (out M)"
      unfolding p(2) using p by (intro qall_phase [OF all t]) simp_all
    ultimately show ?thesis using c ICvWoken by (intro qinvI) (simp_all add: upd_state_simp ws)
  next
    case (ICvNotify cv)
    then have p: "ph (S t) = Notify" "s' = (S t)\<lparr>ph := Idle\<rparr>" "wake K = None" using tr by auto
    have M': "M' = m_cvnotify (ch_ts ch) 0 M" using ICvNotify ex tr by simp
    let ?ws = "cvq M 0" and ?ws' = "cvq M' 0"
    have ws: "?ws' = (if ?ws = [] then [] else remove1 (?ws ! (ch_ts ch mod length ?ws)) ?ws)" by (simp add: M' m_cvnotify_def)
    have "?ws \<noteq> [] \<Longrightarrow> Suc (length ?ws') = length ?ws" by (auto simp: ws length_remove1)
    moreover have "distinct ?ws'" "set ?ws' \<subseteq> set ?ws"
      using qwaitD(1) [OF w] set_remove1_subset [of _ ?ws] by (auto simp: ws distinct_remove1)
    moreover have "ph (S u) \<noteq> Empty" if "u < nthreads M" for u
      using qallD(1) [OF all that] p(3) by (auto simp: qok_def)
    ultimately have "qwait K (S(t := s')) (nthreads M) q ?ws' (token M)"
      using qwaitD(1,2) [OF w] p(1) by (intro qwait_upd [OF w t]) (auto simp: p(2) split: if_splits)
    moreover have "qall K (S(t := s')) (nthreads M) q (out M)"
      unfolding p(2) using p by (intro qall_phase [OF all t]) simp_all
    ultimately show ?thesis using c ICvNotify by (intro qinvI) (simp_all add: upd_state_simp M' m_cvnotify_def)
  next
    case (IUnpark u)
    then have p: "ph (S t) = Notify" "s' = (S t)\<lparr>ph := Idle\<rparr>" "wake K = Some u" using tr by auto
    have M': "M' = m_unpark t u M" using IUnpark ex by simp
    from K p(3) obtain a where a: "plan K = Some [a]" "u = 1" "\<And>n. \<not> recvs K VUnit n" unfolding qpar_ok_def by blast
    have "v = u" if v: "v < nthreads M" "ph (S v) = Empty" for v
    proof -
      have "recvs K (arg (S v)) (length (got (S v)))" using qallD(1) [OF all v(1)] v(2) by (auto simp: qok_def recv_ok_def)
      moreover have "nthreads M \<le> 2" "arg (S 0) = VUnit"
        using qallD(3) [OF all] qplanD [of K S "nthreads M" "[a]"] a(1) by auto
      ultimately show ?thesis using v(1) a(2,3) by (metis One_nat_def less_2_cases_iff less_le_trans)
    qed
    then have tk: "token M' v \<noteq> None" if "v < nthreads M" "ph (S v) = Empty" for v
      using that by (simp add: M' m_unpark_def)
    have "ph (S v) \<noteq> Parked" if "v < nthreads M" for v using qallD(1) [OF all that] p(3) by (auto simp: qok_def)
    with qwaitD(2) [OF w] have "cvq M 0 = []" by (metis list.set_intros(1) neq_Nil_conv)
    then have "qwait K (S(t := s')) (nthreads M) q (cvq M 0) (token M')"
      by (intro qwait_upd [OF w t]) (use qwaitD(1,2) [OF w] p(1) tk in \<open>auto simp: p(2) split: if_splits\<close>)
    moreover have "qall K (S(t := s')) (nthreads M) q (out M)"
      unfolding p(2) using p by (intro qall_phase [OF all t]) simp_all
    ultimately show ?thesis using c IUnpark by (intro qinvI) (simp_all add: upd_state_simp M' m_unpark_def)
  next
    case IPark
    then have p: "ph (S t) = Empty" "s' = (S t)\<lparr>ph := Idle\<rparr>" using tr by auto
    have M': "m_park (ch_flag ch) t M = Some M'" using IPark ex by simp
    have eq: "cell M' = cell M" "out M' = out M" "nthreads M' = nthreads M" "cvq M' = cvq M" "\<And>u. u \<noteq> t \<Longrightarrow> token M' u = token M u"
      using M' by (auto simp: m_park_def split: if_splits option.splits)
    have "qwait K (S(t := s')) (nthreads M) q (cvq M 0) (token M')"
      using qwaitD(1,2) [OF w] p(1) eq(5) by (intro qwait_upd [OF w t]) (auto simp: p(2) split: if_splits)
    moreover have "qall K (S(t := s')) (nthreads M) q (out M)"
      unfolding p(2) using p by (intro qall_phase [OF all t]) simp_all
    ultimately show ?thesis using c IPark by (intro qinvI) (simp_all add: upd_state_simp eq)
  next
    case (IPrint v)
    have M': "M' = M\<lparr>out := out M @ [v]\<rparr>" using IPrint ex by simp
    have step: "qall K (S(t := s')) (nthreads M) q (out M @ [v]) \<and> qwait K (S(t := s')) (nthreads M) q (cvq M 0) (token M)"
    proof (cases "line_of (label K) v")
      case (Some x)
      then obtain p' where p: "s' = (S t)\<lparr>ph := p', told := told (S t) @ [x]\<rparr>" "pocket p' = []" "ph (S t) = Popped x \<or> ph (S t) = Have x"
          "\<And>w q'. p' \<noteq> Look w q'" "p' \<notin> {Parked, Empty}"
        using tr IPrint by (cases "ph (S t) = Popped x") auto
      from p(3) have ph: "pocket (ph (S t)) = [x]" "weight (ph (S t)) = 0" "\<not> pending (ph (S t))" "ph (S t) \<noteq> Parked" by auto
      have "line_of ''Sending: '' v = None" by (rule line_of_other [OF Some]) (use K in \<open>auto simp: qpar_ok_def\<close>)
      with Some have lines: "lines ''Sending: '' (out M @ [v]) = lines ''Sending: '' (out M) @ []"
          "lines (label K) (out M @ [v]) = lines (label K) (out M) @ [x]" by simp_all
      have "qok K q s'" using ok p(2,4,5) ph(1) unfolding qok_def p(1) by simp
      then have "qall K (S(t := s')) (nthreads M) q (out M @ [v])"
        by (intro qall_upd [OF all t _ _ _ _ _ _ _ lines(1) _ _ lines(2)]) (simp_all add: p(1))
      moreover have "qwait K (S(t := s')) (nthreads M) q (cvq M 0) (token M)"
        using p(5) by (intro qwait_phase [OF w t ph(4)]) (simp_all add: p(1) ph)
      ultimately show ?thesis ..
    next
      case None
      then have p: "ph (S t) = Idle" "s' = (case line_of ''Sending: '' v of Some x \<Rightarrow> (S t)\<lparr>said := said (S t) @ [x]\<rparr> | None \<Rightarrow> S t)"
        using tr IPrint by auto
      have "qall K (S(t := s')) (nthreads M) q (out M @ [v])"
        using p ok None
        by (intro qall_upd [OF all t, where said' = "case line_of ''Sending: '' v of None \<Rightarrow> [] | Some x \<Rightarrow> [x]" and told' = "[]"])
           (auto simp: qok_def recv_ok_def split: option.splits)
      moreover have "qwait K (S(t := s')) (nthreads M) q (cvq M 0) (token M)"
        using p by (intro qwait_phase [OF w t]) (auto split: option.splits)
      ultimately show ?thesis ..
    qed
    have "qinv K (S(t := s')) M'"
      by (rule qinvI [of M' q]) (use c conjunct1 [OF step] conjunct2 [OF step] in \<open>simp_all add: M'\<close>)
    then show ?thesis using IPrint by (simp add: upd_state_simp)
  next
    case (ISpawn a)
    then have p: "ph (S t) = Idle" "spawn_ok K (S t) a" "s' = (S t)\<lparr>kids := kids (S t) @ [a]\<rparr>" using tr by auto
    have "qall K ((S(t := s'))(nthreads M := qchild a)) (Suc (nthreads M)) q (out M)"
      unfolding p(3) by (rule qall_spawn [OF all t p(2)])
    moreover have "qwait K ((S(t := s'))(nthreads M := qchild a)) (Suc (nthreads M)) q (cvq M 0) (token M)"
      by (rule qwait_spawn [OF w t]) (simp_all add: p qchild_def)
    ultimately show ?thesis using ISpawn ex c by (intro qinvI) (auto simp: upd_state_def m_spawn_def)
  next
    case (IJoin u)
    then have p: "ph (S t) = Idle" "s' = (S t)\<lparr>joined := u # joined (S t)\<rparr>" using tr by auto
    have u: "u < nthreads M" "done_ok K (S u)" using jf IJoin qplan_alive [OF qallD(3) [OF all]] by (auto simp: joins_final_def qfin_def)
    have "qall K (S(t := s')) (nthreads M) q (out M)"
      using ok u by (intro qall_upd [OF all t, where said' = "[]" and told' = "[]"]) (auto simp: p(2) qok_def recv_ok_def)
    moreover have "qwait K (S(t := s')) (nthreads M) q (cvq M 0) (token M)"
      by (rule qwait_phase [OF w t]) (simp_all add: p)
    ultimately show ?thesis using IJoin ex c by (intro qinvI) (auto simp: upd_state_simp m_join_def)
  next
    case ICurrent
    with tr ex inv show ?thesis by (simp add: upd_state_simp)
  next
    case ITau
    with tr ex inv show ?thesis by (simp add: upd_state_simp)
  qed (use tr in auto)
qed

lemma qtr_mon: "qtr K s i r s' \<Longrightarrow> mon_instr {queue} (qholds s) i (qholds s')"
  by (cases i) (auto simp: qholds_def split: option.splits)

text \<open>The protocol of a program with good parameters.\<close>

definition qtr_ok :: "'a qpar \<Rightarrow> 'a qst \<Rightarrow> 'a instr \<Rightarrow> 'a resp \<Rightarrow> 'a qst \<Rightarrow> bool" where
  "qtr_ok K s i r s' \<longleftrightarrow> (if i = ITau \<or> dead K s then s' = s else qpar_ok K \<and> qtr K s i r s')"

lemma qinv_alive: "qinv K S M \<Longrightarrow> t < nthreads M \<Longrightarrow> \<not> dead K (S t)"
  unfolding qinv_def using qplan_alive qallD(3) by blast

interpretation qp: monitor "{queue}" qholds "qpos K" "qtr_ok K" "qpan K" qchild "qfin K" "qinv K" for K :: "'a qpar"
proof
  show "qtr_ok K s ITau r s" for s r by (simp add: qtr_ok_def)
  show "mon_instr {queue} (qholds (S t)) i (qholds s')" if "qinv K S M" "t < nthreads M" "qtr_ok K (S t) i r s'" for S M t i r s'
    using that qtr_mon qinv_alive [OF that(1,2)] by (auto simp: qtr_ok_def split: if_splits)
  show "\<not> qholds (qchild a)" for a :: "'a val" by (simp add: qholds_def qchild_def)
  show "cell M d \<noteq> Uninit" if "qinv K S M" "d \<in> {queue}" for S M d using that by (auto simp: qinv_def)
  show "qpos K (S t) i r" if inv: "qinv K S M" and t: "t < nthreads M" and ex: "mexec fx ch t i M = Some (r, M')" for S M t i r fx ch M'
  proof (cases i)
    case (ISpawn a)
    from inv have pl: "qplan K S (nthreads M)" unfolding qinv_def using qallD(3) by blast
    have "t = 0 \<and> nthreads M = Suc (length (kids (S 0)))" if "plan K = Some as" "lead (S t)" for as
      using pl that t by (cases t) (auto simp: qplan_def)
    with ISpawn ex show ?thesis by auto
  qed (use inv ex in \<open>auto simp: qinv_def\<close>)
  show "qinv K (upd_state qchild S t i s' (nthreads M)) M'"
    if "qinv K S M" "lock_owner (\<lambda>u. qholds (S u)) M" "t < nthreads M" "joins_final (qfin K) S M i"
      "mexec fx ch t i M = Some (r, M')" "qtr_ok K (S t) i r s'" for S M t i fx ch r M' s'
  proof (cases "i = ITau")
    case True
    with that show ?thesis by (auto simp: qtr_ok_def upd_state_def)
  next
    case False
    with that(6) qinv_alive [OF that(1,3)] have "qtr K (S t) i r s'" "qpar_ok K" by (auto simp: qtr_ok_def)
    with that(1-5) show ?thesis by (auto intro: qinv_step)
  qed
qed

section \<open>What is shown of a program\<close>

text \<open>No thread can make a step, unless a wake-up is spurious.\<close>

definition stuck :: "'a futex \<Rightarrow> 'a code \<Rightarrow> 'a config \<Rightarrow> bool" where
  "stuck fx code c \<longleftrightarrow> \<not> halted c \<and> (\<forall>t ts. exec fx code (Choice ts False VUnit) t c = None)"

abbreviation qprog :: "'a qpar \<Rightarrow> ('r \<Rightarrow> 'a qst \<Rightarrow> bool) \<Rightarrow> 'a qst \<Rightarrow> ('a, 'r) prog \<Rightarrow> bool" where
  "qprog K Q s p \<equiv> conforms (qpos K) (qtr_ok K) (qpan K) Q s p"

text \<open>In a stuck process every thread has ended, panicked, or waits for a message or for another thread.\<close>

lemma stuck_instr:
  assumes wf: "wf_mem (mem c)" "\<not> ub (mem c)" and st: "stuck fx code c"
    and p: "progs c t = Some (Do i k)" and conf: "qprog K (\<lambda>_ s. qfin K s) s (Do i k)" "\<not> dead K s"
  shows "waits i" "\<exists>s'. qtr K s i (RVal VUnit) s'"
proof -
  show w: "waits i" using exec_enabled [OF wf _ p, of fx code] st by (auto simp: stuck_def)
  then have "shape i (RVal VUnit)" "qpos K s i (RVal VUnit)" "i \<noteq> ITau" by (cases i; auto)+
  then show "\<exists>s'. qtr K s i (RVal VUnit) s'" using conf unfolding conforms_Do_iff qtr_ok_def by auto
qed

lemma stuck_threads:
  assumes wf: "wf_mem (mem c)" "\<not> ub (mem c)" and own: "lock_owner (\<lambda>u. qholds (S u)) (mem c)"
    and conf: "\<And>t p. progs c t = Some p \<Longrightarrow> t < nthreads (mem c) \<and> qprog K (\<lambda>_ s. qfin K s) (S t) p"
    and alive: "\<And>t. t < nthreads (mem c) \<Longrightarrow> \<not> dead K (S t)"
    and progs: "\<And>t. t < nthreads (mem c) \<Longrightarrow> progs c t \<noteq> None" and st: "stuck fx code c" and t: "t < nthreads (mem c)"
  shows "finished c t \<and> ph (S t) = Idle \<and> ends K \<or> (\<exists>m. progs c t = Some (Panic m)) \<and> ph (S t) = Idle \<and> qpan K (S t) \<or>
    (\<exists>k. progs c t = Some (Do (ICvWoken 0) k)) \<and> ph (S t) = Parked \<and> t \<in> set (cvq (mem c) 0) \<or>
    (\<exists>k. progs c t = Some (Do IPark k)) \<and> ph (S t) = Empty \<and> token (mem c) t = None \<or>
    (\<exists>u k. progs c t = Some (Do (IJoin u) k) \<and> u \<in> set (joins K) \<and> lead (S t) \<and> u \<le> length (kids (S t)) \<and> \<not> finished c u) \<and> ph (S t) = Idle"
proof -
  have noex: "exec fx code (Choice 0 False VUnit) t c = None" for t using st by (simp add: stuck_def)
  have nh: "\<not> halted c" using st by (simp add: stuck_def)
  have wt: "waits i \<and> (\<exists>s'. qtr K (S t) i (RVal VUnit) s')" if "progs c t = Some (Do i k)" for t i k
    using stuck_instr [OF wf st that, of K "S t"] conf [OF that] alive by blast
  have free: "mheld (mem c) 0 = None"
  proof (rule ccontr)
    assume "mheld (mem c) 0 \<noteq> None"
    then obtain u where u: "u < nthreads (mem c)" "qholds (S u)" using own by (auto simp: lock_owner_def)
    from progs [OF u(1)] obtain p where p: "progs c u = Some p" by auto
    then show False
    proof (cases p)
      case (Do i k)
      with wt [of u i k] p u(2) show False by (cases i) (auto simp: qholds_def)
    qed (use conf [OF p] alive [OF u(1)] u(2) noex [of u] nh p wf(2) in \<open>auto simp: qfin_def qpan_def qholds_def exec_def\<close>)
  qed
  from progs [OF t] obtain p where p: "progs c t = Some p" by auto
  then show ?thesis
  proof (cases p)
    case (Do i k)
    then have w: "waits i" "\<exists>s'. qtr K (S t) i (RVal VUnit) s'" using wt [of t i k] p by auto
    show ?thesis
    proof (cases i)
      case (IMLock m)
      with w(2) noex [of t] nh p Do free wf(2) show ?thesis
        by (auto simp: exec_def enabled_instr_def m_mlock_def)
    next
      case (ICvWoken cv)
      with w(2) noex [of t] nh p Do wf(2) show ?thesis
        by (auto simp: exec_def enabled_instr_def m_cvwoken_def split: if_splits)
    next
      case IPark
      with w(2) noex [of t] nh p Do wf(2) show ?thesis
        by (auto simp: exec_def enabled_instr_def m_park_def split: option.splits)
    next
      case (IJoin u)
      with w(2) noex [of t] nh p Do wf(2) show ?thesis
        by (auto simp: exec_def enabled_instr_def split: if_splits)
    qed (use w in auto)
  qed (use conf [OF p] alive [OF t] noex [of t] nh p wf(2) in \<open>auto simp: qfin_def qpan_def finished_def exec_def\<close>)
qed

text \<open>Hence nobody sleeps in a stuck process while there is a message.\<close>

lemma stuck_empty:
  assumes w: "qwait K S n q ws tk"
    and th: "\<And>t. t < n \<Longrightarrow> ph (S t) = Idle \<or> ph (S t) = Parked \<and> t \<in> set ws \<or> ph (S t) = Empty \<and> tk t = None"
    and t: "t < n" "ph (S t) \<in> {Parked, Empty}"
  shows "q = []"
proof (cases "ph (S t) = Empty")
  case True
  have "\<not> pending (ph (S u))" if "u < n" for u using th [OF that] by auto
  with True qwaitD(4) [OF w t(1)] th [OF t(1)] show ?thesis by auto
next
  case False
  then have ne: "ws \<noteq> []" using th [OF t(1)] t(2) by auto
  have "weight (ph (S u)) = 0" if "u < n" "u \<notin> set ws" for u using th [OF that(1)] that(2) by auto
  then have "weights S n = length ws" using weights_only [OF qwaitD(1) [OF w]] qwaitD(2) [OF w] by blast
  with qwaitD(3) [OF w ne] show ?thesis by simp
qed

lemma dead_ok: "dead K s \<Longrightarrow> qprog K (\<lambda>_ s. qfin K s) s p"
  by (rule conforms_dead) (auto simp: qtr_ok_def qfin_def qpan_def)

definition blocked :: "'a qpar \<Rightarrow> (tid \<Rightarrow> 'a qst) \<Rightarrow> 'a val list \<Rightarrow> 'a config \<Rightarrow> tid \<Rightarrow> bool" where
  "blocked K S q c t \<longleftrightarrow>
     finished c t \<and> ph (S t) = Idle \<and> ends K \<or> (\<exists>m. progs c t = Some (Panic m)) \<and> ph (S t) = Idle \<and> qpan K (S t) \<or>
     (\<exists>k. progs c t = Some (Do (ICvWoken 0) k)) \<and> ph (S t) = Parked \<and> q = [] \<or>
     (\<exists>k. progs c t = Some (Do IPark k)) \<and> ph (S t) = Empty \<and> q = [] \<or>
     (\<exists>u k. progs c t = Some (Do (IJoin u) k) \<and> u \<in> set (joins K) \<and> lead (S t) \<and> u \<le> length (kids (S t)) \<and> \<not> finished c u) \<and> ph (S t) = Idle"

definition qsound :: "'a qpar \<Rightarrow> (tid \<Rightarrow> 'a qst) \<Rightarrow> 'a val list \<Rightarrow> 'a futex \<Rightarrow> 'a code \<Rightarrow> 'a config \<Rightarrow> bool" where
  "qsound K S q fx code c \<longleftrightarrow> \<not> ub (mem c) \<and> cell (mem c) queue = VList q \<and> qall K S (nthreads (mem c)) q (out (mem c)) \<and>
     (\<forall>t < nthreads (mem c). \<not> dead K (S t)) \<and>
     (\<forall>t p. progs c t = Some p \<longrightarrow> t < nthreads (mem c) \<and> qprog K (\<lambda>_ s. qfin K s) (S t) p) \<and>
     (stuck fx code c \<longrightarrow> (\<forall>t < nthreads (mem c). blocked K S q c t))"

lemma qsoundD:
  assumes "qsound K S q fx code c"
  shows "\<not> ub (mem c)" "cell (mem c) queue = VList q" "qall K S (nthreads (mem c)) q (out (mem c))"
    "finished c t \<Longrightarrow> qfin K (S t)" "progs c t = Some (Panic m) \<Longrightarrow> qpan K (S t)" "progs c t = Some p \<Longrightarrow> t < nthreads (mem c)"
    "t < nthreads (mem c) \<Longrightarrow> \<not> dead K (S t)" "stuck fx code c \<Longrightarrow> t < nthreads (mem c) \<Longrightarrow> blocked K S q c t"
proof -
  have conf: "t < nthreads (mem c) \<and> qprog K (\<lambda>_ s. qfin K s) (S t) p" if "progs c t = Some p" for t p
    using assms that unfolding qsound_def by blast
  show "qfin K (S t)" if "finished c t"
    using that conf [of t] by (auto simp: finished_def split: option.splits prog.splits)
  show "qpan K (S t)" if "progs c t = Some (Panic m)" using conf [OF that] by simp
qed (use assms in \<open>auto simp: qsound_def\<close>)

theorem queue_reach:
  assumes "static_val vs queue = VList []" and main: "qprog K (\<lambda>_ s. qfin K s) qlead main"
    and code: "\<And>a. qprog K (\<lambda>_ s. qfin K s) (qchild a) (code a)" and reach: "reach fx code (init_config vs main) c"
  shows "\<exists>S q. qsound K S q fx code c"
proof -
  have "qinv K (\<lambda>_. qlead) (init_mem vs)"
    using assms(1)
    by (intro qinvI [of _ "[]"])
       (auto simp: init_mem_def qall_def qok_def qbook_def qplan_def qjoin_def qwait_def qlead_def qchild_def tallied_init split: option.splits intro!: exI [of _ "[]"])
  from qp.monitor_reach [OF this _ main code reach] obtain S where nub: "\<not> ub (mem c)" and wf: "wf_mem (mem c)"
    and inv: "qinv K S (mem c)" and own: "lock_owner (\<lambda>u. qholds (S u)) (mem c)"
    and conf: "\<And>t p. progs c t = Some p \<Longrightarrow> t < nthreads (mem c) \<and> qprog K (\<lambda>_ s. qfin K s) (S t) p"
    by (auto simp: qholds_def qlead_def qchild_def)
  from inv obtain q where q: "cell (mem c) queue = VList q" "qall K S (nthreads (mem c)) q (out (mem c))"
    and w: "qwait K S (nthreads (mem c)) q (cvq (mem c) 0) (token (mem c))" unfolding qinv_def by blast
  note threads = stuck_threads [OF wf nub own conf qinv_alive [OF inv] reach_progs [OF reach]]
  have "q = []" if "stuck fx code c" "t < nthreads (mem c)" "ph (S t) \<in> {Parked, Empty}" for t
    using threads [OF _ _ _ that(1)] by (intro stuck_empty [OF w _ that(2,3)]) blast
  with threads have "blocked K S q c t" if "stuck fx code c" "t < nthreads (mem c)" for t
    using that unfolding blocked_def by blast
  then show ?thesis using nub q conf qinv_alive [OF inv] unfolding qsound_def by blast
qed

end
