(* ===== verification/Queues.thy ===== *)
theory Queues
  imports Queue_Protocol
begin

text \<open>
  Queues behind a \<open>Mutex\<close>: the channel of 05-01, whose receivers wait on a condition variable,
  the producer and consumer of 01-08-02, which do the same, and those of 01-08-01, where the
  consumer parks. No message is lost, duplicated or reordered, and nobody sleeps forever while
  there is a message.
\<close>

section \<open>The code\<close>

definition pop_front :: "loc \<Rightarrow> ('a, 'a val option) prog" where
  "pop_front d = bindp (read_cell d) (\<lambda>q. case as_list q of
       [] \<Rightarrow> Ret None
     | x # xs \<Rightarrow> seqp (write_cell d (VList xs)) (Ret (Some x)))"

subsection \<open>05-01\<close>

definition QChannel_default :: "'a val list" where
  "QChannel_default = [VList []]"

definition QChannel_send :: "'a val \<Rightarrow> ('a, unit) prog" where
  "QChannel_send m =
     seqp (mutex_lock 0) (seqp (vec_push queue m) (seqp (mutex_unlock 0) (cv_notify_one 0)))"

definition QChannel_receive :: "('a, 'a val) prog" where
  "QChannel_receive =
     seqp (mutex_lock 0) (loop (\<lambda>_. bindp (pop_front queue) (\<lambda>m. case m of
       Some x \<Rightarrow> seqp (mutex_unlock 0) (Ret (Inr x))
     | None \<Rightarrow> seqp (cv_wait 0 0) (Ret (Inl ())))) ())"

definition sending :: "'a val \<Rightarrow> 'a val" where
  "sending m = VList [VStr ''Sending: '', m]"

definition received :: "'a val \<Rightarrow> 'a val" where
  "received m = VList [VStr ''Received: '', m]"

definition QChannel_sender :: "('a, unit) prog" where
  "QChannel_sender = for_range 0 5 (\<lambda>i.
     seqp (println (sending (VI32 (of_nat i)))) (seqp (QChannel_send (VI32 (of_nat i))) sleep))"

definition QChannel_receiver :: "('a, unit) prog" where
  "QChannel_receiver = for_range 0 5 (\<lambda>_. bindp QChannel_receive (\<lambda>m. println (received m)))"

definition QChannel_thread :: "'a code" where
  "QChannel_thread a = (if as_bool a then QChannel_receiver else QChannel_sender)"

definition QChannel_main :: "('a, unit) prog" where
  "QChannel_main =
     bindp (spawn (VBool False)) (\<lambda>sender.
     bindp (spawn (VBool True)) (\<lambda>receiver.
     seqp (join receiver) (join sender)))"

subsection \<open>01-08-02\<close>

definition dbg_item :: "'a val \<Rightarrow> 'a val" where
  "dbg_item x = VList [VStr ''item = '', x]"

definition cv_consumer :: "('a, unit) prog" where
  "cv_consumer = loop (\<lambda>_.
     seqp (mutex_lock 0)
     (bindp (loop (\<lambda>_. bindp (pop_front queue) (\<lambda>m. case m of
        Some x \<Rightarrow> Ret (Inr x)
      | None \<Rightarrow> seqp (cv_wait 0 0) (Ret (Inl ())))) ()) (\<lambda>item.
      seqp (println (dbg_item item)) (seqp (mutex_unlock 0) (Ret (Inl ())))))) ()"

text \<open>\<open>for i in 0..\<close>: the successor is computed before the body runs, and overflows with a panic.\<close>

definition for_from :: "32 word \<Rightarrow> (32 word \<Rightarrow> ('a, unit) prog) \<Rightarrow> ('a, unit) prog" where
  "for_from lo body = loop (\<lambda>i. bindp (i32_add i 1) (\<lambda>n. seqp (body i) (Ret (Inl n)))) lo"

definition cv_main :: "('a, unit) prog" where
  "cv_main = bindp (spawn (VBool True)) (\<lambda>t. for_from 0 (\<lambda>i.
     seqp (mutex_lock 0) (seqp (vec_push queue (VI32 i)) (seqp (mutex_unlock 0)
     (seqp (cv_notify_one 0) sleep)))))"

subsection \<open>01-08-01\<close>

definition thread_line :: "string \<Rightarrow> tid \<Rightarrow> 'a val" where
  "thread_line s t = VList [VStr s, VTid t]"

definition park_consumer :: "('a, unit) prog" where
  "park_consumer = bindp current (\<lambda>t. seqp (println (thread_line ''consumer thread id: '' t))
     (loop (\<lambda>_.
        seqp (mutex_lock 0) (bindp (pop_front queue) (\<lambda>item. seqp (mutex_unlock 0)
        (case item of
           Some x \<Rightarrow> seqp (println (dbg_item x)) (Ret (Inl ()))
         | None \<Rightarrow> seqp park (Ret (Inl ())))))) ()))"

definition park_main :: "('a, unit) prog" where
  "park_main = bindp current (\<lambda>m. seqp (println (thread_line ''main thread id: '' m))
     (bindp current (\<lambda>p. seqp (println (thread_line ''producer thread id: '' p))
     (bindp (spawn (VBool True)) (\<lambda>t. for_from 0 (\<lambda>i.
        seqp (mutex_lock 0) (seqp (vec_push queue (VI32 i)) (seqp (mutex_unlock 0)
        (seqp (unpark t) sleep)))))))))"

section \<open>The programs follow the protocol\<close>

definition live :: "'a qpar \<Rightarrow> 'a qst \<Rightarrow> bool" where
  "live K s \<longleftrightarrow> qpar_ok K \<and> \<not> dead K s"

lemma live_upd [simp]:
  "live K (s\<lparr>ph := p\<rparr>) = live K s" "live K (s\<lparr>sent := l\<rparr>) = live K s" "live K (s\<lparr>got := l\<rparr>) = live K s"
  "live K (s\<lparr>said := l\<rparr>) = live K s" "live K (s\<lparr>told := l\<rparr>) = live K s" "live K (s\<lparr>kids := as\<rparr>) = live K s"
  "live K (s\<lparr>joined := ts\<rparr>) = live K s"
  by (simp_all add: live_def dead_def split: option.splits)

lemma qtr_live: "live K s \<Longrightarrow> i \<noteq> ITau \<Longrightarrow> qtr_ok K s i r s' = qtr K s i r s'"
  by (auto simp: live_def qtr_ok_def)

lemma qtr_tau [simp]: "qtr_ok K s ITau r s' = (s' = s)"
  by (simp add: qtr_ok_def)

lemmas q_simps = conf_simps seqp_def qtr_live

lemma pop_front_ok:
  assumes "live K s" "ph s = Locked w" "recv_ok K s"
  shows "qprog K (\<lambda>m s'. case m of Some x \<Rightarrow> s' = s\<lparr>ph := Popped x, got := got s @ [x]\<rparr> | None \<Rightarrow> s' = s\<lparr>ph := Look w []\<rparr>) s (pop_front queue)"
  using assms by (auto simp: pop_front_def q_simps recv_ok_def split: list.splits)

lemma QChannel_send_ok:
  assumes "live K s" "ph s = Idle" "push_ok K s x" "wake K = None"
  shows "qprog K (\<lambda>_ s'. s' = s\<lparr>ph := Idle, sent := sent s @ [x]\<rparr>) s (QChannel_send x)"
  using assms by (auto simp: QChannel_send_def vec_push_def q_simps push_ok_def)

lemma lock_ok:
  assumes "live K s" "ph s = Idle"
  shows "qprog K (\<lambda>_ s'. s' = s\<lparr>ph := Locked False\<rparr>) s (mutex_lock 0)"
  using assms by (auto simp: q_simps)

lemma wait_ok:
  assumes "live K s" "ph s = Look w []" "recv_ok K s" "wake K = None"
  shows "qprog K (\<lambda>_ s'. s' = s\<lparr>ph := Locked True\<rparr>) s (cv_wait 0 0)"
  using assms by (auto simp: q_simps)

text \<open>The loop that waits for a message, with the lock held.\<close>

lemma await_ok:
  assumes K: "live K s" "wake K = None" and s: "ph s = Locked w" "recv_ok K s"
    and body: "\<And>x. qprog K Q (s\<lparr>ph := Popped x, got := got s @ [x]\<rparr>) (p x)"
  shows "qprog K Q s (loop (\<lambda>_. bindp (pop_front queue) (\<lambda>m. case m of
       Some x \<Rightarrow> bindp (p x) (\<lambda>y. Ret (Inr y)) | None \<Rightarrow> seqp (cv_wait 0 0) (Ret (Inl ())))) ())"
proof (rule conforms_loop [where J = "\<lambda>_ s'. \<exists>w. s' = s\<lparr>ph := Locked w\<rparr>"])
  show "qtr_ok K s ITau r s" for s r by simp
  show "\<exists>w. s = s\<lparr>ph := Locked w\<rparr>" using s(1) by (intro exI [of _ w]) simp
next
  fix x s' assume "\<exists>w. s' = s\<lparr>ph := Locked w\<rparr>"
  then obtain w' where s': "s' = s\<lparr>ph := Locked w'\<rparr>" by blast
  show "qprog K (\<lambda>y s'. case y of Inl _ \<Rightarrow> \<exists>w. s' = s\<lparr>ph := Locked w\<rparr> | Inr z \<Rightarrow> Q z s') s'
      (bindp (pop_front queue) (\<lambda>m. case m of
        Some x \<Rightarrow> bindp (p x) (\<lambda>y. Ret (Inr y)) | None \<Rightarrow> seqp (cv_wait 0 0) (Ret (Inl ()))))"
  proof (rule conforms_bind [OF pop_front_ok [of K s' w']])
    fix m s1 assume m: "case m of Some x \<Rightarrow> s1 = s'\<lparr>ph := Popped x, got := got s' @ [x]\<rparr> | None \<Rightarrow> s1 = s'\<lparr>ph := Look w' []\<rparr>"
    show "qprog K (\<lambda>y s'. case y of Inl _ \<Rightarrow> \<exists>w. s' = s\<lparr>ph := Locked w\<rparr> | Inr z \<Rightarrow> Q z s') s1
        (case m of Some x \<Rightarrow> bindp (p x) (\<lambda>y. Ret (Inr y)) | None \<Rightarrow> seqp (cv_wait 0 0) (Ret (Inl ())))"
    proof (cases m)
      case None
      with m s' have s1: "s1 = s\<lparr>ph := Look w' []\<rparr>" by simp
      have "qprog K (\<lambda>_ s'. s' = s1\<lparr>ph := Locked True\<rparr>) s1 (cv_wait 0 0)"
        by (rule wait_ok [OF _ _ _ K(2)]) (use K s in \<open>simp_all add: s1 recv_ok_def\<close>)
      then show ?thesis unfolding None option.case by (rule conforms_then) (auto simp: s1)
    next
      case (Some x)
      with m s' have "s1 = s\<lparr>ph := Popped x, got := got s @ [x]\<rparr>" by simp
      with body [of x] show ?thesis unfolding Some by (auto intro: conforms_bind)
    qed
  qed (use K s in \<open>simp_all add: s' recv_ok_def\<close>)
qed

lemma unlock_ret: "bindp (seqp (mutex_unlock 0) (Ret x)) (\<lambda>y. Ret (Inr y)) = seqp (mutex_unlock 0) (Ret (Inr x))"
  by (simp add: seqp_def std_defs)

lemma QChannel_receive_ok:
  assumes "live K s" "ph s = Idle" "recv_ok K s" "wake K = None"
  shows "qprog K (\<lambda>x s'. s' = s\<lparr>ph := Have x, got := got s @ [x]\<rparr>) s QChannel_receive"
proof -
  have "qprog K (\<lambda>x s'. s' = s\<lparr>ph := Have x, got := got s @ [x]\<rparr>) (s\<lparr>ph := Locked False\<rparr>)
    (loop (\<lambda>_. bindp (pop_front queue) (\<lambda>m. case m of
       Some x \<Rightarrow> bindp (seqp (mutex_unlock 0) (Ret x)) (\<lambda>y. Ret (Inr y)) | None \<Rightarrow> seqp (cv_wait 0 0) (Ret (Inl ())))) ())"
    by (rule await_ok) (use assms in \<open>auto simp: recv_ok_def q_simps\<close>)
  note this [unfolded unlock_ret]
  with lock_ok [OF assms(1,2)] show ?thesis unfolding QChannel_receive_def by (rule conforms_then)
qed

subsection \<open>Clients of the channel\<close>

text \<open>A client announces what it sends, prints what it receives, and starts other clients.\<close>

datatype 'a q_op = Send "'a val" | Receive | Start "'a val"

fun q_client :: "'a q_op list \<Rightarrow> ('a, unit) prog" where
  "q_client [] = Ret ()"
| "q_client (Send x # ops) = seqp (println (sending x)) (seqp (QChannel_send x) (q_client ops))"
| "q_client (Receive # ops) = bindp QChannel_receive (\<lambda>m. seqp (println (received m)) (q_client ops))"
| "q_client (Start a # ops) = seqp (spawn a) (q_client ops)"

definition any_client :: "'a qpar" where
  "any_client = \<lparr>announce = True, plan = None, sends = (\<lambda>_ _ _. True), recvs = (\<lambda>_ _. True), need_s = (\<lambda>_. 0),
     need_r = (\<lambda>_. 0), joins = [], ends = True, label = ''Received: '', wake = None, panics = False\<rparr>"

lemma any_client_simps [simp]:
  "announce any_client" "plan any_client = None" "sends any_client a l x" "recvs any_client a n" "need_s any_client a = 0"
  "need_r any_client a = 0" "joins any_client = []" "ends any_client" "label any_client = ''Received: ''" "wake any_client = None" "\<not> panics any_client" "live any_client s"
  by (simp_all add: any_client_def qpar_ok_def live_def dead_def)

lemma print_sending:
  assumes "live K s" "ph s = Idle" "label K = ''Received: ''" 
  shows "qprog K (\<lambda>_ s'. s' = s\<lparr>said := said s @ [x]\<rparr>) s (println (sending x))"
  using assms by (auto simp: q_simps sending_def)

lemma print_received:
  assumes "live K s" "ph s = Have x" "label K = ''Received: ''" 
  shows "qprog K (\<lambda>_ s'. s' = s\<lparr>ph := Idle, told := told s @ [x]\<rparr>) s (println (received x))"
  using assms by (auto simp: q_simps received_def)

lemma q_client_ok:
  assumes "ph s = Idle" "said s = sent s"
  shows "qprog any_client (\<lambda>_ s. qfin any_client s) s (q_client ops)"
  using assms
proof (induction ops arbitrary: s rule: q_client.induct)
  case 1
  then show ?case by (simp add: qfin_def done_ok_def)
next
  case (2 x ops)
  let ?s = "s\<lparr>said := said s @ [x]\<rparr>" and ?s' = "s\<lparr>said := said s @ [x], ph := Idle, sent := sent s @ [x]\<rparr>"
  have "qprog any_client (\<lambda>_ s'. s' = ?s) s (println (sending x))" by (rule print_sending) (use 2 in simp_all)
  moreover have "qprog any_client (\<lambda>_ s'. s' = ?s') ?s (QChannel_send x)"
    using QChannel_send_ok [of any_client ?s x] 2 by (simp add: push_ok_def)
  moreover have "qprog any_client (\<lambda>_ s. qfin any_client s) ?s' (q_client ops)" by (rule 2) (use 2 in simp_all)
  ultimately show ?case by (auto intro!: conforms_then)
next
  case (3 ops)
  show ?case unfolding q_client.simps
  proof (rule conforms_bind)
    show "qprog any_client (\<lambda>x s'. s' = s\<lparr>ph := Have x, got := got s @ [x]\<rparr>) s QChannel_receive"
      by (rule QChannel_receive_ok) (use 3 in \<open>simp_all add: recv_ok_def\<close>)
  next
    fix x s' assume s': "s' = s\<lparr>ph := Have x, got := got s @ [x]\<rparr>"
    have "qprog any_client (\<lambda>_ s''. s'' = s'\<lparr>ph := Idle, told := told s' @ [x]\<rparr>) s' (println (received x))"
      by (rule print_received) (simp_all add: s')
    moreover have "qprog any_client (\<lambda>_ s. qfin any_client s) (s'\<lparr>ph := Idle, told := told s' @ [x]\<rparr>) (q_client ops)"
      by (rule 3) (use 3 in \<open>simp_all add: s'\<close>)
    ultimately show "qprog any_client (\<lambda>_ s. qfin any_client s) s' (seqp (println (received x)) (q_client ops))"
      by (rule conforms_then)
  qed
next
  case (4 a ops)
  have "qprog any_client (\<lambda>_ s'. s' = s\<lparr>kids := kids s @ [a]\<rparr>) s (spawn a)"
    using 4 by (auto simp: q_simps spawn_ok_def)
  moreover have "qprog any_client (\<lambda>_ s. qfin any_client s) (s\<lparr>kids := kids s @ [a]\<rparr>) (q_client ops)"
    by (rule 4) (use 4 in simp_all)
  ultimately show ?case unfolding q_client.simps by (rule conforms_then)
qed

subsection \<open>The main program of 05-01\<close>

definition five :: "'a qpar" where
  "five = \<lparr>announce = True, plan = Some [VBool False, VBool True],
     sends = (\<lambda>a l x. a = VBool False \<and> length l < 5 \<and> x = VI32 (of_nat (length l))),
     recvs = (\<lambda>a n. a = VBool True \<and> n < 5),
     need_s = (\<lambda>a. if a = VBool False then 5 else 0), need_r = (\<lambda>a. if a = VBool True then 5 else 0),
     joins = [1, 2], ends = True, label = ''Received: '', wake = None, panics = False\<rparr>"

lemma five_simps [simp]:
  "announce five" "plan five = Some [VBool False, VBool True]"
  "sends five a l x \<longleftrightarrow> a = VBool False \<and> length l < 5 \<and> x = VI32 (of_nat (length l))"
  "recvs five a n \<longleftrightarrow> a = VBool True \<and> n < 5"
  "need_s five a = (if a = VBool False then 5 else 0)" "need_r five a = (if a = VBool True then 5 else 0)"
  "joins five = [1, 2]" "ends five" "label five = ''Received: ''" "wake five = None" "\<not> panics five"
  "live five s \<longleftrightarrow> lead s \<or> arg s \<in> {VBool False, VBool True}"
  by (auto simp: five_def qpar_ok_def live_def dead_def)

lemma QChannel_sender_ok: "qprog five (\<lambda>_ s. qfin five s) (qchild (VBool False)) (QChannel_sender :: ('a, unit) prog)"
proof -
  let ?J = "\<lambda>is s. is = [length (sent s)..<5] \<and> length (sent s) \<le> 5 \<and> ph s = Idle \<and> said s = sent s \<and> arg s = VBool False \<and> \<not> lead s"
  have "qprog five (\<lambda>_ s. ?J [] s) (qchild (VBool False)) (QChannel_sender :: ('a, unit) prog)"
    unfolding QChannel_sender_def for_range_def
  proof (rule conforms_for_list [where J = ?J])
    fix i "is" and s :: "'a qst" assume J: "?J (i # is) s"
    then have i: "i = length (sent s)" "i < 5" "is = [Suc i..<5]" by (auto simp: upt_eq_Cons_conv dest: sym)
    let ?x = "VI32 (of_nat i) :: 'a val"
    let ?s = "s\<lparr>said := said s @ [?x]\<rparr>"
    have "qprog five (\<lambda>_ s'. s' = ?s) s (println (sending ?x))" by (rule print_sending) (use J in simp_all)
    moreover have "qprog five (\<lambda>_ s'. s' = ?s\<lparr>ph := Idle, sent := sent ?s @ [?x]\<rparr>) ?s (QChannel_send ?x)"
      by (rule QChannel_send_ok) (use J i in \<open>simp_all add: push_ok_def\<close>)
    moreover have "qprog five (\<lambda>_ s. ?J is s) (?s\<lparr>ph := Idle, sent := sent ?s @ [?x]\<rparr>) sleep"
      using J i by (simp add: q_simps)
    ultimately show "qprog five (\<lambda>_ s. ?J is s) s (seqp (println (sending ?x)) (seqp (QChannel_send ?x) sleep))"
      by (intro conforms_then)
  qed (simp add: qchild_def)
  then show ?thesis
    by (rule conforms_mono) (auto simp: qfin_def done_ok_def upt_eq_Nil_conv dest: sym)
qed

lemma QChannel_receiver_ok: "qprog five (\<lambda>_ s. qfin five s) (qchild (VBool True)) (QChannel_receiver :: ('a, unit) prog)"
proof -
  let ?J = "\<lambda>is s. length is + length (got s) = 5 \<and> ph s = Idle \<and> told s = got s \<and> arg s = VBool True \<and> \<not> lead s"
  have "qprog five (\<lambda>_ s. ?J ([] :: nat list) s) (qchild (VBool True)) (QChannel_receiver :: ('a, unit) prog)"
    unfolding QChannel_receiver_def for_range_def
  proof (rule conforms_for_list [where J = ?J])
    fix i and "is" :: "nat list" and s :: "'a qst" assume J: "?J (i # is) s"
    show "qprog five (\<lambda>_ s. ?J is s) s (bindp QChannel_receive (\<lambda>m. println (received m)))"
    proof (rule conforms_bind [OF QChannel_receive_ok])
      fix x s' assume s': "s' = s\<lparr>ph := Have x, got := got s @ [x]\<rparr>"
      show "qprog five (\<lambda>_ s. ?J is s) s' (println (received x))"
        by (rule conforms_mono [OF print_received]) (use J in \<open>auto simp: s'\<close>)
    qed (use J in \<open>auto simp: recv_ok_def\<close>)
  qed (simp add: qchild_def)
  then show ?thesis
    by (rule conforms_mono) (auto simp: qfin_def done_ok_def)
qed

lemma QChannel_thread_ok: "qprog five (\<lambda>_ s. qfin five s) (qchild a) (QChannel_thread a)"
proof (cases "a \<in> {VBool False, VBool True}")
  case True
  then show ?thesis using QChannel_sender_ok QChannel_receiver_ok by (auto simp: QChannel_thread_def)
next
  case False
  then show ?thesis by (intro dead_ok) (auto simp: dead_def qchild_def)
qed

lemma QChannel_main_ok: "qprog five (\<lambda>_ s. qfin five s) qlead QChannel_main"
  by (auto simp: QChannel_main_def q_simps spawn_ok_def qlead_def qchild_def qfin_def done_ok_def)

subsection \<open>The endless programs of 01-08\<close>

definition stream :: "tid option \<Rightarrow> 'a qpar" where
  "stream w = \<lparr>announce = False, plan = Some [VBool True],
     sends = (\<lambda>a l x. a = VUnit \<and> x = VI32 (of_nat (length l))), recvs = (\<lambda>a n. a = VBool True),
     need_s = (\<lambda>_. 0), need_r = (\<lambda>_. 0), joins = [], ends = False, label = ''item = '', wake = w, panics = True\<rparr>"

lemma stream_simps [simp]:
  "\<not> announce (stream w)" "plan (stream w) = Some [VBool True]"
  "sends (stream w) a l x \<longleftrightarrow> a = VUnit \<and> x = VI32 (of_nat (length l))" "recvs (stream w) a n \<longleftrightarrow> a = VBool True"
  "need_s (stream w) a = 0" "need_r (stream w) a = 0" "joins (stream w) = []" "\<not> ends (stream w)" "label (stream w) = ''item = ''"
  "wake (stream w) = w" "panics (stream w)"
  by (auto simp: stream_def)

lemma stream_live [simp]: "w \<in> {None, Some 1} \<Longrightarrow> live (stream w) s \<longleftrightarrow> lead s \<or> arg s = VBool True"
  by (auto simp: qpar_ok_def live_def dead_def)

text \<open>The producer: the \<open>k\<close>-th message is \<open>k\<close>, as long as the counter does not overflow.\<close>

definition producing :: "'a qst \<Rightarrow> bool" where
  "producing s \<longleftrightarrow> ph s = Idle \<and> lead s \<and> arg s = VUnit \<and> kids s = [VBool True]"

lemma for_from_ok:
  fixes body :: "32 word \<Rightarrow> ('a, unit) prog"
  assumes w: "w \<in> {None, Some 1}"
    and body: "\<And>s. producing s \<Longrightarrow> qprog (stream w) (\<lambda>_ s'. s' = s\<lparr>ph := Idle, sent := sent s @ [VI32 (of_nat (length (sent s)))]\<rparr>) s
      (body (of_nat (length (sent s))))"
    and s: "producing s" "sent s = []"
  shows "qprog (stream w) (\<lambda>_ s. qfin (stream w) s) s (for_from 0 body)"
  unfolding for_from_def
proof (rule conforms_loop [where J = "\<lambda>i s. producing s \<and> i = of_nat (length (sent s))"])
  fix i and s :: "'a qst" assume J: "producing s \<and> i = (of_nat (length (sent s)) :: 32 word)"
  let ?s = "s\<lparr>ph := Idle, sent := sent s @ [VI32 i]\<rparr>"
  have "qprog (stream w) (\<lambda>_ s'. s' = ?s) s (body i)" using body [of s] J by simp
  then have "qprog (stream w) (\<lambda>y s. case y of Inl i \<Rightarrow> producing s \<and> i = of_nat (length (sent s)) | Inr z \<Rightarrow> qfin (stream w) s)
      s (seqp (body i) (Ret (Inl (i + 1) :: 32 word + unit)))"
    by (rule conforms_then) (use J in \<open>auto simp: producing_def\<close>)
  moreover have "qpan (stream w) s" using J by (auto simp: qpan_def producing_def)
  ultimately show "qprog (stream w) (\<lambda>y s. case y of Inl i \<Rightarrow> producing s \<and> i = of_nat (length (sent s)) | Inr z \<Rightarrow> qfin (stream w) s)
      s (bindp (i32_add i 1) (\<lambda>n. seqp (body i) (Ret (Inl n :: 32 word + unit))))"
    by (simp add: i32_add_def Let_def)
qed (use s in auto)

lemma cv_main_ok: "qprog (stream None) (\<lambda>_ s. qfin (stream None) s) qlead cv_main"
proof -
  have "qprog (stream None) (\<lambda>_ s. qfin (stream None) s) (qlead\<lparr>kids := [VBool True]\<rparr>) (for_from 0 (\<lambda>i.
     seqp (mutex_lock 0) (seqp (vec_push queue (VI32 i)) (seqp (mutex_unlock 0) (seqp (cv_notify_one 0) sleep)))))"
    by (rule for_from_ok)
       (auto simp: producing_def q_simps vec_push_def push_ok_def qlead_def qchild_def)
  then show ?thesis by (auto simp: cv_main_def q_simps spawn_ok_def qlead_def qchild_def)
qed

lemma park_main_ok: "qprog (stream (Some 1)) (\<lambda>_ s. qfin (stream (Some 1)) s) qlead park_main"
proof -
  have "qprog (stream (Some 1)) (\<lambda>_ s. qfin (stream (Some 1)) s) (qlead\<lparr>kids := [VBool True]\<rparr>) (for_from 0 (\<lambda>i.
     seqp (mutex_lock 0) (seqp (vec_push queue (VI32 i)) (seqp (mutex_unlock 0) (seqp (unpark 1) sleep)))))"
    by (rule for_from_ok)
       (auto simp: producing_def q_simps vec_push_def push_ok_def qlead_def qchild_def)
  then show ?thesis by (auto simp: park_main_def q_simps spawn_ok_def qlead_def qchild_def thread_line_def)
qed

text \<open>The consumers.\<close>

definition consuming :: "'a qst \<Rightarrow> bool" where
  "consuming s \<longleftrightarrow> ph s = Idle \<and> \<not> lead s \<and> arg s = VBool True"

lemma cv_consumer_ok:
  assumes "consuming s"
  shows "qprog (stream None) (\<lambda>_ s. qfin (stream None) s) s cv_consumer"
  unfolding cv_consumer_def
proof (rule conforms_loop [where J = "\<lambda>_. consuming"])
  fix x :: unit and s :: "'a qst" assume s: "consuming s"
  have lock: "qprog (stream None) (\<lambda>_ s'. s' = s\<lparr>ph := Locked False\<rparr>) s (mutex_lock 0)"
    by (rule lock_ok) (use s in \<open>auto simp: consuming_def\<close>)
  have "qprog (stream None) (\<lambda>x s'. s' = s\<lparr>ph := Popped x, got := got s @ [x]\<rparr>) (s\<lparr>ph := Locked False\<rparr>)
    (loop (\<lambda>_. bindp (pop_front queue) (\<lambda>m. case m of
       Some x \<Rightarrow> bindp (Ret x) (\<lambda>y. Ret (Inr y)) | None \<Rightarrow> seqp (cv_wait 0 0) (Ret (Inl ())))) ())"
    by (rule await_ok) (use s in \<open>auto simp: consuming_def recv_ok_def\<close>)
  note await = this [unfolded bindp_simps]
  have print: "qprog (stream None) (\<lambda>y s'. case y of Inl _ \<Rightarrow> consuming s' | Inr z \<Rightarrow> qfin (stream None) s')
      (s\<lparr>ph := Popped x, got := got s @ [x]\<rparr>) (seqp (println (dbg_item x)) (seqp (mutex_unlock 0) (Ret (Inl ()))))" for x
    using s by (auto simp: q_simps consuming_def dbg_item_def)
  show "qprog (stream None) (\<lambda>y s'. case y of Inl _ \<Rightarrow> consuming s' | Inr z \<Rightarrow> qfin (stream None) s') s
      (seqp (mutex_lock 0)
       (bindp (loop (\<lambda>_. bindp (pop_front queue) (\<lambda>m. case m of
          Some x \<Rightarrow> Ret (Inr x) | None \<Rightarrow> seqp (cv_wait 0 0) (Ret (Inl ())))) ()) (\<lambda>item.
        seqp (println (dbg_item item)) (seqp (mutex_unlock 0) (Ret (Inl ()))))))"
    by (rule conforms_then [OF lock], rule conforms_bind [OF await]) (simp add: print)
qed (use assms in auto)

lemma park_consumer_ok:
  assumes "consuming s"
  shows "qprog (stream (Some 1)) (\<lambda>_ s. qfin (stream (Some 1)) s) s park_consumer"
proof -
  let ?K = "stream (Some 1)"
  let ?body = "\<lambda>_ :: unit. seqp (mutex_lock 0) (bindp (pop_front queue) (\<lambda>item. seqp (mutex_unlock 0)
        (case item of Some x \<Rightarrow> seqp (println (dbg_item x)) (Ret (Inl ())) | None \<Rightarrow> seqp park (Ret (Inl ())))))"
  have "qprog ?K (\<lambda>_ s. qfin ?K s) s (loop ?body ())"
  proof (rule conforms_loop [where J = "\<lambda>_. consuming"])
    fix x :: unit and s :: "'a qst" assume s: "consuming s"
    have lock: "qprog ?K (\<lambda>_ s'. s' = s\<lparr>ph := Locked False\<rparr>) s (mutex_lock 0)"
      by (rule lock_ok) (use s in \<open>auto simp: consuming_def\<close>)
    show "qprog ?K (\<lambda>y s'. case y of Inl _ \<Rightarrow> consuming s' | Inr z \<Rightarrow> qfin ?K s') s (?body x)"
    proof (rule conforms_then [OF lock], rule conforms_bind [OF pop_front_ok [where w = False]])
      fix m and s' :: "'a qst"
      assume "case m of Some x \<Rightarrow> s' = s\<lparr>ph := Locked False\<rparr>\<lparr>ph := Popped x, got := got (s\<lparr>ph := Locked False\<rparr>) @ [x]\<rparr>
        | None \<Rightarrow> s' = s\<lparr>ph := Locked False\<rparr>\<lparr>ph := Look False []\<rparr>"
      with s show "qprog ?K (\<lambda>y s'. case y of Inl _ \<Rightarrow> consuming s' | Inr z \<Rightarrow> qfin ?K s') s' (seqp (mutex_unlock 0)
          (case m of Some x \<Rightarrow> seqp (println (dbg_item x)) (Ret (Inl ())) | None \<Rightarrow> seqp park (Ret (Inl ()))))"
        by (cases m) (auto simp: q_simps consuming_def dbg_item_def recv_ok_def)
    qed (use s in \<open>auto simp: consuming_def recv_ok_def\<close>)
  qed (use assms in auto)
  then show ?thesis using assms by (auto simp: park_consumer_def q_simps consuming_def thread_line_def)
qed

lemma consumer_child:
  assumes "\<And>s :: 'a qst. consuming s \<Longrightarrow> qprog (stream w) (\<lambda>_ s. qfin (stream w) s) s p"
  shows "qprog (stream w) (\<lambda>_ s. qfin (stream w) s) (qchild a) p"
proof (cases "a = VBool True")
  case True
  then show ?thesis by (intro assms) (simp add: consuming_def qchild_def)
next
  case False
  then show ?thesis by (intro dead_ok) (simp add: dead_def qchild_def)
qed

section \<open>What the invariant says of the output\<close>

text \<open>A thread that numbers its messages has sent the first numbers.\<close>

definition numbers :: "nat \<Rightarrow> 'a val list" where
  "numbers n = map (\<lambda>i. VI32 (of_nat i)) [0..<n]"

lemma numbers_take: "take k (numbers n) = numbers (min k n)"
  by (simp add: numbers_def take_map min_def)

lemma numbersI:
  assumes "\<And>k. k < length l \<Longrightarrow> l ! k = VI32 (of_nat k)"
  shows "l = numbers (length l)"
  using assms by (intro nth_equalityI) (simp_all add: numbers_def)

text \<open>With one sender \<open>t\<close> and one receiver \<open>u\<close> the output is the beginning of what has been sent.\<close>

lemma one_sender:
  assumes all: "qall K S n q os" and t: "t < n" "\<And>v. v < n \<Longrightarrow> v \<noteq> t \<Longrightarrow> sent (S v) = []"
    and u: "u < n" "\<And>v. v < n \<Longrightarrow> v \<noteq> u \<Longrightarrow> got (S v) = []"
  shows "sent (S t) = got (S u) @ q" "lines (label K) os = told (S u)"
proof -
  from qallD(2) [OF all] obtain G where G: "tallied sent S n (G @ q)" "tallied got S n G"
    and tl: "tallied told S n (lines (label K) os)" unfolding qbook_def by blast
  show "sent (S t) = got (S u) @ q"
    using tallied_single [OF G(1) t(2) t(1)] tallied_single [OF G(2) u(2) u(1)] by simp
  have "told (S v) = []" if "v < n" "v \<noteq> u" for v
    using u(2) [OF that] qallD(1) [OF all that(1)] by (simp add: qok_def)
  then show "lines (label K) os = told (S u)" using tallied_single [OF tl _ u(1)] by simp
qed

lemma no_receiver:
  assumes all: "qall K S n q os" and "\<And>v. v < n \<Longrightarrow> got (S v) = []"
  shows "lines (label K) os = []"
proof -
  have "told (S v) = []" if "v < n" for v using assms(2) [OF that] qallD(1) [OF all that] by (simp add: qok_def)
  moreover have "tallied told S n (lines (label K) os)" using qallD(2) [OF all] by (simp add: qbook_def)
  ultimately show ?thesis using tallied_mset [of told S n "lines (label K) os"] by simp
qed

lemma qok_sent: "qok K q s \<Longrightarrow> k < length (sent s) \<Longrightarrow> sends K (arg s) (take k (sent s)) (sent s ! k)"
  by (simp add: qok_def)

lemma qok_got: "qok K q s \<Longrightarrow> got s \<noteq> [] \<Longrightarrow> recvs K (arg s) (length (got s) - 1)"
  by (simp add: qok_def)

lemma qok_told: "qok K q s \<Longrightarrow> told s = take (length (told s)) (got s)"
  by (simp add: qok_def)

lemma qok_parked: "qok K q s \<Longrightarrow> ph s \<in> {Parked, Empty} \<Longrightarrow> recvs K (arg s) (length (got s)) \<and> told s = got s"
  by (auto simp: qok_def recv_ok_def)

lemma sum_mset_mono:
  assumes "\<And>t. t < (n :: nat) \<Longrightarrow> f t \<subseteq># g t"
  shows "(\<Sum>t<n. f t) \<subseteq># (\<Sum>t<n. g t :: 'v multiset)"
  using assms by (induction n) (simp_all add: subset_mset.add_mono)

lemma received_subset:
  assumes all: "qall K S n q os" and ann: "announce K"
  shows "mset (lines (label K) os) \<subseteq># mset (lines ''Sending: '' os)"
proof -
  from qallD(2) [OF all] obtain G where G: "tallied sent S n (G @ q)" "tallied got S n G"
    and tl: "tallied told S n (lines (label K) os)" and sl: "tallied said S n (lines ''Sending: '' os)"
    unfolding qbook_def by blast
  have "mset (lines (label K) os) = (\<Sum>t<n. mset (told (S t)))" by (rule tallied_mset [OF tl])
  also have "\<dots> \<subseteq># (\<Sum>t<n. mset (got (S t)))"
    by (rule sum_mset_mono) (use qallD(1) [OF all] in \<open>simp add: qok_def\<close>)
  also have "\<dots> = mset G" by (rule tallied_mset [OF G(2), symmetric])
  also have "\<dots> \<subseteq># mset (G @ q)" by simp
  also have "\<dots> = (\<Sum>t<n. mset (sent (S t)))" by (rule tallied_mset [OF G(1)])
  also have "\<dots> \<subseteq># (\<Sum>t<n. mset (said (S t)))"
    by (rule sum_mset_mono) (use qallD(1) [OF all] ann in \<open>force simp: qok_def\<close>)
  also have "\<dots> = mset (lines ''Sending: '' os)" by (rule tallied_mset [OF sl, symmetric])
  finally show ?thesis .
qed

section \<open>Properties\<close>

text \<open>
  C30. The channel of 05-01 for any clients, which announce what they send and print what they
  receive: no undefined behaviour and no panic; the messages received are, with their
  multiplicities, among those sent; and when no thread can make a step while one waits in
  \<open>receive\<close>, the queue is empty, so that no wake-up is lost.
\<close>

theorem QChannel_clients_sound:
  assumes "reach fx (\<lambda>a. q_client (thread a)) (init_config [QChannel_default] (q_client ops)) c"
  shows "\<not> ub (mem c) \<and> (\<forall>t m. progs c t \<noteq> Some (Panic m)) \<and>
    mset (lines ''Received: '' (out (mem c))) \<subseteq># mset (lines ''Sending: '' (out (mem c))) \<and>
    (stuck fx (\<lambda>a. q_client (thread a)) c \<and> (\<exists>t k. progs c t = Some (Do (ICvWoken 0) k)) \<longrightarrow> cell (mem c) queue = VList [])"
proof -
  have "static_val [QChannel_default] queue = VList []" by (simp add: static_val_def QChannel_default_def queue_def)
  from queue_reach [OF this q_client_ok q_client_ok assms]
  obtain S q where "qsound any_client S q fx (\<lambda>a. q_client (thread a)) c" by (auto simp: qlead_def qchild_def)
  note sound = qsoundD [OF this]
  have "progs c t \<noteq> Some (Panic m)" for t m
    using sound(5-7) [of t] by (auto simp: qpan_def)
  moreover have "q = []" if "stuck fx (\<lambda>a. q_client (thread a)) c" "progs c t = Some (Do (ICvWoken 0) k)" for t k
    using sound(8) [OF that(1) sound(6) [OF that(2)]] that(2) by (auto simp: blocked_def finished_def)
  ultimately show ?thesis using sound(1,2) received_subset [OF sound(3)] by auto
qed

theorem QChannel_clients_sound_witness:
  "\<exists>c :: nat config. \<not> ub (mem c) \<and> finished c 0 \<and> finished c 1 \<and> lines ''Received: '' (out (mem c)) = [VT 7]"
proof -
  obtain c :: "nat config" where c: "run (\<lambda>_ _ _ _. True) (\<lambda>_. q_client [Receive])
      (sched [(0, 0), (1, 0), (1, 0), (1, 0), (0, 0), (0, 0), (0, 0), (0, 0), (0, 0), (0, 0), (1, 0), (1, 0), (1, 0), (1, 0), (1, 0), (1, 0), (1, 0)])
      (init_config [QChannel_default] (q_client [Start VUnit, Send (VT 7)])) = Some c"
      "finished c 0" "finished c 1" "lines ''Received: '' (out (mem c)) = [VT 7]"
    by (simp add: run_simps QChannel_default_def QChannel_send_def QChannel_receive_def pop_front_def vec_push_def queue_def
        sending_def received_def lines_def map_filter_def)
  from QChannel_clients_sound [of _ "\<lambda>_. [Receive]", OF run_reach [OF c(1)]] c(2-) show ?thesis by blast
qed

text \<open>
  C31. The main program of 05-01: the messages are received in the order in which they are sent, all
  five of them have been received when the main thread ends, and until then some thread can make
  a step without any spurious wake-up.
\<close>

theorem QChannel_main_fifo:
  assumes "reach fx QChannel_thread (init_config [QChannel_default] QChannel_main) c"
  shows "\<not> ub (mem c) \<and> (\<forall>t m. progs c t \<noteq> Some (Panic m)) \<and>
    (\<exists>k \<le> 5. lines ''Received: '' (out (mem c)) = numbers k) \<and>
    (finished c 0 \<longrightarrow> lines ''Received: '' (out (mem c)) = numbers 5) \<and> (stuck fx QChannel_thread c \<longrightarrow> finished c 0)"
proof -
  have "static_val [QChannel_default] queue = VList []" by (simp add: static_val_def QChannel_default_def queue_def)
  from queue_reach [OF this QChannel_main_ok QChannel_thread_ok assms]
  obtain S q where "qsound five S q fx QChannel_thread c" by blast
  note sound = qsoundD [OF this]
  note all = sound(3)
  let ?n = "nthreads (mem c)" and ?L = "lines ''Received: '' (out (mem c))"
  have n: "?n \<le> 3" "?n = Suc (length (kids (S 0)))"
    and arg: "arg (S 0) = VUnit" "1 < ?n \<Longrightarrow> arg (S 1) = VBool False" "2 < ?n \<Longrightarrow> arg (S 2) = VBool True"
    and lead: "\<And>u. 0 < u \<Longrightarrow> u < ?n \<Longrightarrow> \<not> lead (S u)" "lead (S 0)"
    using qplanD [OF qallD(3) [OF all]] by auto
  have nopanic: "progs c t \<noteq> Some (Panic m)" for t m using sound(5-7) [of t] by (auto simp: qpan_def)
  have tid: "t \<in> {0, 1, 2}" if "t < ?n" for t using that n by auto
  have sent: "sent (S t) = []" if "t < ?n" "t \<noteq> 1" for t
    using qok_sent [OF qallD(1) [OF all that(1)], of 0] that tid arg by fastforce
  have got: "got (S t) = []" if "t < ?n" "t \<noteq> 2" for t
    using qok_got [OF qallD(1) [OF all that(1)]] that tid arg by fastforce
  have nosend: "finished c 1" if "stuck fx QChannel_thread c" "1 < ?n"
    using sound(8) [OF that] qok_parked [OF qallD(1) [OF all that(2)]] arg(2) that(2) sound(7) [OF that(2)] lead(1) [of 1]
    by (auto simp: blocked_def qpan_def)
  show ?thesis
  proof (cases "2 < ?n")
    case two: True
    then have one: "1 < ?n" by simp
    have s: "sent (S 1) = got (S 2) @ q" and L: "?L = told (S 2)"
      using one_sender [OF all one sent two got] by simp_all
    have nth: "length (take k (sent (S 1))) < 5 \<and> sent (S 1) ! k = VI32 (of_nat k)" if "k < length (sent (S 1))" for k
      using qok_sent [OF qallD(1) [OF all one] that] that by simp
    have nums: "sent (S 1) = numbers (length (sent (S 1)))" using nth by (intro numbersI) blast
    have len: "length (sent (S 1)) \<le> 5" using nth [of "length (sent (S 1)) - 1"] by (cases "length (sent (S 1))") auto
    let ?m = "length (told (S 2))"
    have m: "told (S 2) = take ?m (sent (S 1))" "?m \<le> length (sent (S 1))"
      using qallD(1) [OF all two] s by (auto simp: qok_def)
    then have L': "?L = numbers ?m" using L nums numbers_take by (metis min.absorb1)
    have "?m = 5" if "finished c 0"
    proof -
      have "2 \<in> set (joined (S 0))" using sound(4) [OF that] sound(7) [of 0] lead(2) two by (auto simp: qfin_def)
      then have "done_ok five (S 2)" using qallD(4) [OF all] two unfolding qjoin_def by (metis gr_implies_not0 not_gr_zero)
      then show ?thesis using arg(3) [OF two] m(2) len by (simp add: done_ok_def)
    qed
    moreover have "finished c 0" if st: "stuck fx QChannel_thread c"
    proof -
      have "finished c 2"
      proof (rule ccontr)
        assume nf: "\<not> finished c 2"
        have "q = [] \<and> ph (S 2) \<in> {Parked, Empty}"
          using sound(8) [OF st two] sound(7) [OF two] lead(1) [of 2] two nf by (auto simp: blocked_def qpan_def)
        then have "length (sent (S 1)) < 5" using qok_parked [OF qallD(1) [OF all two]] s by auto
        moreover have "qfin five (S 1)" by (rule sound(4) [OF nosend [OF st one]])
        ultimately show False using sound(7) [OF one] arg(2) [OF one] by (auto simp: qfin_def done_ok_def)
      qed
      then show ?thesis
        using sound(8) [OF st, of 0] sound(7) [of 0] qok_parked [OF qallD(1) [OF all, of 0]] arg(1) nosend [OF st one] two
        by (auto simp: blocked_def qpan_def)
    qed
    ultimately show ?thesis using sound(1) nopanic L' m(2) len by (metis order_trans)
  next
    case False
    have "?L = []" using no_receiver [OF all] got False by simp
    moreover have "\<not> finished c 0"
    proof
      assume "finished c 0"
      then have "2 \<in> set (joined (S 0))" using sound(4,7) [of 0] n(2) lead(2) by (auto simp: qfin_def)
      then show False using qallD(4) [OF all] n(2) False unfolding qjoin_def by (metis zero_less_Suc)
    qed
    moreover have "\<not> stuck fx QChannel_thread c"
    proof
      assume st: "stuck fx QChannel_thread c"
      have n0: "0 < ?n" using n(2) by simp
      with \<open>\<not> finished c 0\<close> obtain u where "u \<in> {1, 2}" "u \<le> length (kids (S 0))" "\<not> finished c u"
        using sound(8) [OF st n0] nopanic qok_parked [OF qallD(1) [OF all, of 0]] arg(1) by (auto simp: blocked_def)
      then have "u = 1" "1 < ?n" using n(2) False by auto
      with nosend [OF st] \<open>\<not> finished c u\<close> show False by simp
    qed
    ultimately show ?thesis using sound(1) nopanic by (auto simp: numbers_def)
  qed
qed

theorem QChannel_main_fifo_witness:
  "\<exists>c :: nat config. \<not> ub (mem c) \<and> lines ''Received: '' (out (mem c)) = numbers 1"
proof -
  obtain p :: "unit \<Rightarrow> (nat, unit) prog" where p: "QChannel_sender = bindp (seqp (println (sending (VI32 0))) (seqp (QChannel_send (VI32 0)) sleep)) p"
    by (rule that, unfold QChannel_sender_def, subst for_range_unroll, simp, simp)
  obtain r :: "unit \<Rightarrow> (nat, unit) prog" where r: "QChannel_receiver = bindp (bindp QChannel_receive (\<lambda>m. println (received m))) r"
    by (rule that, unfold QChannel_receiver_def, rule for_range_unroll, simp)
  obtain c :: "nat config" where c: "run (\<lambda>_ _ _ _. True) QChannel_thread
      (sched [(0, 0), (0, 0), (1, 0), (1, 0), (1, 0), (1, 0), (1, 0), (1, 0), (2, 0), (2, 0), (2, 0), (2, 0), (2, 0)])
      (init_config [QChannel_default] QChannel_main) = Some c" "lines ''Received: '' (out (mem c)) = numbers 1"
    by (simp add: run_simps QChannel_thread_def p r QChannel_main_def QChannel_default_def QChannel_send_def QChannel_receive_def
        pop_front_def vec_push_def queue_def sending_def received_def lines_def map_filter_def numbers_def)
  from QChannel_main_fifo [OF run_reach [OF c(1)]] c(2) show ?thesis by blast
qed

text \<open>The endless programs: thread 0 sends, thread 1 receives.\<close>

lemma stream_sound:
  assumes w: "w \<in> {None, Some 1}" and reach: "reach fx code (init_config [QChannel_default] main) c"
    and main: "qprog (stream w) (\<lambda>_ s. qfin (stream w) s) qlead main"
    and code: "\<And>a. qprog (stream w) (\<lambda>_ s. qfin (stream w) s) (qchild a) (code a)"
  shows "\<not> ub (mem c) \<and> (\<exists>k. lines ''item = '' (out (mem c)) = numbers k) \<and>
    (stuck fx code c \<longrightarrow> (\<exists>m. progs c 0 = Some (Panic m)) \<and> cell (mem c) queue = VList [])"
proof -
  have "static_val [QChannel_default] queue = VList []" by (simp add: static_val_def QChannel_default_def queue_def)
  from queue_reach [OF this main code reach]
  obtain S q where "qsound (stream w) S q fx code c" by blast
  note sound = qsoundD [OF this]
  note all = sound(3)
  let ?n = "nthreads (mem c)" and ?L = "lines ''item = '' (out (mem c))"
  have n: "?n \<le> 2" "?n = Suc (length (kids (S 0)))" and arg: "arg (S 0) = VUnit" "1 < ?n \<Longrightarrow> arg (S 1) = VBool True"
    and lead: "\<And>u. 0 < u \<Longrightarrow> u < ?n \<Longrightarrow> \<not> lead (S u)"
    using qplanD [OF qallD(3) [OF all]] by auto
  have n0: "0 < ?n" using n(2) by simp
  have tid: "t \<in> {0, 1}" if "t < ?n" for t using that n by auto
  have sent: "sent (S t) = []" if "t < ?n" "t \<noteq> 0" for t
    using qok_sent [OF qallD(1) [OF all that(1)], of 0] that tid arg by fastforce
  have got: "got (S t) = []" if "t < ?n" "t \<noteq> 1" for t
    using qok_got [OF qallD(1) [OF all that(1)]] that tid arg by fastforce
  have "\<exists>k. ?L = numbers k"
  proof (cases "1 < ?n")
    case one: True
    have s: "sent (S 0) = got (S 1) @ q" and L: "?L = told (S 1)"
      using one_sender [OF all n0 sent one got] by simp_all
    have "sent (S 0) = numbers (length (sent (S 0)))"
      by (rule numbersI) (use qok_sent [OF qallD(1) [OF all n0]] in simp)
    moreover have "told (S 1) = take (length (told (S 1))) (sent (S 0))"
      using qallD(1) [OF all one] s by (auto simp: qok_def)
    ultimately show ?thesis using L numbers_take by metis
  next
    case False
    then have "?L = numbers 0" using no_receiver [OF all] got by (simp add: numbers_def)
    then show ?thesis ..
  qed
  moreover have "(\<exists>m. progs c 0 = Some (Panic m)) \<and> q = []" if st: "stuck fx code c"
  proof -
    have 0: "\<exists>m. progs c 0 = Some (Panic m)" "qpan (stream w) (S 0)"
      using sound(8) [OF st n0] qok_parked [OF qallD(1) [OF all n0]] arg(1) by (auto simp: blocked_def)
    then have one: "1 < ?n" using sound(7) [OF n0] n(2) by (auto simp: qpan_def)
    have "q = []" using sound(8) [OF st one] sound(7) [OF one] lead [OF _ one] by (auto simp: blocked_def qpan_def)
    with 0 show ?thesis by blast
  qed
  ultimately show ?thesis using sound(1,2) by blast
qed

text \<open>
  The producer and the consumer of 01-08-02: the items are printed in order, without a gap; the
  program can only get stuck when the counter of the producer has overflowed, and then the queue
  is empty.
\<close>

theorem cv_main_in_order:
  assumes "reach fx (\<lambda>_. cv_consumer) (init_config [QChannel_default] cv_main) c"
  shows "\<not> ub (mem c) \<and> (\<exists>k. lines ''item = '' (out (mem c)) = numbers k) \<and>
    (stuck fx (\<lambda>_. cv_consumer) c \<longrightarrow> (\<exists>m. progs c 0 = Some (Panic m)) \<and> cell (mem c) queue = VList [])"
  by (rule stream_sound [OF _ assms cv_main_ok consumer_child [OF cv_consumer_ok]]) simp_all

text \<open>
  C32. The producer and the consumer of 01-08-01, which parks: the items are printed in order,
  without a gap; a wake-up before the consumer parks is not lost: the program can only get stuck
  when the counter of the producer has overflowed, and then the queue is empty.
\<close>

theorem park_main_in_order:
  assumes "reach fx (\<lambda>_. park_consumer) (init_config [QChannel_default] park_main) c"
  shows "\<not> ub (mem c) \<and> (\<exists>k. lines ''item = '' (out (mem c)) = numbers k) \<and>
    (stuck fx (\<lambda>_. park_consumer) c \<longrightarrow> (\<exists>m. progs c 0 = Some (Panic m)) \<and> cell (mem c) queue = VList [])"
  by (rule stream_sound [OF _ assms park_main_ok consumer_child [OF park_consumer_ok]]) simp_all

text \<open>The first iteration of the producer, for concrete executions.\<close>

lemma for_from_unroll:
  assumes "i32_add i 1 = (Ret n :: ('a, 32 word) prog)"
  shows "for_from i body = seqp (body i) (Do ITau (\<lambda>_. for_from n body :: ('a, unit) prog))"
proof -
  define B where "B = (\<lambda>i. bindp (i32_add i 1) (\<lambda>n. seqp (body i) (Ret (Inl n :: 32 word + unit))))"
  have "for_from i body = loop_from B (bindp (body i) (\<lambda>_. Ret (Inl n)))"
    unfolding for_from_def loop_def B_def [symmetric] by (subst (2) B_def) (simp only: assms bindp_simps seqp_def)
  also have "\<dots> = bindp (body i) (\<lambda>_. Do ITau (\<lambda>_. loop_from B (B n)))"
    by (simp only: loop_from_bindp loop_from_simps)
  finally show ?thesis by (simp only: for_from_def loop_def seqp_def B_def)
qed

lemma for_from_first: "\<exists>q. for_from 0 body = seqp (body 0) q"
  using for_from_unroll [of 0 1 body] by (auto simp: i32_add_def)

theorem cv_main_in_order_witness:
  "\<exists>c :: nat config. \<not> ub (mem c) \<and> lines ''item = '' (out (mem c)) = numbers 1"
proof -
  let ?body = "\<lambda>i. seqp (mutex_lock 0) (seqp (vec_push queue (VI32 i)) (seqp (mutex_unlock 0) (seqp (cv_notify_one 0) sleep)))
    :: (nat, unit) prog"
  obtain q where "for_from 0 ?body = seqp (?body 0) q" using for_from_first by blast
  then have main: "cv_main = bindp (spawn (VBool True)) (\<lambda>t. seqp (?body 0) q)" by (simp only: cv_main_def)
  obtain c :: "nat config" where c: "run (\<lambda>_ _ _ _. True) (\<lambda>_. cv_consumer)
      (sched [(0, 0), (0, 0), (0, 0), (0, 0), (0, 0), (0, 0), (1, 0), (1, 0), (1, 0), (1, 0)])
      (init_config [QChannel_default] cv_main) = Some c" "lines ''item = '' (out (mem c)) = numbers 1"
    by (simp add: run_simps cv_consumer_def main QChannel_default_def
        pop_front_def vec_push_def queue_def dbg_item_def lines_def map_filter_def numbers_def)
  from cv_main_in_order [OF run_reach [OF c(1)]] c(2) show ?thesis by blast
qed

theorem park_main_in_order_witness:
  "\<exists>c :: nat config. \<not> ub (mem c) \<and> lines ''item = '' (out (mem c)) = numbers 1"
proof -
  let ?body = "\<lambda>t i. seqp (mutex_lock 0) (seqp (vec_push queue (VI32 i)) (seqp (mutex_unlock 0) (seqp (unpark t) sleep)))
    :: (nat, unit) prog"
  have "\<exists>q. for_from 0 (?body t) = seqp (?body t 0) q" for t by (rule for_from_first)
  then obtain q where "\<And>t. for_from 0 (?body t) = seqp (?body t 0) (q t)" by metis
  then have main: "park_main = bindp current (\<lambda>m. seqp (println (thread_line ''main thread id: '' m))
     (bindp current (\<lambda>p. seqp (println (thread_line ''producer thread id: '' p))
     (bindp (spawn (VBool True)) (\<lambda>t. seqp (?body t 0) (q t))))))" by (simp only: park_main_def)
  obtain c :: "nat config" where c: "run (\<lambda>_ _ _ _. True) (\<lambda>_. park_consumer)
      (sched [(0, 0), (0, 0), (0, 0), (0, 0), (0, 0), (0, 0), (0, 0), (0, 0), (0, 0), (0, 0), (1, 0), (1, 0), (1, 0), (1, 0), (1, 0), (1, 0), (1, 0)])
      (init_config [QChannel_default] park_main) = Some c" "lines ''item = '' (out (mem c)) = numbers 1"
    by (simp add: run_simps park_consumer_def main QChannel_default_def thread_line_def
        pop_front_def vec_push_def queue_def dbg_item_def lines_def map_filter_def numbers_def)
  from park_main_in_order [OF run_reach [OF c(1)]] c(2) show ?thesis by blast
qed

end
