(* ===== verification/Stats.thy ===== *)
theory Stats
  imports Monitor Atomic_Protocol
begin

text \<open>
  The statistics of 02-02-02: four threads process 25 items each and record how long that took,
  in three atomic variables, which the main thread may see in an inconsistent state, or in a
  structure behind a mutex, of which it sees consistent snapshots. The time that item \<open>k\<close>
  takes is the parameter \<open>tm k\<close>.
\<close>

section \<open>The code\<close>

definition acc_num :: loc where "acc_num = Loc 0 0"

definition acc_total :: loc where "acc_total = Loc 0 1"

definition acc_max :: loc where "acc_max = Loc 0 2"



text \<open>A \<open>Duration\<close> is a number of seconds and of nanoseconds; \<open>{:?}\<close> of it is the value itself.\<close>

definition duration :: "nat \<Rightarrow> 'a val" where
  "duration ns = VList [VU64 (of_nat (ns div 10 ^ 9)), VU32 (of_nat (ns mod 10 ^ 9))]"

definition stat_line :: "64 word \<Rightarrow> 64 word \<Rightarrow> 64 word \<Rightarrow> 'a val" where
  "stat_line n total_time max_time = (if n = 0 then VStr ''Working.. nothing done yet.''
     else VList [VStr ''Working.. '', VUsize n, duration (1000 * unat total_time div unat (ucast n :: 32 word)),
       duration (1000 * unat max_time)])"

definition print_statistics :: "64 word \<Rightarrow> 64 word \<Rightarrow> 64 word \<Rightarrow> ('a, unit) prog" where
  "print_statistics n total_time max_time =
     (if n \<noteq> 0 \<and> (ucast n :: 32 word) = 0 then Panic ''divide by zero error when dividing duration by scalar''
      else println (stat_line n total_time max_time))"




definition accurate_report :: "('a, unit + unit) prog" where
  "accurate_report =
     seqp (mutex_lock 0)
     (bindp (read_cell acc_total) (\<lambda>total_time.
      bindp (read_cell acc_max) (\<lambda>max_time.
      bindp (read_cell acc_num) (\<lambda>n.
      seqp (mutex_unlock 0)
      (if as_usize n = 100 then Ret (Inr ())
       else seqp (print_statistics (as_usize n) (as_u64 total_time) (as_u64 max_time)) (seqp sleep (Ret (Inl ()))))))))"

definition accurate_statistics :: "('a, unit) prog" where
  "accurate_statistics =
     bindp (spawn_all (map (\<lambda>t. VList [VBool True, VUsize (of_nat t)]) [0..<4])) (\<lambda>ts.
     seqp (loop (\<lambda>_. accurate_report) ()) (join_all ts))"

definition num_done :: loc where "num_done = Loc 1 0"

definition total_time :: loc where "total_time = Loc 2 0"

definition max_time :: loc where "max_time = Loc 3 0"



definition inaccurate_report :: "('a, unit + unit) prog" where
  "inaccurate_report =
     bindp (load total_time Relaxed) (\<lambda>total.
     bindp (load max_time Relaxed) (\<lambda>max.
     bindp (load num_done Relaxed) (\<lambda>n.
     if as_usize n = 100 then Ret (Inr ())
     else seqp (print_statistics (as_usize n) (as_u64 total) (as_u64 max)) (seqp sleep (Ret (Inl ()))))))"

definition inaccurate_statistics :: "('a, unit) prog" where
  "inaccurate_statistics =
     bindp (spawn_all (map (\<lambda>t. VList [VBool False, VUsize (of_nat t)]) [0..<4])) (\<lambda>ts.
     seqp (loop (\<lambda>_. inaccurate_report) ()) (seqp (join_all ts) (println (VStr ''Done!''))))"


definition stat_main :: "('a, unit) prog" where
  "stat_main = seqp (println (VStr ''Inaccurate statistics is started...''))
     (seqp inaccurate_statistics (seqp (println (VStr []))
     (seqp (println (VStr ''Accurate statistics is started...'')) accurate_statistics)))"


section \<open>The reference: the statistics of a set of items\<close>








section \<open>The protocol of the accurate statistics\<close>

text \<open>
  \<open>SM k p\<close>: the main thread has spawned \<open>k\<close> workers; it is outside of the lock (\<open>MOut\<close>), has read
  some of the fields (\<open>MIn\<close>), or has a snapshot (\<open>MSnap\<close>). \<open>SW u i w\<close>: worker \<open>u\<close> has recorded
  \<open>i\<close> items; \<open>WIn k v\<close> is its program point in the critical section, with the value it read last.
  \<open>SDead\<close> is a thread that is never spawned.
\<close>

datatype mph = MOut | MIn nat "64 word" "64 word" "64 word" | MSnap "64 word" "64 word" "64 word"

datatype wph = WOut | WIn nat "64 word"

datatype sst = SM nat mph | SW nat nat wph | SDead


definition acc_arg :: "nat \<Rightarrow> 'a val" where
  "acc_arg t = VList [VBool True, VUsize (of_nat t)]"

fun acc_read :: "sst \<Rightarrow> loc \<Rightarrow> 'a val \<Rightarrow> sst \<Rightarrow> bool" where
  "acc_read (SM k (MIn j a b c)) d v s' =
     (j = 0 \<and> d = acc_total \<and> s' = SM k (MIn 1 (as_u64 v) b c) \<or> j = 1 \<and> d = acc_max \<and> s' = SM k (MIn 2 a (as_u64 v) c) \<or>
      j = 2 \<and> d = acc_num \<and> s' = SM k (MIn 3 a b (as_usize v)))"
| "acc_read (SW u i (WIn k w)) d v s' =
     (k = 0 \<and> d = acc_num \<and> s' = SW u i (WIn 1 (as_usize v)) \<or> k = 2 \<and> d = acc_total \<and> s' = SW u i (WIn 3 (as_u64 v)) \<or>
      k = 4 \<and> d = acc_max \<and> s' = SW u i (WIn 5 (as_u64 v)))"
| "acc_read s d v s' = False"

fun acc_write :: "(nat \<Rightarrow> 64 word) \<Rightarrow> sst \<Rightarrow> loc \<Rightarrow> 'a val \<Rightarrow> sst \<Rightarrow> bool" where
  "acc_write tm (SW u i (WIn k w)) d v s' =
     (k = 1 \<and> d = acc_num \<and> v = VUsize (w + 1) \<and> s' = SW u i (WIn 2 0) \<or>
      k = 3 \<and> d = acc_total \<and> v = VU64 (w + tm (u * 25 + i)) \<and> s' = SW u i (WIn 4 0) \<or>
      k = 5 \<and> d = acc_max \<and> v = VU64 (max w (tm (u * 25 + i))) \<and> s' = SW u i (WIn 6 0))"
| "acc_write tm s d v s' = False"

fun acc_tr :: "(nat \<Rightarrow> 64 word) \<Rightarrow> sst \<Rightarrow> 'a instr \<Rightarrow> 'a resp \<Rightarrow> sst \<Rightarrow> bool" where
  "acc_tr tm s (ISpawn a) r s' = (\<exists>k. s = SM k MOut \<and> k < 4 \<and> a = acc_arg k \<and> s' = SM (Suc k) MOut)"
| "acc_tr tm s (IMLock m) r s' = (m = 0 \<and> ((\<exists>k. s = SM k MOut \<and> s' = SM k (MIn 0 0 0 0)) \<or>
     (\<exists>u i. s = SW u i WOut \<and> i < 25 \<and> s' = SW u i (WIn 0 0))))"
| "acc_tr tm s (IRead d) r s' = acc_read s d (rval r) s'"
| "acc_tr tm s (IWrite d v) r s' = acc_write tm s d v s'"
| "acc_tr tm s (IMUnlock m) r s' = (m = 0 \<and> ((\<exists>k a b c. s = SM k (MIn 3 a b c) \<and> s' = SM k (MSnap c a b)) \<or>
     (\<exists>u i v. s = SW u i (WIn 6 v) \<and> s' = SW u (Suc i) WOut)))"
| "acc_tr tm s (IPrint v) r s' = (\<exists>k a b c. s = SM k (MSnap c a b) \<and> v = stat_line c a b \<and> s' = SM k MOut)"
| "acc_tr tm s (IJoin u) r s' = ((\<exists>a b. s = SM 4 (MSnap 100 a b)) \<and> s' = s)"
| "acc_tr tm s ITau r s' = (s' = s)"
| "acc_tr tm s i r s' = False"

definition acc_tr_ok :: "(nat \<Rightarrow> 64 word) \<Rightarrow> sst \<Rightarrow> 'a instr \<Rightarrow> 'a resp \<Rightarrow> sst \<Rightarrow> bool" where
  "acc_tr_ok tm s i r s' \<longleftrightarrow> (if s = SDead then s' = SDead else acc_tr tm s i r s')"





section \<open>The invariant\<close>
































section \<open>Steps\<close>
















section \<open>The programs conform\<close>


lemma acc_tr_alive [simp]: "acc_tr_ok tm (SM k p) i r s' = acc_tr tm (SM k p) i r s'" "acc_tr_ok tm (SW u j w) i r s' = acc_tr tm (SW u j w) i r s'"
  "acc_tr_ok tm s ITau r s"
  by (simp_all add: acc_tr_ok_def)








section \<open>The theorem\<close>




text \<open>
  The atomic variables are not updated together: the main thread can report one item that took
  twice as long as the longest one.
\<close>


end
