(* ===== verification/Fence.thy ===== *)
theory Fence
  imports Protocol Access "HOL-Library.Sublist"
begin

text \<open>
  Release stores and an acquire fence (03-08): ten threads write one element of an array each
  and raise a flag; the main thread reads the flags with relaxed loads, and only when one of
  them is up it executes an acquire fence and reads the elements whose flags it saw.
\<close>

section \<open>The code\<close>

definition F_DATA :: "nat \<Rightarrow> loc" where "F_DATA i = Loc 0 i"

definition F_READY :: "nat \<Rightarrow> loc" where "F_READY i = Loc 1 i"

definition fence_statics :: "'a val list list" where
  "fence_statics = [replicate 10 (VU64 0), replicate 10 (VBool False)]"

definition some_calculation :: "64 word \<Rightarrow> ('a, 64 word) prog" where
  "some_calculation i = seqp sleep
     (if unat i * unat i < 2 ^ 64 then Ret (i * i) else Panic ''attempt to multiply with overflow'')"

definition fence_thread :: "'a code" where
  "fence_thread a = (let i = as_usize a in
     bindp (some_calculation i) (\<lambda>data.
     if unat i < 10
     then seqp (write_cell (F_DATA (unat i)) (VU64 data)) (store (F_READY (unat i)) (VBool True) Release)
     else Panic ''index out of bounds''))"

definition data_line :: "nat \<Rightarrow> 'a val \<Rightarrow> 'a val" where
  "data_line i v = VList [VStr ''data'', VUsize (of_nat i), VStr '' = '', v]"

fun load_flags :: "nat list \<Rightarrow> ('a, bool list) prog" where
  "load_flags [] = Ret []"
| "load_flags (i # is) = bindp (load (F_READY i) Relaxed) (\<lambda>v. bindp (load_flags is) (\<lambda>vs. Ret (as_bool v # vs)))"

definition print_data :: "bool list \<Rightarrow> nat \<Rightarrow> ('a, unit) prog" where
  "print_data ready i = (if ready ! i then bindp (read_cell (F_DATA i)) (\<lambda>v. println (data_line i v)) else Ret ())"

definition fence_main :: "('a, unit) prog" where
  "fence_main = bindp (spawn_all (map (\<lambda>i. VUsize (of_nat i)) [0..<10])) (\<lambda>_.
     seqp sleep (bindp (load_flags [0..<10]) (\<lambda>ready.
     if True \<in> set ready then seqp (fence Acquire) (for_range 0 10 (print_data ready)) else Ret ())))"

section \<open>The protocol\<close>

text \<open>
  \<open>FM k R b j\<close>: the main thread has spawned \<open>k\<close> threads, read the flags \<open>R\<close>, executed the fence
  (\<open>b\<close>) and is about to look at element \<open>j\<close>. \<open>FW i p\<close>: thread \<open>i\<close> has written its element
  (\<open>1 \<le> p\<close>) and raised its flag (\<open>p = 2\<close>).
\<close>

datatype fst = FM nat "bool list" bool nat | FW nat nat | FDead

definition square :: "nat \<Rightarrow> 'a val" where "square i = VU64 (of_nat i * of_nat i)"

fun fence_tr :: "fst \<Rightarrow> 'a instr \<Rightarrow> 'a resp \<Rightarrow> fst \<Rightarrow> bool" where
  "fence_tr s (ISpawn a) r s' = (\<exists>k. s = FM k [] False 0 \<and> k < 10 \<and> a = VUsize (of_nat k) \<and> s' = FM (Suc k) [] False 0)"
| "fence_tr s (ILoad o1 l) r s' = (\<exists>k R. s = FM k R False 0 \<and> length R < 10 \<and> l = F_READY (length R) \<and>
     s' = FM k (R @ [as_bool (rval r)]) False 0)"
| "fence_tr s (IFence o1) r s' = (\<exists>k R. s = FM k R False 0 \<and> acquires o1 \<and> s' = FM k R True 0)"
| "fence_tr s (IRead l) r s' = (\<exists>k R j i. s = FM k R True j \<and> i < length R \<and> R ! i \<and> l = F_DATA i \<and> s' = s)"
| "fence_tr s (IPrint v) r s' = (\<exists>k R j i. s = FM k R True j \<and> j \<le> i \<and> i < 10 \<and> v = data_line i (square i) \<and> s' = FM k R True (Suc i))"
| "fence_tr s (IWrite l v) r s' = (\<exists>i. s = FW i 0 \<and> l = F_DATA i \<and> v = square i \<and> s' = FW i 1)"
| "fence_tr s (IStore o1 l v) r s' = (\<exists>i. s = FW i 1 \<and> l = F_READY i \<and> v = VBool True \<and> releases o1 \<and> s' = FW i 2)"
| "fence_tr s ITau r s' = (s' = s)"
| "fence_tr s i r s' = False"

definition fence_tr_ok :: "fst \<Rightarrow> 'a instr \<Rightarrow> 'a resp \<Rightarrow> fst \<Rightarrow> bool" where
  "fence_tr_ok s i r s' \<longleftrightarrow> (if s = FDead then s' = FDead else fence_tr s i r s')"

fun fence_pos :: "fst \<Rightarrow> 'a instr \<Rightarrow> 'a resp \<Rightarrow> bool" where
  "fence_pos (FM k R True j) (IRead l) r = (\<forall>i < length R. l = F_DATA i \<and> R ! i \<longrightarrow> rval r = square i)"
| "fence_pos s i r = True"

definition fence_child :: "'a val \<Rightarrow> fst" where
  "fence_child a = (if \<exists>i < 10. a = VUsize (of_nat i) then FW (unat (as_usize a)) 0 else FDead)"

definition fence_pan :: "fst \<Rightarrow> bool" where
  "fence_pan s \<longleftrightarrow> s = FDead"

text \<open>How far the thread of element \<open>i\<close> is.\<close>

definition stage_of :: "(tid \<Rightarrow> fst) \<Rightarrow> nat \<Rightarrow> nat \<Rightarrow> nat" where
  "stage_of S n i = (if Suc i < n then case S (Suc i) of FW j p \<Rightarrow> p | _ \<Rightarrow> 0 else 0)"

definition slot_ok :: "nat \<Rightarrow> nat \<Rightarrow> 'a mem \<Rightarrow> bool" where
  "slot_ok i p M \<longleftrightarrow> kinds_in {NaRead, NaWrite} (log M (F_DATA i)) \<and> atomic_only (log M (F_READY i)) \<and>
     (p = 0 \<longrightarrow> log M (F_DATA i) = []) \<and> (p = 1 \<longrightarrow> wcovered (log M (F_DATA i)) (cur M (Suc i))) \<and>
     (1 \<le> p \<longrightarrow> cell M (F_DATA i) = square i) \<and>
     (\<forall>k m. hist M (F_READY i) k = Some m \<longrightarrow> mval m \<noteq> VBool False \<longrightarrow> p = 2 \<and> wcovered (log M (F_DATA i)) (mview m))"

definition fence_plan :: "(tid \<Rightarrow> fst) \<Rightarrow> nat \<Rightarrow> bool" where
  "fence_plan S n \<longleftrightarrow> 0 < n \<and> n \<le> 11 \<and> (\<exists>R b j. S 0 = FM (n - 1) R b j \<and> length R \<le> 10 \<and> j \<le> 10) \<and>
     (\<forall>i. Suc i < n \<longrightarrow> (\<exists>p \<le> 2. S (Suc i) = FW i p))"

fun seen_ok :: "(tid \<Rightarrow> fst) \<Rightarrow> 'a mem \<Rightarrow> fst \<Rightarrow> bool" where
  "seen_ok S M (FM k R b j) \<longleftrightarrow> (\<forall>i < length R. R ! i \<longrightarrow> stage_of S (nthreads M) i = 2 \<and>
     wcovered (log M (F_DATA i)) (if b then cur M 0 else pend M 0)) \<and>
     subseq (out M) (map (\<lambda>i. data_line i (square i)) [0..<j])"
| "seen_ok S M s = True"

definition fence_inv :: "(tid \<Rightarrow> fst) \<Rightarrow> 'a mem \<Rightarrow> bool" where
  "fence_inv S M \<longleftrightarrow> \<not> ub M \<and> (\<forall>b. \<not> freed M b) \<and> fence_plan S (nthreads M) \<and>
     (\<forall>i < 10. slot_ok i (stage_of S (nthreads M) i) M) \<and> seen_ok S M (S 0)"

lemma fence_locs [simp]: "F_DATA i \<noteq> F_READY j" "F_READY j \<noteq> F_DATA i" "F_DATA i = F_DATA j \<longleftrightarrow> i = j" "F_READY i = F_READY j \<longleftrightarrow> i = j"
  by (auto simp: F_DATA_def F_READY_def)

lemma fence_planD:
  assumes "fence_plan S n"
  shows "0 < n" "n \<le> 11" "\<exists>R b j. S 0 = FM (n - 1) R b j \<and> length R \<le> 10 \<and> j \<le> 10"
    "Suc i < n \<Longrightarrow> \<exists>p \<le> 2. S (Suc i) = FW i p"
  using assms by (auto simp: fence_plan_def)

lemma fence_thread_cases:
  assumes "fence_plan S n" "t < n"
  obtains (main) R b j where "t = 0" "S 0 = FM (n - 1) R b j" "length R \<le> 10" "j \<le> 10"
    | (work) i p where "t = Suc i" "i < 10" "S (Suc i) = FW i p" "p \<le> 2" "stage_of S n i = p"
proof (cases t)
  case 0
  with fence_planD(3) [OF assms(1)] main show thesis by blast
next
  case (Suc i)
  with fence_planD(4) [OF assms(1), of i] assms(2) obtain p where "p \<le> 2" "S (Suc i) = FW i p" by auto
  moreover have "i < 10" using Suc assms fence_planD(2) [OF assms(1)] by simp
  ultimately show thesis using Suc assms(2) by (intro work) (auto simp: stage_of_def)
qed

lemma stage_upd_main: "stage_of (S(0 := s)) n i = stage_of S n i"
  by (simp add: stage_of_def)

lemma stage_upd_work: "Suc j < n \<Longrightarrow> stage_of (S(Suc j := FW j p)) n i = (if i = j then p else stage_of S n i)"
  by (simp add: stage_of_def)

lemma fence_invD:
  assumes "fence_inv S M"
  shows "\<not> ub M" "\<not> freed M b" "fence_plan S (nthreads M)" "i < 10 \<Longrightarrow> slot_ok i (stage_of S (nthreads M) i) M" "seen_ok S M (S 0)"
  using assms by (auto simp: fence_inv_def)

lemma slot_okD:
  assumes "slot_ok i p M"
  shows "kinds_in {NaRead, NaWrite} (log M (F_DATA i))" "atomic_only (log M (F_READY i))" "p = 0 \<Longrightarrow> log M (F_DATA i) = []"
    "p = 1 \<Longrightarrow> wcovered (log M (F_DATA i)) (cur M (Suc i))" "1 \<le> p \<Longrightarrow> cell M (F_DATA i) = square i"
    "hist M (F_READY i) k = Some m \<Longrightarrow> mval m \<noteq> VBool False \<Longrightarrow> p = 2"
    "hist M (F_READY i) k = Some m \<Longrightarrow> mval m \<noteq> VBool False \<Longrightarrow> wcovered (log M (F_DATA i)) (mview m)"
  using assms unfolding slot_ok_def by blast+

text \<open>What other steps leave alone.\<close>

lemma slot_ok_frame:
  assumes "slot_ok i p M" "log M' (F_DATA i) = log M (F_DATA i)" "log M' (F_READY i) = log M (F_READY i)"
    "hist M' (F_READY i) = hist M (F_READY i)" "cell M' (F_DATA i) = cell M (F_DATA i)" "cur M (Suc i) \<le> cur M' (Suc i)"
  shows "slot_ok i p M'"
  using assms wcovered_mono unfolding slot_ok_def by auto

lemma seen_ok_frame:
  assumes "seen_ok S M (FM k R b j)"
    "\<And>i V. stage_of S (nthreads M) i = 2 \<Longrightarrow> wcovered (log M (F_DATA i)) V \<Longrightarrow> wcovered (log M' (F_DATA i)) V"
    "cur M 0 \<le> cur M' 0" "pend M 0 \<le> pend M' 0" "nthreads M' = nthreads M"
    "\<And>i. stage_of S (nthreads M) i = 2 \<Longrightarrow> stage_of S' (nthreads M) i = 2" "out M' = out M"
  shows "seen_ok S' M' (FM k R b j)"
proof -
  have "stage_of S' (nthreads M) i = 2 \<and> wcovered (log M' (F_DATA i)) (if b then cur M' 0 else pend M' 0)"
    if "i < length R" "R ! i" for i
  proof -
    from assms(1) that have st: "stage_of S (nthreads M) i = 2" and "wcovered (log M (F_DATA i)) (if b then cur M 0 else pend M 0)" by auto
    then have "wcovered (log M' (F_DATA i)) (if b then cur M 0 else pend M 0)" using assms(2) by blast
    then have "wcovered (log M' (F_DATA i)) (if b then cur M' 0 else pend M' 0)"
      using assms(3,4) wcovered_mono by (cases b) auto
    with assms(6) st show ?thesis by blast
  qed
  with assms show ?thesis by auto
qed

lemma fence_invI:
  assumes "\<not> ub M" "\<And>b. \<not> freed M b" "fence_plan S (nthreads M)" "\<And>i. i < 10 \<Longrightarrow> slot_ok i (stage_of S (nthreads M) i) M" "seen_ok S M (S 0)"
  shows "fence_inv S M"
  using assms by (auto simp: fence_inv_def)

text \<open>A step of the main thread that does not touch the elements.\<close>

lemma fence_main_upd:
  assumes inv: "fence_inv S M" and s: "S 0 = FM k R b j" and ok: "seen_ok S M' (FM k R' b' j')" "length R' \<le> 10" "j' \<le> 10"
    and M': "\<not> ub M'" "freed M' = freed M" "nthreads M' = nthreads M" "hist M' = hist M" "cell M' = cell M"
      "\<And>u. cur M u \<le> cur M' u" "\<And>i. atomic_only (log M (F_READY i)) \<Longrightarrow> atomic_only (log M' (F_READY i))"
      "\<And>i. log M' (F_DATA i) = log M (F_DATA i) \<or> (\<exists>n. stage_of S (nthreads M) i = 2 \<and> log M' (F_DATA i) = (0, n, NaRead) # log M (F_DATA i))"
  shows "fence_inv (S(0 := FM k R' b' j')) M'"
proof (rule fence_invI)
  note pl = fence_invD(3) [OF inv]
  show "fence_plan (S(0 := FM k R' b' j')) (nthreads M')" using pl s ok by (auto simp: M' fence_plan_def)
  show "slot_ok i (stage_of (S(0 := FM k R' b' j')) (nthreads M') i) M'" if "i < 10" for i
  proof -
    note sl = fence_invD(4) [OF inv that]
    from M'(8) [of i] show ?thesis
    proof
      assume l: "log M' (F_DATA i) = log M (F_DATA i)"
      with sl M'(7) [OF slot_okD(2) [OF sl]] wcovered_mono [OF _ M'(6)] show ?thesis
        unfolding stage_upd_main M'(3) slot_ok_def l by (auto simp: M')
    next
      assume "\<exists>n. stage_of S (nthreads M) i = 2 \<and> log M' (F_DATA i) = (0, n, NaRead) # log M (F_DATA i)"
      then obtain n where l: "stage_of S (nthreads M) i = 2" "log M' (F_DATA i) = (0, n, NaRead) # log M (F_DATA i)" by blast
      with sl M'(7) [OF slot_okD(2) [OF sl]] show ?thesis
        unfolding stage_upd_main M'(3) slot_ok_def l by (auto simp: M')
    qed
  qed
  show "seen_ok (S(0 := FM k R' b' j')) M' ((S(0 := FM k R' b' j')) 0)" using ok(1) by (simp add: stage_upd_main)
qed (use M' fence_invD(2) [OF inv] in auto)

lemma mexec_pend_mono: "mexec fx ch t i M = Some (r, M') \<Longrightarrow> u < nthreads M \<Longrightarrow> pend M u \<le> pend M' u"
  by (cases i) (auto simp: m_defs le_fun_def split: option.splits if_splits)

lemma fence_main_load:
  assumes inv: "fence_inv S M" and s: "S 0 = FM k R False 0" "length R < 10" and ld: "load_step 0 (F_READY (length R)) o1 ts M M' m"
    and pend: "pend M 0 \<le> pend M' 0"
  shows "fence_inv (S(0 := FM k (R @ [as_bool (mval m)]) False 0)) M'"
proof -
  let ?l = "F_READY (length R)"
  note sl = fence_invD(4) [OF inv s(2)] and acc = ld [unfolded load_step_def]
  from acc have h: "hist M ?l ts = Some m" "mview m \<le> pend M' 0" by auto
  from acc obtain n where l: "log M' = (log M)(?l := (0, n, AtRead) # log M ?l)" by (auto simp: accessed_def)
  from acc have "\<not> ub M'" using fence_invD(1,2) [OF inv] slot_okD(2) [OF sl] by auto
  moreover have "seen_ok S M' (FM k (R @ [as_bool (mval m)]) False 0)"
  proof -
    have "seen_ok S M' (FM k R False 0)"
      by (rule seen_ok_frame [OF fence_invD(5) [OF inv, unfolded s(1)]]) (use acc pend in \<open>auto simp: l accessedD\<close>)
    moreover have "stage_of S (nthreads M') (length R) = 2 \<and> wcovered (log M' (F_DATA (length R))) (pend M' 0)" if "as_bool (mval m)"
    proof -
      from that have v: "mval m \<noteq> VBool False" by auto
      from slot_okD(6,7) [OF sl h(1) v] h(2) acc show ?thesis by (auto simp: l accessedD intro: wcovered_mono)
    qed
    ultimately show ?thesis by (auto simp: nth_append less_Suc_eq)
  qed
  ultimately show ?thesis using acc l s(2) by (intro fence_main_upd [OF inv s(1)]) (auto simp: accessedD)
qed

lemma fence_main_read:
  assumes inv: "fence_inv S M" and s: "S 0 = FM k R True j" "i < length R" "R ! i"
  shows "cell M (F_DATA i) = square i" "fence_inv (S(0 := FM k R True j)) (m_read 0 (F_DATA i) M)"
proof -
  let ?M = "m_read 0 (F_DATA i) M"
  from fence_planD(3) [OF fence_invD(3) [OF inv]] s(1) have R: "length R \<le> 10" "j \<le> 10" by auto
  from fence_invD(5) [OF inv] s have st: "stage_of S (nthreads M) i = 2" and w: "wcovered (log M (F_DATA i)) (cur M 0)"
    unfolding s(1) by auto
  from R s have i: "i < 10" by simp
  note sl = fence_invD(4) [OF inv i]
  show c: "cell M (F_DATA i) = square i" using slot_okD(5) [OF sl] st by simp
  note acc = m_cell_step(1) [of 0 "F_DATA i" M, unfolded cell_step_def]
  from acc obtain n where l: "log ?M = (log M)(F_DATA i := (0, n, NaRead) # log M (F_DATA i))" by (auto simp: accessed_def)
  have "\<not> ub ?M" unfolding m_cell_step(4) using fence_invD(1,2) [OF inv] no_race_read_w [OF w slot_okD(1) [OF sl]] c by (simp add: square_def)
  moreover have "seen_ok S ?M (FM k R True j)"
    by (rule seen_ok_frame [OF fence_invD(5) [OF inv, unfolded s(1)]]) (use acc in \<open>auto simp: l accessedD\<close>)
  ultimately show "fence_inv (S(0 := FM k R True j)) ?M"
    using acc l st R by (intro fence_main_upd [OF inv s(1)]) (auto simp: accessedD m_cell_step)
qed

text \<open>The steps of a writer.\<close>

lemma fence_work_upd:
  assumes inv: "fence_inv S M" and i: "Suc i < nthreads M" "S (Suc i) = FW i p" "p \<le> 1"
    and slot: "slot_ok i (Suc p) M'"
    and M': "\<not> ub M'" "freed M' = freed M" "nthreads M' = nthreads M" "out M' = out M" "\<And>u. cur M u \<le> cur M' u" "pend M 0 \<le> pend M' 0"
      "\<And>x. x \<noteq> F_DATA i \<Longrightarrow> x \<noteq> F_READY i \<Longrightarrow> log M' x = log M x \<and> hist M' x = hist M x \<and> cell M' x = cell M x"
  shows "fence_inv (S(Suc i := FW i (Suc p))) M'"
proof (rule fence_invI)
  note pl = fence_invD(3) [OF inv]
  show "fence_plan (S(Suc i := FW i (Suc p))) (nthreads M')" using pl i by (auto simp: M' fence_plan_def)
  show "slot_ok j (stage_of (S(Suc i := FW i (Suc p))) (nthreads M') j) M'" if "j < 10" for j
  proof (cases "j = i")
    case False
    have "slot_ok j (stage_of S (nthreads M) j) M'"
      by (rule slot_ok_frame [OF fence_invD(4) [OF inv that]]) (use False M' in auto)
    with False i show ?thesis by (simp add: M' stage_upd_work)
  qed (use slot i in \<open>simp add: M' stage_upd_work\<close>)
  from fence_planD(3) [OF pl] obtain R b j where s: "S 0 = FM (nthreads M - 1) R b j" by blast
  have st: "stage_of S (nthreads M) i = p" using i by (simp add: stage_of_def)
  have lg: "log M' (F_DATA j) = log M (F_DATA j)" if "stage_of S (nthreads M) j = 2" for j
    using that st i(3) M'(7) [of "F_DATA j"] by (cases "j = i") auto
  have "seen_ok (S(Suc i := FW i (Suc p))) M' (S 0)" unfolding s
    by (rule seen_ok_frame [OF fence_invD(5) [OF inv, unfolded s]]) (use M' i st lg in \<open>auto simp: stage_upd_work split: if_splits\<close>)
  then show "seen_ok (S(Suc i := FW i (Suc p))) M' ((S(Suc i := FW i (Suc p))) 0)" by simp
qed (use M' fence_invD(2) [OF inv] in auto)

lemma fence_work_write:
  assumes inv: "fence_inv S M" and i: "Suc i < nthreads M" "S (Suc i) = FW i 0"
  shows "fence_inv (S(Suc i := FW i 1)) (m_write (Suc i) (F_DATA i) (square i) M)" (is "fence_inv _ ?M")
proof -
  have i10: "i < 10" using i(1) fence_planD(2) [OF fence_invD(3) [OF inv]] by simp
  have st: "stage_of S (nthreads M) i = 0" using i by (simp add: stage_of_def)
  note sl = fence_invD(4) [OF inv i10, unfolded st]
  note acc = m_cell_step(2) [of "Suc i" "F_DATA i" M "square i", unfolded cell_step_def]
  from acc obtain n where l: "log ?M = (log M)(F_DATA i := (Suc i, n, NaWrite) # log M (F_DATA i))" "n \<le> cur ?M (Suc i) (Clk (Suc i))"
    by (auto simp: accessed_def)
  have empty: "log M (F_DATA i) = []" using slot_okD(3) [OF sl] by simp
  then have "\<not> ub ?M" unfolding m_cell_step(5) using fence_invD(1,2) [OF inv] by (simp add: races_def)
  moreover have "slot_ok i (Suc 0) ?M"
    using sl l empty acc slot_okD(6) [OF sl] by (auto simp: slot_ok_def m_cell_step)
  ultimately have "fence_inv (S(Suc i := FW i (Suc 0))) ?M"
    using acc l by (intro fence_work_upd [OF inv i]) (auto simp: accessedD m_cell_step)
  then show ?thesis by simp
qed

lemma fence_work_store:
  assumes inv: "fence_inv S M" and i: "Suc i < nthreads M" "S (Suc i) = FW i 1" and rel: "releases o1" and v: "mval m = VBool True"
    and st: "store_step (Suc i) (F_READY i) o1 ts M M' m" and pend: "pend M 0 \<le> pend M' 0"
  shows "fence_inv (S(Suc i := FW i 2)) M'"
proof -
  have i10: "i < 10" using i(1) fence_planD(2) [OF fence_invD(3) [OF inv]] by simp
  have stg: "stage_of S (nthreads M) i = 1" using i by (simp add: stage_of_def)
  note sl = fence_invD(4) [OF inv i10, unfolded stg] and acc = st [unfolded store_step_def]
  from acc obtain n where l: "log M' = (log M)(F_READY i := (Suc i, n, AtWrite) # log M (F_READY i))" by (auto simp: accessed_def)
  from acc have h: "hist M' = (hist M)(F_READY i := (hist M (F_READY i))(ts \<mapsto> m))" "cur M' (Suc i) \<le> mview m" "cell M' = cell M"
    "cur M (Suc i) \<le> cur M' (Suc i)" using rel by (auto simp: accessedD)
  have "wcovered (log M (F_DATA i)) (mview m)" using slot_okD(4) [OF sl] h(2,4) by (auto intro: wcovered_mono order_trans)
  then have "slot_ok i (Suc 1) M'"
    using sl slot_okD(6) [OF sl] unfolding slot_ok_def l h(1,3) by auto
  moreover have "\<not> ub M'" using acc fence_invD(1,2) [OF inv] slot_okD(2) [OF sl] by auto
  ultimately have "fence_inv (S(Suc i := FW i (Suc 1))) M'"
    using acc l h pend by (intro fence_work_upd [OF inv i]) (auto simp: accessedD)
  then show ?thesis by (simp add: numeral_2_eq_2)
qed

section \<open>The interface\<close>

lemma fence_inv_alive: "fence_inv S M \<Longrightarrow> t < nthreads M \<Longrightarrow> S t \<noteq> FDead"
  by (erule fence_thread_cases [OF fence_invD(3)]) auto

lemma fence_spawn:
  assumes inv: "fence_inv S M" and s: "S 0 = FM k [] False 0" "k < 10"
  shows "fence_inv (S(0 := FM (Suc k) [] False 0, nthreads M := FW k 0)) (m_spawn 0 M)"
proof (rule fence_invI)
  note pl = fence_invD(3) [OF inv]
  have n: "nthreads M = Suc k" using fence_planD(1,3) [OF pl] s by auto
  have st: "stage_of (S(0 := FM (Suc k) [] False 0, nthreads M := FW k 0)) (nthreads (m_spawn 0 M)) i = stage_of S (nthreads M) i" for i
    using n by (auto simp: stage_of_def m_spawn_def)
  show "fence_plan (S(0 := FM (Suc k) [] False 0, nthreads M := FW k 0)) (nthreads (m_spawn 0 M))"
    using pl s n by (auto simp: fence_plan_def m_spawn_def less_Suc_eq)
  show "slot_ok i (stage_of (S(0 := FM (Suc k) [] False 0, nthreads M := FW k 0)) (nthreads (m_spawn 0 M)) i) (m_spawn 0 M)" if "i < 10" for i
  proof -
    note sl = fence_invD(4) [OF inv that]
    have "Suc i < nthreads M" if "stage_of S (nthreads M) i = 1" using that by (simp add: stage_of_def split: if_splits)
    with sl show ?thesis unfolding st by (auto simp: slot_ok_def m_spawn_def)
  qed
  show "seen_ok (S(0 := FM (Suc k) [] False 0, nthreads M := FW k 0)) (m_spawn 0 M) ((S(0 := FM (Suc k) [] False 0, nthreads M := FW k 0)) 0)"
    using fence_invD(5) [OF inv] s n by (auto simp: m_spawn_def)
qed (use fence_invD(1,2) [OF inv] in \<open>auto simp: m_spawn_def\<close>)

lemma fence_main_step:
  assumes inv: "fence_inv S M" and s: "S 0 = FM k R b j" and t: "0 < nthreads M"
    and ex: "mexec fx ch 0 i M = Some (r, M')" and tr: "fence_tr (S 0) i r s'"
  shows "fence_inv (upd_state fence_child S 0 i s' (nthreads M)) M'"
proof -
  have R: "length R \<le> 10" "j \<le> 10" using fence_planD(3) [OF fence_invD(3) [OF inv]] s by auto
  note pend = mexec_pend_mono [OF ex t] and ok = fence_invD(5) [OF inv, unfolded s]
  show ?thesis
  proof (cases i)
    case (ISpawn a)
    with tr s have k: "R = []" "b = False" "j = 0" "k < 10" "a = VUsize (of_nat k)" "s' = FM (Suc k) [] False 0" by auto
    then have "fence_child a = FW k 0" by (auto simp: fence_child_def unat_of_nat)
    with fence_spawn [OF inv, of k] s k ISpawn ex show ?thesis by (simp add: upd_state_def)
  next
    case (ILoad o1 l)
    with tr s have l: "b = False" "j = 0" "length R < 10" "l = F_READY (length R)" "s' = FM k (R @ [as_bool (rval r)]) False 0" by auto
    from ILoad ex obtain v where "m_load (ch_ts ch) 0 o1 l M = Some (v, M')" "r = RVal v" by auto
    moreover from m_load_step [OF this(1)] obtain m where "v = mval m" "load_step 0 l o1 (ch_ts ch) M M' m" by blast
    ultimately show ?thesis using fence_main_load [OF inv, of k R o1 "ch_ts ch" M' m] s l pend ILoad by (simp add: upd_state_simp)
  next
    case (IFence o1)
    with tr s have l: "b = False" "j = 0" "acquires o1" "s' = FM k R True 0" by auto
    from IFence ex l have M': "M' = M\<lparr>cur := (cur M)(0 := sup (cur M 0) (pend M 0))\<rparr>" by (simp add: m_fence_def)
    have "seen_ok S M' (FM k R True 0)" using ok l by (auto simp: M' intro: wcovered_mono)
    then have "fence_inv (S(0 := FM k R True 0)) M'"
      using fence_invD(1) [OF inv] R by (intro fence_main_upd [OF inv s]) (auto simp: M' le_fun_def)
    with IFence l show ?thesis by (simp add: upd_state_simp)
  next
    case (IRead l)
    with tr s obtain i' where l: "b = True" "i' < length R" "R ! i'" "l = F_DATA i'" "s' = FM k R True j" by auto
    with fence_main_read(2) [OF inv, of k R j i'] s IRead ex show ?thesis by (simp add: upd_state_simp)
  next
    case (IPrint v)
    with tr s obtain i' where l: "b = True" "j \<le> i'" "i' < 10" "v = data_line i' (square i')" "s' = FM k R True (Suc i')" by auto
    from IPrint ex have M': "M' = M\<lparr>out := out M @ [v]\<rparr>" by simp
    have "subseq (out M) (map (\<lambda>i. data_line i (square i)) [0..<i'])"
    proof -
      have "[0..<i'] = [0..<j] @ [j..<i']" using l(2) upt_add_eq_append [of 0 j "i' - j"] by simp
      then show ?thesis using ok by (simp add: subseq_rev_drop_many)
    qed
    then have "seen_ok S M' (FM k R True (Suc i'))" using ok l by (auto simp: M' list_emb_append_mono)
    then have "fence_inv (S(0 := FM k R True (Suc i'))) M'"
      using fence_invD(1) [OF inv] R l by (intro fence_main_upd [OF inv s]) (auto simp: M')
    with IPrint l show ?thesis by (simp add: upd_state_simp)
  next
    case ITau
    with tr have "S(0 := s') = S" by auto
    with ITau ex inv show ?thesis by (simp add: upd_state_simp)
  qed (use tr s in auto)
qed

lemma fence_work_step:
  assumes inv: "fence_inv S M" and i: "Suc i < nthreads M" "S (Suc i) = FW i p"
    and ex: "mexec fx ch (Suc i) ins M = Some (r, M')" and tr: "fence_tr (S (Suc i)) ins r s'"
  shows "fence_inv (upd_state fence_child S (Suc i) ins s' (nthreads M)) M'"
proof (cases ins)
  case (IWrite l v)
  with tr i ex fence_work_write [OF inv i(1)] show ?thesis by (auto simp: upd_state_simp)
next
  case (IStore o1 l v)
  with tr i have l: "p = 1" "l = F_READY i" "v = VBool True" "releases o1" "s' = FW i 2" by auto
  from IStore ex have "m_store (ch_ts ch) (Suc i) o1 l v M = Some M'" by auto
  from m_store_step [OF this] obtain m where "mval m = v" "store_step (Suc i) l o1 (ch_ts ch) M M' m" by blast
  with fence_work_store [OF inv i(1), of o1 m] l i IStore mexec_pend_mono [OF ex] show ?thesis by (auto simp: upd_state_simp)
next
  case ITau
  with tr have "S(Suc i := s') = S" by auto
  with ITau ex inv show ?thesis by (simp add: upd_state_simp)
qed (use tr i in auto)

interpretation fencep: protocol fence_pos fence_tr_ok fence_pan fence_child "\<lambda>_. True" fence_inv
proof
  show "fence_tr_ok s ITau r s" for s r by (simp add: fence_tr_ok_def)
  show "fence_pos (S t) i r" if inv: "fence_inv S M" and ex: "mexec fx ch t i M = Some (r, M')" and t: "t < nthreads M" for S M fx ch t i r M'
  proof (cases "(S t, i, r)" rule: fence_pos.cases)
    case (1 k R j l r')
    then have s: "S t = FM k R True j" "i = IRead l" by auto
    moreover have "t = 0" by (rule fence_thread_cases [OF fence_invD(3) [OF inv] t]) (use s in auto)
    ultimately show ?thesis using fence_main_read(1) [OF inv, of k R j] ex by auto
  qed auto
  show "fence_inv (upd_state fence_child S t i s' (nthreads M)) M'"
    if inv: "fence_inv S M" and t: "t < nthreads M" and ex: "mexec fx ch t i M = Some (r, M')" and tr: "fence_tr_ok (S t) i r s'"
    for S M t i fx ch r M' s'
  proof -
    from tr fence_inv_alive [OF inv t] have tr: "fence_tr (S t) i r s'" by (simp add: fence_tr_ok_def)
    from fence_invD(3) [OF inv] t show ?thesis
    proof (cases rule: fence_thread_cases)
      case (main R b j)
      with fence_main_step [OF inv main(2), of fx ch i r M' s'] t ex tr show ?thesis by simp
    next
      case (work j p)
      with fence_work_step [OF inv, of j p fx ch i r M' s'] t ex tr show ?thesis by simp
    qed
  qed
qed simp

section \<open>The program conforms\<close>

abbreviation fence_prog :: "('r \<Rightarrow> fst \<Rightarrow> bool) \<Rightarrow> fst \<Rightarrow> ('a, 'r) prog \<Rightarrow> bool" where
  "fence_prog Q s p \<equiv> conforms fence_pos fence_tr_ok fence_pan Q s p"

lemma fence_tr_alive [simp]: "fence_tr_ok (FM k R b j) i r s' = fence_tr (FM k R b j) i r s'"
  "fence_tr_ok (FW n p) i r s' = fence_tr (FW n p) i r s'"
  by (simp_all add: fence_tr_ok_def)

lemma fence_thread_ok: "fence_prog (\<lambda>_ _. True) (fence_child a) (fence_thread a)"
proof (cases "\<exists>i < 10. a = VUsize (of_nat i)")
  case True
  then obtain i where i: "i < 10" "a = VUsize (of_nat i)" by blast
  then have u: "unat (of_nat i :: 64 word) = i" by (simp add: unat_of_nat)
  have "i * i < 2 ^ 64" using i(1) mult_strict_mono [of i 10 i 10] by simp
  with i u show ?thesis
    by (auto simp: fence_child_def fence_thread_def some_calculation_def conf_simps seqp_def Let_def square_def)
next
  case False
  then have "fence_child a = FDead" by (simp add: fence_child_def)
  moreover have "fence_prog (\<lambda>_ _. True) FDead (p :: ('a, unit) prog)" for p
    by (rule conforms_dead) (auto simp: fence_tr_ok_def fence_pan_def)
  ultimately show ?thesis by simp
qed

lemma fence_spawn_all:
  "k + n \<le> 10 \<Longrightarrow> fence_prog (\<lambda>ts s. s = FM (k + n) [] False 0) (FM k [] False 0) (spawn_all (map (\<lambda>i. VUsize (of_nat i)) [k..<k + n]))"
proof (induction n arbitrary: k)
  case (Suc n)
  from Suc.IH [of "Suc k"] Suc.prems show ?case
    by (auto simp: conf_simps upt_conv_Cons elim!: conforms_bind simp del: upt_Suc)
qed simp

lemma load_flags_ok:
  "length R + n \<le> 10 \<Longrightarrow> fence_prog (\<lambda>vs s. s = FM k (R @ vs) False 0 \<and> length vs = n) (FM k R False 0)
     (load_flags [length R..<length R + n] :: ('a, bool list) prog)"
proof (induction n arbitrary: R)
  case (Suc n)
  have "fence_prog (\<lambda>vs s. s = FM k (R @ vs) False 0 \<and> length vs = Suc n) (FM k (R @ [b]) False 0)
      (bindp (load_flags [Suc (length R)..<Suc (length R + n)]) (\<lambda>vs. Ret (b # vs)) :: ('a, bool list) prog)" for b
    by (rule conforms_bind [where Q = "\<lambda>vs s. s = FM k (R @ b # vs) False 0 \<and> length vs = n"])
       (use Suc.IH [of "R @ [b]"] Suc.prems in \<open>auto simp del: upt_Suc\<close>)
  with Suc.prems show ?case by (simp add: conf_simps upt_conv_Cons del: upt_Suc)
qed simp

lemma print_data_ok:
  assumes "length R = 10"
  shows "fence_prog (\<lambda>_ _. True) (FM k R True 0) (for_range 0 10 (print_data R))"
proof -
  let ?J = "\<lambda>is s. \<exists>i j. i \<le> 10 \<and> is = [i..<10] \<and> j \<le> i \<and> s = FM k R True j"
  have "fence_prog (\<lambda>_. ?J []) (FM k R True 0) (for_range 0 10 (print_data R))" unfolding for_range_def
  proof (rule conforms_for_list)
    fix i "is" s assume "?J (i # is) s"
    then obtain j where i: "i < 10" "is = [Suc i..<10]" "j \<le> i" and s: "s = FM k R True j" by (auto simp: upt_eq_Cons_conv dest: sym)
    have "fence_prog (\<lambda>_ s. \<exists>j \<le> Suc i. s = FM k R True j) s (print_data R i)"
      using i assms unfolding s print_data_def by (auto simp: conf_simps)
    then show "fence_prog (\<lambda>_. ?J is) s (print_data R i)" by (rule conforms_mono) (use Suc_leI [OF i(1)] i(2) in blast)
  qed auto
  then show ?thesis by (rule conforms_mono) simp
qed

lemma fence_main_ok: "fence_prog (\<lambda>_ _. True) (FM 0 [] False 0) (fence_main :: ('a, unit) prog)"
  unfolding fence_main_def
proof (rule conforms_bind)
  show "fence_prog (\<lambda>_ s. s = FM 10 [] False 0) (FM 0 [] False 0) (spawn_all (map (\<lambda>i. VUsize (of_nat i)) [0..<10]) :: ('a, tid list) prog)"
    using fence_spawn_all [of 0 10] by simp
  fix ts s assume "s = FM 10 [] False 0"
  moreover have "fence_prog (\<lambda>_ _. True) (FM 10 [] False 0) (bindp (load_flags [0..<10]) (\<lambda>ready.
     if True \<in> set ready then seqp (fence Acquire) (for_range 0 10 (print_data ready)) else Ret ()) :: ('a, unit) prog)"
    by (rule conforms_bind [OF load_flags_ok [of "[]" 10 10, simplified]]) (auto simp: conf_simps seqp_def print_data_ok)
  ultimately show "fence_prog (\<lambda>_ _. True) s (seqp sleep (bindp (load_flags [0..<10]) (\<lambda>ready.
     if True \<in> set ready then seqp (fence Acquire) (for_range 0 10 (print_data ready)) else Ret ())) :: ('a, unit) prog)"
    by (simp add: sleep_def tau_def seqp_def conforms_Do_iff)
qed

text \<open>
  C35. Release stores with an acquire fence (03-08): no undefined behaviour, no panic, and the lines
  printed are some of the ten lines \<open>data{i} = i * i\<close>, in their order: an element
  whose flag has been seen is read without a race, and has been written.
\<close>

theorem fence_main_prints:
  fixes c :: "'a config"
  assumes "reach fx fence_thread (init_config fence_statics fence_main) c"
  shows "\<not> ub (mem c) \<and> (\<forall>t m. progs c t \<noteq> Some (Panic m)) \<and>
    subseq (out (mem c)) (map (\<lambda>i. data_line i (VU64 (of_nat (i * i)))) [0..<10])"
proof -
  have "hist (init_mem fence_statics :: 'a mem) (F_READY i) k = Some m \<Longrightarrow> i < 10 \<Longrightarrow> mval m = VBool False" for i k m
    by (auto simp: init_mem_def static_val_def fence_statics_def F_READY_def split: if_splits)
  then have "fence_inv (\<lambda>_. FM 0 [] False 0) (init_mem fence_statics :: 'a mem)"
    by (intro fence_invI) (auto simp: fence_plan_def slot_ok_def stage_of_def, simp_all add: init_mem_def)
  then have "fencep.safe (init_config fence_statics fence_main :: 'a config)" using fencep.safe_init [OF _ fence_main_ok] by blast
  from fencep.safe_reach [OF fence_thread_ok this assms] obtain S where inv: "fence_inv S (mem c)"
    and conf: "\<And>t p. progs c t = Some p \<Longrightarrow> t < nthreads (mem c) \<and> fence_prog (\<lambda>_ _. True) (S t) p"
    unfolding fencep.safe_def by blast
  have "progs c t \<noteq> Some (Panic m)" for t m
  proof
    assume "progs c t = Some (Panic m)"
    from conf [OF this] fence_inv_alive [OF inv, of t] show False by (simp add: fence_pan_def)
  qed
  moreover have "subseq (out (mem c)) (map (\<lambda>i. data_line i (VU64 (of_nat (i * i)))) [0..<10])"
  proof -
    from fence_planD(3) [OF fence_invD(3) [OF inv]] obtain R b j where s: "S 0 = FM (nthreads (mem c) - 1) R b j" "j \<le> 10" by blast
    then have "[0..<10] = [0..<j] @ [j..<10]" using upt_add_eq_append [of 0 j "10 - j"] by simp
    with fence_invD(5) [OF inv] s show ?thesis by (simp add: subseq_rev_drop_many square_def)
  qed
  ultimately show ?thesis using fence_invD(1) [OF inv] by blast
qed

theorem fence_main_prints_witness:
  "\<exists>c :: nat config. \<not> ub (mem c) \<and> finished c 0 \<and> out (mem c) = [data_line 1 (VU64 1), data_line 3 (VU64 9)]"
proof -
  obtain c :: "nat config" where c: "run (\<lambda>_ _ _ _. True) fence_thread
      (sched [(0, 0), (0, 0), (0, 0), (0, 0), (0, 0), (0, 0), (0, 0), (0, 0), (0, 0), (0, 0), (2, 0), (2, 0), (2, 1), (4, 0), (4, 0), (4, 1), (5, 0), (5, 0), (5, 1),
        (0, 0), (0, 0), (0, 1), (0, 0), (0, 1), (0, 0), (0, 0), (0, 0), (0, 0), (0, 0), (0, 0), (0, 0), (0, 0), (0, 0), (0, 0), (0, 0)])
      (init_config fence_statics fence_main) = Some c" "finished c 0" "out (mem c) = [data_line 1 (VU64 1), data_line 3 (VU64 9)]"
    by (simp add: run_simps upt_rec fence_main_def fence_thread_def some_calculation_def print_data_def for_range_def data_line_def
      F_DATA_def F_READY_def fence_statics_def Let_def)
  from fence_main_prints [OF run_reach [OF c(1)]] c(2-) show ?thesis by blast
qed

end
