(* ===== verification/Lazy_Ptr.thy ===== *)
theory Lazy_Ptr
  imports Protocol Access
begin

text \<open>
  Lazy initialisation behind an atomic pointer (03-05-02): threads that find the pointer null
  allocate the data and race to publish it with a compare-and-exchange; the losers free what
  they allocated and use the data of the winner.
\<close>

section \<open>The code\<close>

definition LPTR :: loc where "LPTR = Loc 0 0"

definition generate_data :: "'a val list" where
  "generate_data = [VI32 42]"

definition get_data :: "('a, nat) prog" where
  "get_data =
     bindp (load LPTR Acquire) (\<lambda>v.
     case as_ptr v of
       None \<Rightarrow>
         bindp (alloc generate_data) (\<lambda>p.
         bindp (compare_exchange LPTR (VPtr None) (VPtr (Some p)) Release Acquire) (\<lambda>r.
         case r of
           Inl e \<Rightarrow> seqp (dealloc p) (Ret (the (as_ptr e)))
         | Inr _ \<Rightarrow> Ret p))
     | Some p \<Rightarrow> Ret p)"

definition data_thread :: "('a, unit) prog" where
  "data_thread = seqp get_data (Ret ())"

definition data_main :: "('a, unit) prog" where
  "data_main = bindp (spawn_all (replicate 100 VUnit)) join_all"

text \<open>Any threads that get the data again and again, and print the field \<open>foo\<close> behind the reference.\<close>

definition print_foo :: "('a, unit) prog" where
  "print_foo = bindp get_data (\<lambda>p. bindp (read_cell (Loc p 0)) println)"

fun data_client :: "'a val list \<Rightarrow> ('a, unit) prog" where
  "data_client [] = print_foo"
| "data_client (a # as) = bindp (spawn a) (\<lambda>_. seqp print_foo (data_client as))"

section \<open>The protocol\<close>

text \<open>
  A thread may know the published block (\<open>Lz (Some b)\<close>), own a block that it has allocated
  (\<open>LzBox\<close>), or have lost the race with it (\<open>LzFree b b'\<close>).
\<close>

datatype lzst = Lz "nat option" | LzBox nat | LzFree nat nat

fun box :: "lzst \<Rightarrow> nat option" where
  "box (Lz k) = None"
| "box (LzBox b) = Some b"
| "box (LzFree b b') = Some b"

fun knows :: "lzst \<Rightarrow> nat option" where
  "knows (Lz k) = k"
| "knows (LzBox b) = None"
| "knows (LzFree b b') = Some b'"

fun lz_tr :: "lzst \<Rightarrow> 'a instr \<Rightarrow> 'a resp \<Rightarrow> lzst \<Rightarrow> bool" where
  "lz_tr s (ILoad o1 l) r s' = (\<exists>k. s = Lz k \<and> acquires o1 \<and> l = LPTR \<and>
     s' = (case as_ptr (rval r) of None \<Rightarrow> s | Some b \<Rightarrow> Lz (Some b)))"
| "lz_tr s (IAlloc vs) r s' = (s = Lz None \<and> vs = generate_data \<and> (\<exists>b. rval r = VPtr (Some b) \<and> s' = LzBox b))"
| "lz_tr s (IRmw os of1 w l f) r s' = (\<exists>b. s = LzBox b \<and> l = LPTR \<and> releases os \<and> acquires of1 \<and> \<not> w \<and>
     f = (\<lambda>v. if v = VPtr None then Some (VPtr (Some b)) else None) \<and>
     (if rok r then s' = Lz (Some b) else \<exists>b'. rval r = VPtr (Some b') \<and> s' = LzFree b b'))"
| "lz_tr s (IFree b) r s' = (\<exists>b'. s = LzFree b b' \<and> s' = Lz (Some b'))"
| "lz_tr s (IRead l) r s' = (\<exists>b. s = Lz (Some b) \<and> l = Loc b 0 \<and> s' = s)"
| "lz_tr s (IPrint v) r s' = (v = VI32 42 \<and> s' = s)"
| "lz_tr s (ISpawn a) r s' = (s' = s)"
| "lz_tr s (IJoin u) r s' = (s' = s)"
| "lz_tr s ITau r s' = (s' = s)"
| "lz_tr s i r s' = False"

fun lz_pos :: "lzst \<Rightarrow> 'a instr \<Rightarrow> 'a resp \<Rightarrow> bool" where
  "lz_pos s (ILoad o1 l) r = (\<forall>b. s = Lz (Some b) \<and> l = LPTR \<longrightarrow> rval r = VPtr (Some b))"
| "lz_pos s (IAlloc vs) r = (\<exists>b. rval r = VPtr (Some b))"
| "lz_pos s (IRmw os of1 w l f) r = (\<forall>b. s = LzBox b \<and> l = LPTR \<and> \<not> w \<and>
     f = (\<lambda>v. if v = VPtr None then Some (VPtr (Some b)) else None) \<and> \<not> rok r \<longrightarrow> (\<exists>b'. rval r = VPtr (Some b')))"
| "lz_pos s (IRead l) r = (\<forall>b. s = Lz (Some b) \<and> l = Loc b 0 \<longrightarrow> rval r = VI32 42)"
| "lz_pos s i r = True"

section \<open>The invariant\<close>

text \<open>The pointer is null until the second message, which publishes the block \<open>pub M\<close>.\<close>

definition pub :: "'a mem \<Rightarrow> nat option" where
  "pub M = (case hist M LPTR 1 of None \<Rightarrow> None | Some m \<Rightarrow> as_ptr (mval m))"

definition block_ok :: "nat \<Rightarrow> 'a mem \<Rightarrow> bool" where
  "block_ok b M \<longleftrightarrow> 0 < b \<and> b < nblocks M \<and> \<not> freed M b \<and> bsize M b = 1 \<and> cell M (Loc b 0) = VI32 42 \<and>
     kinds_in {NaRead, NaWrite} (log M (Loc b 0))"

definition lz_hist :: "'a mem \<Rightarrow> bool" where
  "lz_hist M \<longleftrightarrow> (\<exists>m. hist M LPTR 0 = Some m \<and> mval m = VPtr None) \<and> (\<forall>k. 1 < k \<longrightarrow> hist M LPTR k = None) \<and>
     (\<forall>m. hist M LPTR 1 = Some m \<longrightarrow> (\<exists>b. mval m = VPtr (Some b) \<and> block_ok b M \<and> wcovered (log M (Loc b 0)) (mview m)))"

definition lz_thread :: "lzst \<Rightarrow> tid \<Rightarrow> 'a mem \<Rightarrow> bool" where
  "lz_thread s t M \<longleftrightarrow>
     (\<forall>b. knows s = Some b \<longrightarrow> pub M = Some b \<and> wcovered (log M (Loc b 0)) (cur M t) \<and> 1 \<le> cur M t (Ts LPTR)) \<and>
     (\<forall>b. box s = Some b \<longrightarrow> block_ok b M \<and> covered (log M (Loc b 0)) (cur M t) \<and> pub M \<noteq> Some b)"

text \<open>No block is lost: it has been freed, is published or has an owner.\<close>

definition accounted :: "(tid \<Rightarrow> lzst) \<Rightarrow> 'a mem \<Rightarrow> bool" where
  "accounted S M \<longleftrightarrow> (\<forall>b. 0 < b \<and> b < nblocks M \<longrightarrow> freed M b \<or> pub M = Some b \<or> (\<exists>t < nthreads M. box (S t) = Some b))"

definition lz_inv :: "(tid \<Rightarrow> lzst) \<Rightarrow> 'a mem \<Rightarrow> bool" where
  "lz_inv S M \<longleftrightarrow> \<not> ub M \<and> \<not> freed M 0 \<and> 0 < nblocks M \<and> atomic_only (log M LPTR) \<and> lz_hist M \<and>
     (\<forall>t < nthreads M. lz_thread (S t) t M) \<and>
     (\<forall>t < nthreads M. \<forall>u < nthreads M. \<forall>b. t \<noteq> u \<and> box (S t) = Some b \<longrightarrow> box (S u) \<noteq> Some b) \<and>
     set (out M) \<subseteq> {VI32 42} \<and> (\<forall>b. nblocks M \<le> b \<longrightarrow> \<not> freed M b) \<and> accounted S M"

lemma lz_invD:
  assumes "lz_inv S M"
  shows "\<not> ub M" "\<not> freed M 0" "0 < nblocks M" "atomic_only (log M LPTR)" "lz_hist M" "t < nthreads M \<Longrightarrow> lz_thread (S t) t M"
    "t < nthreads M \<Longrightarrow> u < nthreads M \<Longrightarrow> t \<noteq> u \<Longrightarrow> box (S t) = Some b \<Longrightarrow> box (S u) \<noteq> Some b" "set (out M) \<subseteq> {VI32 42}" "nblocks M \<le> b \<Longrightarrow> \<not> freed M b" "accounted S M"
  using assms unfolding lz_inv_def by blast+

lemma lz_threadD:
  assumes "lz_thread s t M"
  shows "knows s = Some b \<Longrightarrow> pub M = Some b" "knows s = Some b \<Longrightarrow> wcovered (log M (Loc b 0)) (cur M t)" "knows s = Some b \<Longrightarrow> 1 \<le> cur M t (Ts LPTR)"
    "box s = Some b \<Longrightarrow> block_ok b M" "box s = Some b \<Longrightarrow> covered (log M (Loc b 0)) (cur M t)" "box s = Some b \<Longrightarrow> pub M \<noteq> Some b"
  using assms unfolding lz_thread_def by blast+

lemma lz_histD:
  assumes "lz_hist M"
  shows "\<exists>m. hist M LPTR 0 = Some m \<and> mval m = VPtr None" "hist M LPTR k = Some m \<Longrightarrow> k = 0 \<or> k = 1"
    "hist M LPTR 0 = Some m \<Longrightarrow> mval m = VPtr None"
    "hist M LPTR 1 = Some m \<Longrightarrow> \<exists>b. mval m = VPtr (Some b) \<and> block_ok b M \<and> wcovered (log M (Loc b 0)) (mview m) \<and> pub M = Some b"
    "pub M = Some b \<Longrightarrow> \<exists>m. hist M LPTR 1 = Some m \<and> mval m = VPtr (Some b) \<and> block_ok b M \<and> wcovered (log M (Loc b 0)) (mview m)"
proof -
  note h = assms [unfolded lz_hist_def]
  show "\<exists>m. hist M LPTR 0 = Some m \<and> mval m = VPtr None" using h by blast
  show "hist M LPTR k = Some m \<Longrightarrow> k = 0 \<or> k = 1" using h by (cases "1 < k") auto
  show "hist M LPTR 0 = Some m \<Longrightarrow> mval m = VPtr None" using h by auto
  show 4: "hist M LPTR 1 = Some m \<Longrightarrow> \<exists>b. mval m = VPtr (Some b) \<and> block_ok b M \<and> wcovered (log M (Loc b 0)) (mview m) \<and> pub M = Some b" for m
    using h by (fastforce simp: pub_def)
  show "pub M = Some b \<Longrightarrow> \<exists>m. hist M LPTR 1 = Some m \<and> mval m = VPtr (Some b) \<and> block_ok b M \<and> wcovered (log M (Loc b 0)) (mview m)"
    using 4 by (fastforce simp: pub_def split: option.splits)
qed

text \<open>A read of the pointer sees null, or the published block.\<close>

lemma lz_load:
  assumes inv: "lz_inv S M" and t: "t < nthreads M" and ld: "load_step t LPTR o1 ts M M' m" and "acquires o1"
  shows "mval m = VPtr None \<and> knows (S t) = None \<or>
    (\<exists>b. mval m = VPtr (Some b) \<and> pub M = Some b \<and> wcovered (log M (Loc b 0)) (cur M' t) \<and> 1 \<le> cur M' t (Ts LPTR))"
proof -
  note acc = ld [unfolded load_step_def] and h = lz_invD(5) [OF inv]
  from acc have ts: "hist M LPTR ts = Some m" "cur M t (Ts LPTR) \<le> ts" "ts \<le> cur M' t (Ts LPTR)" "mview m \<le> cur M' t" using assms(4) by auto
  from lz_histD(2) [OF h ts(1)] show ?thesis
  proof
    assume "ts = 0"
    with ts lz_histD(3) [OF h] lz_threadD(3) [OF lz_invD(6) [OF inv t]] show ?thesis by (cases "knows (S t)") fastforce+
  next
    assume "ts = 1"
    with ts lz_histD(4) [OF h] wcovered_mono [OF _ ts(4)] show ?thesis by fastforce
  qed
qed

section \<open>Steps\<close>

definition wkeeps :: "nat \<Rightarrow> 'a mem \<Rightarrow> 'a mem \<Rightarrow> bool" where
  "wkeeps b M M' \<longleftrightarrow> (\<forall>V. wcovered (log M (Loc b 0)) V \<longrightarrow> wcovered (log M' (Loc b 0)) V)"

lemma lz_thread_keep:
  assumes th: "lz_thread s u M" and cur: "cur M u \<le> cur M' u" and pub: "knows s \<noteq> None \<Longrightarrow> pub M' = pub M"
    and k: "\<And>b. knows s = Some b \<Longrightarrow> wkeeps b M M'"
    and b: "\<And>b. box s = Some b \<Longrightarrow> block_ok b M' \<and> log M' (Loc b 0) = log M (Loc b 0) \<and> pub M' \<noteq> Some b"
  shows "lz_thread s u M'"
  unfolding lz_thread_def
proof (intro conjI allI impI)
  fix x assume kx: "knows s = Some x"
  with lz_threadD(1) [OF th] pub show "pub M' = Some x" by simp
  show "wcovered (log M' (Loc x 0)) (cur M' u)"
    using lz_threadD(2) [OF th kx] k [OF kx] wcovered_mono [OF _ cur] unfolding wkeeps_def by blast
  show "1 \<le> cur M' u (Ts LPTR)" using lz_threadD(3) [OF th kx] view_le_apply [OF cur, of "Ts LPTR"] by simp
next
  fix x assume bx: "box s = Some x"
  from b [OF bx] show "block_ok x M'" "pub M' \<noteq> Some x" by auto
  from b [OF bx] lz_threadD(5) [OF th bx] covered_mono [OF _ cur] show "covered (log M' (Loc x 0)) (cur M' u)" by auto
qed

lemma lz_hist_keep:
  assumes h: "lz_hist M" and "hist M' LPTR = hist M LPTR" and "\<And>b. pub M = Some b \<Longrightarrow> block_ok b M' \<and> wkeeps b M M'"
  shows "lz_hist M'" "pub M' = pub M"
proof -
  show "pub M' = pub M" using assms(2) by (simp add: pub_def)
  show "lz_hist M'" unfolding lz_hist_def assms(2)
  proof (intro conjI allI impI)
    fix m assume "hist M LPTR 1 = Some m"
    from lz_histD(4) [OF h this] assms(3) show "\<exists>b. mval m = VPtr (Some b) \<and> block_ok b M' \<and> wcovered (log M' (Loc b 0)) (mview m)"
      unfolding wkeeps_def by blast
  qed (use h in \<open>auto simp: lz_hist_def\<close>)
qed

lemma lz_upd:
  assumes inv: "lz_inv S M" and t: "t < nthreads M"
    and M': "\<not> ub M'" "\<not> freed M' 0" "nblocks M \<le> nblocks M'" "atomic_only (log M' LPTR)" "nthreads M' = nthreads M" "set (out M') \<subseteq> {VI32 42}" "\<And>b. nblocks M' \<le> b \<Longrightarrow> \<not> freed M' b"
    and h: "lz_hist M'" and th: "lz_thread s' t M'" and oth: "\<And>u. u < nthreads M \<Longrightarrow> u \<noteq> t \<Longrightarrow> lz_thread (S u) u M'"
    and ac: "\<And>b. 0 < b \<Longrightarrow> b < nblocks M \<Longrightarrow> freed M' b \<or> freed M' b = freed M b \<and> (pub M = Some b \<longrightarrow> pub M' = Some b) \<and>
      (box (S t) = Some b \<longrightarrow> box s' = Some b \<or> pub M' = Some b)"
    "\<And>b. nblocks M \<le> b \<Longrightarrow> b < nblocks M' \<Longrightarrow> box s' = Some b"
    and bx: "\<And>b u. box s' = Some b \<Longrightarrow> u < nthreads M \<Longrightarrow> u \<noteq> t \<Longrightarrow> box (S u) \<noteq> Some b"
  shows "lz_inv (S(t := s')) M'"
  unfolding lz_inv_def M'(5)
proof (intro conjI allI impI)
  show "accounted (S(t := s')) M'" unfolding accounted_def M'(5)
  proof (intro allI impI)
    fix b assume b: "0 < b \<and> b < nblocks M'"
    show "freed M' b \<or> pub M' = Some b \<or> (\<exists>u < nthreads M. box ((S(t := s')) u) = Some b)"
    proof (cases "b < nblocks M")
      case True
      with b lz_invD(10) [OF inv] have "freed M b \<or> pub M = Some b \<or> (\<exists>u < nthreads M. box (S u) = Some b)" by (simp add: accounted_def)
      with ac(1) [of b] True b t show ?thesis by (metis fun_upd_other fun_upd_same)
    next
      case False
      with ac(2) [of b] b t show ?thesis by (metis fun_upd_same not_less)
    qed
  qed
next
  show "lz_thread ((S(t := s')) u) u M'" if "u < nthreads M" for u using that th oth by simp
  show "box ((S(t := s')) v) \<noteq> Some b" if "u < nthreads M" "v < nthreads M" "u \<noteq> v \<and> box ((S(t := s')) u) = Some b" for u v b
    using that bx [of b] lz_invD(7) [OF inv that(1,2)] by (metis fun_upd_other fun_upd_same)
qed (use M' h lz_invD(3) [OF inv] in auto)

text \<open>A step that changes at most the block \<open>x\<close>, which no other thread owns.\<close>

lemma lz_frame:
  assumes inv: "lz_inv S M" and hL: "hist M' LPTR = hist M LPTR" and cur: "\<And>u. cur M u \<le> cur M' u"
    and old: "\<And>b. block_ok b M \<Longrightarrow> b \<noteq> x \<Longrightarrow> block_ok b M' \<and> log M' (Loc b 0) = log M (Loc b 0)"
    and x: "pub M = Some x \<Longrightarrow> block_ok x M' \<and> wkeeps x M M'"
  shows "lz_hist M'" "pub M' = pub M" "u < nthreads M \<Longrightarrow> box (S u) \<noteq> Some x \<Longrightarrow> lz_thread (S u) u M'"
proof -
  have kp: "block_ok b M' \<and> wkeeps b M M'" if "pub M = Some b" for b
    using old [of b] lz_histD(5) [OF lz_invD(5) [OF inv] that] x that by (cases "b = x") (auto simp: wkeeps_def)
  from lz_hist_keep [OF lz_invD(5) [OF inv] hL kp] show h: "lz_hist M'" "pub M' = pub M" by auto
  assume u: "u < nthreads M" "box (S u) \<noteq> Some x"
  note th = lz_invD(6) [OF inv u(1)]
  show "lz_thread (S u) u M'"
  proof (rule lz_thread_keep [OF th cur])
    show "wkeeps b M M'" if "knows (S u) = Some b" for b using kp lz_threadD(1) [OF th that] by blast
    show "block_ok b M' \<and> log M' (Loc b 0) = log M (Loc b 0) \<and> pub M' \<noteq> Some b" if "box (S u) = Some b" for b
      using old [OF lz_threadD(4) [OF th that]] lz_threadD(6) [OF th that] h(2) u(2) that by auto
  qed (use h in simp)
qed

lemma block_0: "block_ok b M \<Longrightarrow> b \<noteq> 0" "pub M = Some b \<Longrightarrow> lz_inv S M \<Longrightarrow> b \<noteq> 0" "box (S t) = Some b \<Longrightarrow> t < nthreads M \<Longrightarrow> lz_inv S M \<Longrightarrow> b \<noteq> 0"
proof -
  show "block_ok b M \<Longrightarrow> b \<noteq> 0" for b by (simp add: block_ok_def)
  then show "pub M = Some b \<Longrightarrow> lz_inv S M \<Longrightarrow> b \<noteq> 0" "box (S t) = Some b \<Longrightarrow> t < nthreads M \<Longrightarrow> lz_inv S M \<Longrightarrow> b \<noteq> 0"
    using lz_histD(5) [OF lz_invD(5)] lz_threadD(4) [OF lz_invD(6)] by blast+
qed

text \<open>Steps that concern no block.\<close>

lemma lz_quiet:
  assumes inv: "lz_inv S M" and t: "t < nthreads M" and M': "\<not> ub M'" "freed M' = freed M" "nblocks M' = nblocks M" "bsize M' = bsize M"
      "cell M' = cell M" "hist M' = hist M" "nthreads M' = nthreads M" "set (out M') \<subseteq> {VI32 42}" "\<And>u. cur M u \<le> cur M' u"
    and log: "\<And>b. 0 < b \<Longrightarrow> log M' (Loc b 0) = log M (Loc b 0)" "atomic_only (log M' LPTR)"
    and s': "box s' = box (S t)" "\<And>b. knows s' = Some b \<Longrightarrow> knows (S t) = Some b \<or>
      pub M = Some b \<and> wcovered (log M (Loc b 0)) (cur M' t) \<and> 1 \<le> cur M' t (Ts LPTR)"
  shows "lz_inv (S(t := s')) M'"
proof -
  have old: "block_ok b M' \<and> log M' (Loc b 0) = log M (Loc b 0)" if "block_ok b M" "b \<noteq> 0" for b
    using that log(1) by (simp add: block_ok_def M')
  have hL: "hist M' LPTR = hist M LPTR" by (simp add: M')
  note fr = lz_frame [OF inv hL M'(9) old]
  have h: "lz_hist M'" "pub M' = pub M" using fr(1,2) block_0(2) [OF _ inv] by blast+
  have all: "lz_thread (S u) u M'" if "u < nthreads M" for u
    using fr(3) [OF _ _ _ that] block_0(2) [OF _ inv] block_0(3) [OF _ that inv] by blast
  have "lz_thread s' t M'"
    unfolding lz_thread_def s'(1)
  proof (intro conjI allI impI)
    fix b assume "box (S t) = Some b"
    with lz_threadD(4-6) [OF all [OF t]] show "block_ok b M'" "covered (log M' (Loc b 0)) (cur M' t)" "pub M' \<noteq> Some b" by auto
  next
    fix b assume "knows s' = Some b"
    from s'(2) [OF this] lz_threadD(1-3) [OF all [OF t], of b] log(1) [of b] h(2) block_0(2) [OF _ inv, of b]
    show "pub M' = Some b" "wcovered (log M' (Loc b 0)) (cur M' t)" "1 \<le> cur M' t (Ts LPTR)" by auto
  qed
  moreover have "box (S u) \<noteq> Some b" if "box s' = Some b" "u < nthreads M" "u \<noteq> t" for b u
    using lz_invD(7) [OF inv t that(2)] that s'(1) by metis
  ultimately show ?thesis
    by (intro lz_upd [OF inv t]) (use M' log(2) h all s'(1) lz_invD(2,9) [OF inv] in simp_all)
qed

lemma lz_alloc:
  assumes inv: "lz_inv S M" and t: "t < nthreads M" and s: "S t = Lz None"
  shows "lz_inv (S(t := LzBox (nblocks M))) (m_alloc t generate_data M)" (is "lz_inv _ ?M")
proof -
  let ?n = "nblocks M"
  have n0: "0 < ?n" using lz_invD(3) [OF inv] .
  have fresh: "\<not> freed M ?n" using lz_invD(9) [OF inv] by simp
  have hL: "hist ?M LPTR = hist M LPTR" using n0 by (simp add: m_alloc_def Let_def LPTR_def)
  have cur: "cur M u \<le> cur ?M u" for u by (auto simp: m_alloc_def Let_def le_fun_def)
  have old: "block_ok b ?M \<and> log ?M (Loc b 0) = log M (Loc b 0)" if "block_ok b M" "b \<noteq> ?n" for b
    using that by (auto simp: block_ok_def m_alloc_def Let_def)
  have new: "pub M \<noteq> Some ?n" "u < nthreads M \<Longrightarrow> box (S u) \<noteq> Some ?n" for u
    using lz_histD(5) [OF lz_invD(5) [OF inv], of ?n] lz_threadD(4) [OF lz_invD(6) [OF inv], of u ?n] by (auto simp: block_ok_def)
  note fr = lz_frame [OF inv hL cur old]
  have "lz_hist ?M" "pub ?M = pub M" using fr(1,2) new(1) by blast+
  moreover have "lz_thread (S u) u ?M" if "u < nthreads M" for u using fr(3) [OF _ _ _ that] new that by blast
  moreover have "lz_thread (LzBox ?n) t ?M"
    using n0 new(1) calculation(2) fresh by (auto simp: lz_thread_def block_ok_def generate_data_def m_alloc_def Let_def)
  moreover have "ub ?M = ub M" "freed ?M = freed M" "nblocks ?M = Suc ?n" "nthreads ?M = nthreads M" "out ?M = out M" "log ?M LPTR = log M LPTR"
    using n0 by (simp_all add: m_alloc_def Let_def LPTR_def)
  moreover have "box (S t) = None" using s by simp
  ultimately show ?thesis
    by (intro lz_upd [OF inv t]) (use lz_invD(1,2,4,8,9) [OF inv] new(2) in \<open>auto simp del: box.simps(1)\<close>)
qed

lemma lz_read:
  assumes inv: "lz_inv S M" and t: "t < nthreads M" and s: "S t = Lz (Some b)"
  shows "cell M (Loc b 0) = VI32 42" "lz_inv S (m_read t (Loc b 0) M)" (is "lz_inv _ ?M")
proof -
  note th = lz_invD(6) [OF inv t, unfolded s]
  have pub: "pub M = Some b" and w: "wcovered (log M (Loc b 0)) (cur M t)" using lz_threadD(1,2) [OF th] by auto
  with lz_histD(5) [OF lz_invD(5) [OF inv]] have blk: "block_ok b M" by blast
  then show c: "cell M (Loc b 0) = VI32 42" by (simp add: block_ok_def)
  note acc = m_cell_step(1) [of t "Loc b 0" M, unfolded cell_step_def]
  from acc obtain n where l: "log ?M = (log M)(Loc b 0 := (t, n, NaRead) # log M (Loc b 0))" by (auto simp: accessed_def)
  have ub: "\<not> ub ?M" unfolding m_cell_step(4) using lz_invD(1) [OF inv] blk no_race_read_w [OF w] c by (auto simp: block_ok_def)
  have b': "block_ok b ?M" "wkeeps b M ?M" using blk acc l by (auto simp: block_ok_def wkeeps_def accessedD m_cell_step)
  have old: "block_ok x ?M \<and> log ?M (Loc x 0) = log M (Loc x 0)" if "block_ok x M" "x \<noteq> b" for x
    using that acc by (auto simp: block_ok_def l accessedD m_cell_step)
  have nbox: "box (S u) \<noteq> Some b" if "u < nthreads M" for u using lz_threadD(6) [OF lz_invD(6) [OF inv that]] pub by blast
  have hL: "hist ?M LPTR = hist M LPTR" and cur: "cur M u \<le> cur ?M u" for u using acc by (auto simp: accessedD)
  note fr = lz_frame [OF inv hL cur old conjI [OF b']]
  have "box (S t) = None" using s by simp
  then have "lz_inv (S(t := S t)) ?M"
    using fr nbox t ub lz_invD(2,4,8,9) [OF inv] lz_invD(7) [OF inv t] acc block_0(1) [OF blk]
    by (intro lz_upd [OF inv t]) (auto simp: accessedD l LPTR_def)
  then show "lz_inv S ?M" by simp
qed

lemma lz_free:
  assumes inv: "lz_inv S M" and t: "t < nthreads M" and s: "S t = LzFree b b'"
  shows "lz_inv (S(t := Lz (Some b'))) (m_free t b M)" (is "lz_inv _ ?M")
proof -
  note th = lz_invD(6) [OF inv t, unfolded s]
  have blk: "block_ok b M" and cov: "covered (log M (Loc b 0)) (cur M t)" and np: "pub M \<noteq> Some b" and p: "pub M = Some b'"
    using lz_threadD [OF th] by auto
  have M': "hist ?M = hist M" "cur ?M = cur M" "log ?M = log M" "nblocks ?M = nblocks M" "nthreads ?M = nthreads M" "out ?M = out M"
    "freed ?M = (freed M)(b := True)" by (simp_all add: m_free_def)
  have ub: "\<not> ub ?M" using lz_invD(1) [OF inv] blk cov by (simp add: m_free_def block_ok_def)
  have old: "block_ok x ?M \<and> log ?M (Loc x 0) = log M (Loc x 0)" if "block_ok x M" "x \<noteq> b" for x
    using that by (simp add: block_ok_def m_free_def)
  have hL: "hist ?M LPTR = hist M LPTR" and cur: "cur M u \<le> cur ?M u" for u by (simp_all add: M')
  note fr = lz_frame [OF inv hL cur old]
  have h: "lz_hist ?M" "pub ?M = pub M" using fr(1,2) np by blast+
  have nbox: "box (S u) \<noteq> Some b" if "u < nthreads M" "u \<noteq> t" for u
    using lz_invD(7) [OF inv t that(1)] that(2) s by auto
  have oth: "lz_thread (S u) u ?M" if "u < nthreads M" "u \<noteq> t" for u using fr(3) [OF _ _ _ that(1)] np nbox [OF that] by blast
  have "lz_thread (Lz (Some b')) t ?M" using th h(2) by (simp add: lz_thread_def M')
  then show ?thesis
    using h oth ub lz_invD(2,4,8,9) [OF inv] blk by (intro lz_upd [OF inv t]) (auto simp: M' s block_ok_def)
qed

lemma lz_publish:
  assumes inv: "lz_inv S M" and t: "t < nthreads M" and s: "S t = LzBox b" and rel: "releases os"
    and st: "rmw_step t LPTR os ts M M' m m'" and m: "mval m = VPtr None" "mval m' = VPtr (Some b)"
  shows "lz_inv (S(t := Lz (Some b))) M'"
proof -
  note acc = st [unfolded rmw_step_def] and hi = lz_invD(5) [OF inv] and th = lz_invD(6) [OF inv t, unfolded s]
  have blk: "block_ok b M" and cov: "covered (log M (Loc b 0)) (cur M t)" using lz_threadD(4,5) [OF th] by auto
  from acc have ts: "hist M LPTR ts = Some m" "hist M LPTR (Suc ts) = None" and hL: "hist M' = (hist M)(LPTR := (hist M LPTR)(Suc ts \<mapsto> m'))"
    and vw: "cur M' t \<le> mview m'" and cur: "cur M u \<le> cur M' u" and seen: "Suc ts \<le> cur M' t (Ts LPTR)" for u using rel by (auto simp: accessedD)
  have "ts = 0" using lz_histD(2) [OF hi ts(1)] lz_histD(4) [OF hi, of m] ts(1) m(1) by auto
  with ts hL have h1: "hist M LPTR 1 = None" "hist M' LPTR = (hist M LPTR)(1 \<mapsto> m')" by auto
  then have pub: "pub M = None" "pub M' = Some b" using m(2) by (auto simp: pub_def)
  from acc obtain n where l: "log M' = (log M)(LPTR := (t, n, AtWrite) # log M LPTR)" by (auto simp: accessed_def)
  have lg: "log M' (Loc x 0) = log M (Loc x 0)" if "0 < x" for x using that by (simp add: l LPTR_def)
  have old: "block_ok x M'" if "block_ok x M" for x using that lg acc by (auto simp: block_ok_def accessedD)
  have b0: "0 < b" using blk by (simp add: block_ok_def)
  have w: "wcovered (log M (Loc b 0)) (cur M' t)" "wcovered (log M (Loc b 0)) (mview m')"
    using wcovered_mono [OF covered_wcovered [OF cov] cur] wcovered_mono [OF _ vw] by auto
  have "lz_hist M'" using hi old [OF blk] w(2) lg [OF b0] m(2) unfolding lz_hist_def h1(2) by auto
  moreover have "lz_thread (Lz (Some b)) t M'" using pub w(1) lg [OF b0] seen by (simp add: lz_thread_def)
  moreover have "lz_thread (S u) u M'" if u: "u < nthreads M" "u \<noteq> t" for u
  proof (rule lz_thread_keep [OF lz_invD(6) [OF inv u(1)] cur])
    have k: "knows (S u) = None" using lz_threadD(1) [OF lz_invD(6) [OF inv u(1)]] pub(1) by (cases "knows (S u)") auto
    then show "knows (S u) \<noteq> None \<Longrightarrow> pub M' = pub M" "\<And>b. knows (S u) = Some b \<Longrightarrow> wkeeps b M M'" by auto
    fix x assume x: "box (S u) = Some x"
    from lz_threadD(4) [OF lz_invD(6) [OF inv u(1)] x] have "block_ok x M" .
    moreover have "x \<noteq> b" using lz_invD(7) [OF inv t u(1)] u(2) s x by auto
    ultimately show "block_ok x M' \<and> log M' (Loc x 0) = log M (Loc x 0) \<and> pub M' \<noteq> Some x"
      using old lg pub(2) by (auto simp: block_ok_def)
  qed
  moreover have "\<not> ub M'" using acc lz_invD(1,2,4) [OF inv] by (auto simp: LPTR_def)
  ultimately show ?thesis using lz_invD(2,4,8,9) [OF inv] acc l pub by (intro lz_upd [OF inv t]) (auto simp: accessedD s)
qed

section \<open>The interface\<close>

lemma strong_cas_fails:
  "m_rmw ts False t os of1 l f M = Some (False, v, M') \<Longrightarrow> f v = None"
  by (auto simp: m_rmw_def m_load_def Let_def split: option.splits if_splits)

lemma lz_rmw:
  assumes inv: "lz_inv S M" and t: "t < nthreads M" and s: "S t = LzBox b" and o: "releases os" "acquires of1"
    and ex: "m_rmw ts False t os of1 LPTR (\<lambda>v. if v = VPtr None then Some (VPtr (Some b)) else None) M = Some (k, v, M')"
  shows "if k then lz_inv (S(t := Lz (Some b))) M' else \<exists>b'. v = VPtr (Some b') \<and> lz_inv (S(t := LzFree b b')) M'"
proof (cases k)
  case True
  from m_rmw_step [OF ex [unfolded eqTrueI [OF True]]] obtain m m' where m: "v = mval m" "rmw_step t LPTR os ts M M' m m'"
    "(if v = VPtr None then Some (VPtr (Some b)) else None) = Some (mval m')" by blast
  then have "mval m = VPtr None" "mval m' = VPtr (Some b)" by (auto split: if_splits)
  with lz_publish [OF inv t s o(1) m(2)] True show ?thesis by simp
next
  case False
  then have k: "k = False" by simp
  from m_rmw_fail [OF ex [unfolded k]] obtain m where m: "v = mval m" "load_step t LPTR of1 ts M M' m" by blast
  from strong_cas_fails [OF ex [unfolded k]] have "v \<noteq> VPtr None" by auto
  with lz_load [OF inv t m(2) o(2)] m(1) obtain b' where b': "v = VPtr (Some b')" "pub M = Some b'"
    "wcovered (log M (Loc b' 0)) (cur M' t)" "1 \<le> cur M' t (Ts LPTR)" by auto
  note acc = m(2) [unfolded load_step_def]
  from acc obtain n where l: "log M' = (log M)(LPTR := (t, n, AtRead) # log M LPTR)" by (auto simp: accessed_def)
  have "lz_inv (S(t := LzFree b b')) M'"
    using acc l b' s lz_invD(1,2,4,8) [OF inv] by (intro lz_quiet [OF inv t]) (auto simp: accessedD LPTR_def)
  with b' False show ?thesis by simp
qed

lemma lz_step:
  assumes inv: "lz_inv S M" and t: "t < nthreads M" and ex: "mexec fx ch t i M = Some (r, M')" and tr: "lz_tr (S t) i r s'"
  shows "lz_inv (upd_state (\<lambda>_. Lz None) S t i s' (nthreads M)) M'"
proof (cases i)
  case (ILoad o1 l)
  with tr obtain k where s: "S t = Lz k" "acquires o1" "l = LPTR" "s' = (case as_ptr (rval r) of None \<Rightarrow> S t | Some b \<Rightarrow> Lz (Some b))" by auto
  from ILoad ex obtain v where v: "m_load (ch_ts ch) t o1 l M = Some (v, M')" "r = RVal v" by auto
  from m_load_step [OF v(1)] s(3) obtain m where m: "v = mval m" "load_step t LPTR o1 (ch_ts ch) M M' m" by blast
  note acc = m(2) [unfolded load_step_def]
  from acc obtain n where l: "log M' = (log M)(LPTR := (t, n, AtRead) # log M LPTR)" by (auto simp: accessed_def)
  have "lz_inv (S(t := s')) M'"
    using lz_load [OF inv t m(2) s(2)] acc l s(1,4) v(2) m(1) lz_invD(1,2,4,8) [OF inv]
    by (intro lz_quiet [OF inv t]) (auto simp: accessedD LPTR_def)
  with ILoad show ?thesis by (simp add: upd_state_simp)
next
  case (IRmw os of1 w l f)
  with tr obtain b where s: "S t = LzBox b" "l = LPTR" "releases os" "acquires of1" "\<not> w"
    "f = (\<lambda>v. if v = VPtr None then Some (VPtr (Some b)) else None)"
    "if rok r then s' = Lz (Some b) else \<exists>b'. rval r = VPtr (Some b') \<and> s' = LzFree b b'" by auto
  from IRmw ex s obtain k v where "m_rmw (ch_ts ch) False t os of1 LPTR f M = Some (k, v, M')" "r = RCas k v" by auto
  with lz_rmw [OF inv t s(1,3,4)] s(6,7) IRmw show ?thesis by (cases k) (fastforce simp: upd_state_simp)+
next
  case (IAlloc vs)
  with tr ex have "S t = Lz None" "vs = generate_data" "s' = LzBox (nblocks M)" "M' = m_alloc t vs M" by auto
  with lz_alloc [OF inv t] IAlloc show ?thesis by (simp add: upd_state_simp)
next
  case (IFree b)
  with tr ex obtain b' where "S t = LzFree b b'" "s' = Lz (Some b')" "M' = m_free t b M" by auto
  with lz_free [OF inv t] IFree show ?thesis by (simp add: upd_state_simp)
next
  case (IRead l)
  with tr ex obtain b where b: "S t = Lz (Some b)" "l = Loc b 0" "s' = S t" "M' = m_read t l M" by auto
  have "lz_inv (S(t := s')) M'" unfolding b(2-4) fun_upd_triv by (rule lz_read(2) [OF inv t b(1)])
  with IRead show ?thesis by (simp add: upd_state_simp)
next
  case (ISpawn a)
  with ex have M': "M' = m_spawn t M" by simp
  have pub: "pub M' = pub M" by (simp add: pub_def M' m_spawn_def)
  have "lz_thread (S u) u M'" if "u < nthreads M" for u
    using lz_invD(6) [OF inv that] that unfolding lz_thread_def pub by (simp add: block_ok_def M' m_spawn_def)
  moreover have "lz_thread (Lz None) (nthreads M) M'" by (simp add: lz_thread_def)
  moreover have "lz_hist M'" using lz_invD(5) [OF inv] by (simp add: lz_hist_def block_ok_def M' m_spawn_def)
  moreover have "accounted (S(nthreads M := Lz None)) M'"
    using lz_invD(10) [OF inv] unfolding accounted_def pub
    by (simp add: M' m_spawn_def) (metis less_SucI nat_neq_iff)
  moreover have "nthreads M' = Suc (nthreads M)" "ub M' = ub M" "freed M' = freed M" "nblocks M' = nblocks M" "log M' = log M" "out M' = out M"
    by (simp_all add: M' m_spawn_def)
  ultimately have "lz_inv (S(nthreads M := Lz None)) M'"
    using lz_invD(1-4,7-9) [OF inv] unfolding lz_inv_def by (auto simp: less_Suc_eq)
  with ISpawn tr show ?thesis by (simp add: upd_state_def)
next
  case (IJoin u)
  with tr ex inv have "lz_inv (S(t := s')) M'"
    using lz_invD(1,4,8) [OF inv] by (intro lz_quiet [OF inv t]) (auto simp: m_join_def le_fun_def)
  with IJoin show ?thesis by (simp add: upd_state_simp)
next
  case (IPrint v)
  with tr ex inv have "lz_inv (S(t := s')) M'"
    using lz_invD(1,4,8) [OF inv] by (intro lz_quiet [OF inv t]) auto
  with IPrint show ?thesis by (simp add: upd_state_simp)
next
  case ITau
  with tr have "S(t := s') = S" by auto
  with ITau ex inv show ?thesis by (simp add: upd_state_simp)
qed (use tr in auto)

interpretation lzp: protocol lz_pos lz_tr "\<lambda>_. False" "\<lambda>_. Lz None" "\<lambda>s. box s = None" lz_inv
proof
  show "lz_pos (S t) i r" if inv: "lz_inv S M" and t: "t < nthreads M" and ex: "mexec fx ch t i M = Some (r, M')" for S M t i fx ch r M'
  proof (cases i)
    case (ILoad o1 l)
    show ?thesis
    proof (cases "l = LPTR \<and> (\<exists>b. S t = Lz (Some b))")
      case True
      with ILoad ex obtain m where m: "rval r = mval m" "load_step t LPTR o1 (ch_ts ch) M M' m" using m_load_step by fastforce
      note acc = m(2) [unfolded load_step_def] and th = lz_invD(6) [OF inv t]
      from True obtain b where b: "S t = Lz (Some b)" by blast
      from acc have ts: "hist M LPTR (ch_ts ch) = Some m" "cur M t (Ts LPTR) \<le> ch_ts ch" by auto
      with lz_histD(2) [OF lz_invD(5) [OF inv] ts(1)] lz_threadD(3) [OF th] b have "ch_ts ch = 1" by fastforce
      with ts(1) lz_histD(4) [OF lz_invD(5) [OF inv]] lz_threadD(1) [OF th] b m(1) ILoad show ?thesis by fastforce
    qed (use ILoad in auto)
  next
    case (IRmw os of1 w l f)
    show ?thesis
    proof (cases "l = LPTR \<and> \<not> w \<and> \<not> rok r \<and> (\<exists>b. f = (\<lambda>v. if v = VPtr None then Some (VPtr (Some b)) else None))")
      case True
      with IRmw ex obtain v where v: "m_rmw (ch_ts ch) False t os of1 LPTR f M = Some (False, v, M')" "r = RCas False v" by (auto split: if_splits)
      from m_rmw_fail [OF v(1)] obtain m where m: "v = mval m" "hist M LPTR (ch_ts ch) = Some m" by (auto simp: load_step_def)
      have "mval m \<noteq> VPtr None" using strong_cas_fails [OF v(1)] True m(1) by auto
      with lz_histD(2-4) [OF lz_invD(5) [OF inv]] m(2) have "\<exists>b. mval m = VPtr (Some b)" by metis
      with IRmw v(2) m(1) show ?thesis by simp
    qed (use IRmw in auto)
  next
    case (IRead l)
    with ex lz_read(1) [OF inv t] show ?thesis by auto
  qed (use ex in auto)
qed (use lz_step in auto)

section \<open>Properties\<close>

abbreviation lz_prog :: "('r \<Rightarrow> lzst \<Rightarrow> bool) \<Rightarrow> lzst \<Rightarrow> ('a, 'r) prog \<Rightarrow> bool" where
  "lz_prog Q s p \<equiv> conforms lz_pos lz_tr (\<lambda>_. False) Q s p"

lemma publish_ok:
  "lz_prog (\<lambda>b s. s = Lz (Some b)) (LzBox p) (bindp (compare_exchange LPTR (VPtr None) (VPtr (Some p)) Release Acquire) (\<lambda>r.
     case r of Inl e \<Rightarrow> seqp (dealloc p) (Ret (the (as_ptr e))) | Inr _ \<Rightarrow> Ret p))"
  by (auto simp: conf_simps seqp_def)

lemma get_data_ok: "lz_prog (\<lambda>b s. s = Lz (Some b)) (Lz k) get_data"
proof -
  have *: "lz_prog (\<lambda>b s. s = Lz (Some b)) (Lz None) (bindp (alloc generate_data) (\<lambda>p.
      bindp (compare_exchange LPTR (VPtr None) (VPtr (Some p)) Release Acquire) (\<lambda>r.
      case r of Inl e \<Rightarrow> seqp (dealloc p) (Ret (the (as_ptr e))) | Inr _ \<Rightarrow> Ret p)))"
    unfolding alloc_def using publish_ok by (auto simp: conforms_Do_iff)
  show ?thesis
    unfolding get_data_def load_def by (cases k) (auto simp: conforms_Do_iff * split: option.splits)
qed

lemma print_foo_ok: "lz_prog (\<lambda>_ s. \<exists>k. s = Lz k) (Lz k) print_foo"
  unfolding print_foo_def by (rule conforms_bind [OF get_data_ok]) (auto simp: conf_simps)

lemma data_client_ok: "lz_prog (\<lambda>_ s. box s = None) (Lz k) (data_client as)"
proof (induction "as" arbitrary: k)
  case Nil
  show ?case unfolding data_client.simps by (rule conforms_mono [OF print_foo_ok]) auto
next
  case (Cons a "as")
  have "lz_prog (\<lambda>_ s. box s = None) (Lz k) (seqp print_foo (data_client as))" for k
    by (rule conforms_seq [OF print_foo_ok]) (use Cons in auto)
  then show ?case by (simp add: spawn_def conforms_Do_iff)
qed

lemma data_main_ok: "lz_prog (\<lambda>_ s. box s = None) (Lz None) data_main"
proof -
  have sp: "lz_prog (\<lambda>_ s. s = Lz None) (Lz None) (spawn_all as)" for as :: "'a val list"
    by (induction "as") (auto simp: conf_simps elim!: conforms_bind)
  have "lz_prog (\<lambda>_ s. s = Lz None) (Lz None) (join_all ts)" for ts
    unfolding join_all_def by (rule conforms_for_list [where J = "\<lambda>_ s. s = Lz None"]) (auto simp: conf_simps)
  then have "lz_prog (\<lambda>_ s. box s = None) (Lz None) (join_all ts)" for ts by (rule conforms_mono) simp
  then show ?thesis unfolding data_main_def by (intro conforms_bind [OF sp]) auto
qed

lemma data_thread_ok: "lz_prog (\<lambda>_ s. box s = None) (Lz None) data_thread"
  unfolding data_thread_def by (rule conforms_seq [OF get_data_ok]) simp

text \<open>
  C36. The lazy initialisation of 03-05-02, for its main program and for any threads that call
  \<open>get_data\<close> and read through the reference: no undefined behaviour and no panic,
  what is read is the generated data, and when all threads have ended at most one block is still
  allocated.
\<close>

theorem get_data_safe:
  assumes "main = data_main \<and> code = (\<lambda>_. data_thread) \<or> main = data_client ops \<and> code = (\<lambda>a. data_client (thread a))"
    and "reach fx code (init_config [[VPtr None]] main) c"
  shows "\<not> ub (mem c) \<and> (\<forall>t m. progs c t \<noteq> Some (Panic m)) \<and> set (out (mem c)) \<subseteq> {VI32 42} \<and>
    ((\<forall>t < nthreads (mem c). finished c t) \<longrightarrow> card {b. 0 < b \<and> b < nblocks (mem c) \<and> \<not> freed (mem c) b} \<le> 1)"
proof -
  have ok: "lz_prog (\<lambda>_ s. box s = None) (Lz None) main" "\<And>a. lz_prog (\<lambda>_ s. box s = None) (Lz None) (code a)"
    using assms(1) data_main_ok data_thread_ok data_client_ok by auto
  have "lz_inv (\<lambda>_. Lz None) (init_mem [[VPtr None]])"
    by (auto simp: lz_inv_def lz_hist_def lz_thread_def accounted_def init_mem_def static_val_def LPTR_def)
  then have "lzp.safe (init_config [[VPtr None]] main)" using lzp.safe_init ok(1) by blast
  from lzp.safe_reach [OF ok(2) this assms(2)] obtain S where inv: "lz_inv S (mem c)"
    and conf: "\<And>t p. progs c t = Some p \<Longrightarrow> lz_prog (\<lambda>_ s. box s = None) (S t) p" unfolding lzp.safe_def by blast
  have "card {b. 0 < b \<and> b < nblocks (mem c) \<and> \<not> freed (mem c) b} \<le> 1" if fin: "\<forall>t < nthreads (mem c). finished c t"
  proof -
    have "box (S t) = None" if "t < nthreads (mem c)" for t
      using fin that conf [of t] by (fastforce simp: finished_def split: option.splits prog.splits)
    with lz_invD(10) [OF inv] have "{b. 0 < b \<and> b < nblocks (mem c) \<and> \<not> freed (mem c) b} \<subseteq> set_option (pub (mem c))"
      by (auto simp: accounted_def)
    then have "card {b. 0 < b \<and> b < nblocks (mem c) \<and> \<not> freed (mem c) b} \<le> card (set_option (pub (mem c)))" by (intro card_mono) auto
    also have "\<dots> \<le> 1" by (cases "pub (mem c)") auto
    finally show ?thesis .
  qed
  with lz_invD(1,8) [OF inv] conf show ?thesis by fastforce
qed

theorem get_data_safe_witness:
  "\<exists>c :: nat config. \<not> ub (mem c) \<and> out (mem c) = [VI32 42, VI32 42, VI32 42] \<and> finished c 0 \<and> finished c 1 \<and> freed (mem c) 2"
proof -
  obtain c :: "nat config" where c: "run (\<lambda>_ _ _ _. True) (\<lambda>a. data_client [])
      (sched [(0, 0), (0, 0), (0, 0), (1, 0), (1, 0), (0, 0), (1, 1), (1, 0), (1, 0), (1, 0), (0, 0), (0, 0), (0, 1), (0, 0), (0, 0)])
      (init_config [[VPtr None]] (data_client [VUnit])) = Some c" "out (mem c) = [VI32 42, VI32 42, VI32 42]" "finished c 0" "finished c 1" "freed (mem c) 2"
    by (simp add: run_simps print_foo_def get_data_def generate_data_def cas_result_def LPTR_def)
  from get_data_safe [of "data_client [VUnit]" "\<lambda>_. data_client []" "[VUnit]" "\<lambda>_. []", OF _ run_reach [OF c(1)]] c(2-) show ?thesis by auto
qed

end
