(* ===== verification/Reports.thy ===== *)
theory Reports
  imports Atomic_Protocol
begin

text \<open>
  Programs in which one thread writes one atomic variable and the other one polls it: the stop
  flag (02-01-01), the progress reports (02-01-02 and 02-01-02-01) and the example of the futex
  (08-03-01). The variable runs through a list of values, and the reader never sees it go back.
\<close>

section \<open>The code\<close>







definition num_done1 :: loc where "num_done1 = Loc 0 0"

definition process_item1 :: "nat \<Rightarrow> ('a, unit) prog" where
  "process_item1 i = sleep"

definition working :: "64 word \<Rightarrow> 'a val" where
  "working n = VList [VStr ''Working.. '', VUsize n, VStr ''/100 done'']"

definition progress_thread :: "('a, unit) prog" where
  "progress_thread = for_range 0 100 (\<lambda>i.
     seqp (process_item1 i) (store num_done1 (VUsize (of_nat i + 1)) Relaxed))"

definition progress_main :: "('a, unit) prog" where
  "progress_main = bindp (spawn VUnit) (\<lambda>t.
     seqp (loop (\<lambda>_. bindp (load num_done1 Relaxed) (\<lambda>v.
       if as_usize v = 100 then Ret (Inr ())
       else seqp (println (working (as_usize v))) (seqp sleep (Ret (Inl ()))))) ())
     (seqp (join t) (println (VStr ''Done!''))))"

text \<open>\<open>park_timeout\<close>: the thread wakes up when it is unparked or when the time is over.\<close>

definition park_timeout :: "('a, unit) prog" where
  "park_timeout = park"

definition parking_thread :: "'a val \<Rightarrow> ('a, unit) prog" where
  "parking_thread main_thread = for_range 0 100 (\<lambda>i.
     seqp (process_item1 i) (seqp (store num_done1 (VUsize (of_nat i + 1)) Relaxed) (unpark (as_tid main_thread))))"

definition parking_main :: "('a, unit) prog" where
  "parking_main = bindp current (\<lambda>main_thread. bindp (spawn (VTid main_thread)) (\<lambda>t.
     seqp (loop (\<lambda>_. bindp (load num_done1 Relaxed) (\<lambda>v.
       if as_usize v = 100 then Ret (Inr ())
       else seqp (println (working (as_usize v))) (seqp park_timeout (Ret (Inl ()))))) ())
     (seqp (join t) (println (VStr ''Done!'')))))"

definition futex_var :: loc where "futex_var = Loc 0 0"

definition futex_thread :: "('a, unit) prog" where
  "futex_thread = seqp sleep (seqp (store futex_var (VU32 1) Relaxed) (wake_one futex_var))"

definition futex_main :: "('a, unit) prog" where
  "futex_main = bindp (spawn VUnit) (\<lambda>t.
     seqp (println (VStr ''Waiting...''))
     (seqp (while_do (bindp (load futex_var Relaxed) (\<lambda>v. Ret (as_u32 v = 0))) (wait futex_var (VU32 0)))
     (seqp (println (VStr ''Done!'')) (join t))))"

section \<open>The protocol\<close>

text \<open>
  The variable takes the values \<open>vals\<close> in this order; \<open>wr\<close> is the writer (0 or 1). \<open>Rp i k os\<close>: the
  thread has written, or seen, the value with index \<open>i\<close>; the main thread has spawned \<open>k\<close> threads
  and printed \<open>os\<close>. \<open>good\<close> is what the programs promise of the output, and \<open>ends\<close> where they may end.
\<close>

record 'a rpar =
  vals :: "'a val list"
  wr :: tid
  good :: "nat \<Rightarrow> 'a val list \<Rightarrow> bool"
  ends :: "bool \<Rightarrow> nat \<Rightarrow> 'a val list \<Rightarrow> bool"

datatype 'a rst = Rp (ix: nat) (nspawn: nat) (prints: "'a val list") (lead: bool)

definition rvar :: loc where "rvar = Loc 0 0"

fun rtr :: "'a rpar \<Rightarrow> 'a rst \<Rightarrow> 'a instr \<Rightarrow> 'a resp \<Rightarrow> 'a rst \<Rightarrow> bool" where
  "rtr K (Rp i k os b) (ILoad o1 l) r s' = (l = rvar \<and> b = (wr K \<noteq> 0) \<and>
     (\<exists>j. i \<le> j \<and> j < length (vals K) \<and> rval r = vals K ! j \<and> good K j os \<and> s' = Rp j k os b))"
| "rtr K (Rp i k os b) (IStore o1 l v) r s' = (l = rvar \<and> b = (wr K = 0) \<and> Suc i < length (vals K) \<and> v = vals K ! Suc i \<and>
     (b \<longrightarrow> good K (Suc i) os) \<and> s' = Rp (Suc i) k os b)"
| "rtr K (Rp i k os b) (ISpawn a) r s' = (b \<and> k = 0 \<and> s' = Rp i 1 os b)"
| "rtr K (Rp i k os b) (IPrint v) r s' = (b \<and> good K i (os @ [v]) \<and> s' = Rp i k (os @ [v]) b)"
| "rtr K s (IJoin u) r s' = (s' = s)"
| "rtr K s IPark r s' = (s' = s)"
| "rtr K s (IUnpark u) r s' = (s' = s)"
| "rtr K s (IWait l v) r s' = (s' = s)"
| "rtr K s (IWake l) r s' = (s' = s)"
| "rtr K s IInput r s' = (s' = s)"
| "rtr K s ICurrent r s' = (s' = s)"
| "rtr K s ITau r s' = (s' = s)"
| "rtr K s i r s' = False"

fun rpos :: "'a rpar \<Rightarrow> 'a rst \<Rightarrow> 'a instr \<Rightarrow> 'a resp \<Rightarrow> bool" where
  "rpos K (Rp i k os b) (ILoad o1 l) r = (l = rvar \<and> b = (wr K \<noteq> 0) \<longrightarrow> (\<exists>j. i \<le> j \<and> j < length (vals K) \<and> rval r = vals K ! j))"
| "rpos K s i r = True"

definition rfin :: "'a rpar \<Rightarrow> 'a rst \<Rightarrow> bool" where
  "rfin K s \<longleftrightarrow> ends K (lead s) (ix s) (prints s)"

definition rplan :: "'a rpar \<Rightarrow> (tid \<Rightarrow> 'a rst) \<Rightarrow> 'a mem \<Rightarrow> bool" where
  "rplan K S M \<longleftrightarrow> nthreads M = Suc (nspawn (S 0)) \<and> nspawn (S 0) \<le> 1 \<and> lead (S 0) \<and> (nspawn (S 0) = 1 \<longrightarrow> \<not> lead (S 1)) \<and> wr K \<le> 1 \<and>
     out M = prints (S 0) \<and> good K (ix (S 0)) (out M)"

text \<open>
  \<open>f\<close> gives the index of the value of each message: later messages have later values, the writer
  has written the last one, and what a reader can still read is not older than what it has seen.
\<close>

definition rhist :: "'a rpar \<Rightarrow> (tid \<Rightarrow> 'a rst) \<Rightarrow> 'a mem \<Rightarrow> (nat \<Rightarrow> nat) \<Rightarrow> bool" where
  "rhist K S M f \<longleftrightarrow>
     (\<forall>k m. hist M rvar k = Some m \<longrightarrow> f k < length (vals K) \<and> mval m = vals K ! f k \<and>
        (if wr K < nthreads M then k \<le> cur M (wr K) (Ts rvar) \<and> f k \<le> ix (S (wr K)) else k = 0 \<and> f k = 0)) \<and>
     (\<forall>k k' m m'. hist M rvar k = Some m \<longrightarrow> hist M rvar k' = Some m' \<longrightarrow> k \<le> k' \<longrightarrow> f k \<le> f k') \<and>
     (\<forall>t < nthreads M. t \<noteq> wr K \<longrightarrow> (\<forall>k m. hist M rvar k = Some m \<longrightarrow> cur M t (Ts rvar) \<le> k \<longrightarrow> ix (S t) \<le> f k))"

definition rinv :: "'a rpar \<Rightarrow> (tid \<Rightarrow> 'a rst) \<Rightarrow> 'a mem \<Rightarrow> bool" where
  "rinv K S M \<longleftrightarrow> distinct (vals K) \<and> rplan K S M \<and> (\<exists>f. rhist K S M f)"

lemma rhistD:
  assumes "rhist K S M f"
  shows "hist M rvar k = Some m \<Longrightarrow> f k < length (vals K)" "hist M rvar k = Some m \<Longrightarrow> mval m = vals K ! f k"
    "hist M rvar k = Some m \<Longrightarrow> wr K < nthreads M \<Longrightarrow> k \<le> cur M (wr K) (Ts rvar)"
    "hist M rvar k = Some m \<Longrightarrow> wr K < nthreads M \<Longrightarrow> f k \<le> ix (S (wr K))"
    "hist M rvar k = Some m \<Longrightarrow> \<not> wr K < nthreads M \<Longrightarrow> k = 0"
    "hist M rvar k = Some m \<Longrightarrow> hist M rvar k' = Some m' \<Longrightarrow> k \<le> k' \<Longrightarrow> f k \<le> f k'"
    "t < nthreads M \<Longrightarrow> t \<noteq> wr K \<Longrightarrow> hist M rvar k = Some m \<Longrightarrow> cur M t (Ts rvar) \<le> k \<Longrightarrow> ix (S t) \<le> f k"
    "hist M rvar k = Some m \<Longrightarrow> \<not> wr K < nthreads M \<Longrightarrow> f k = 0"
  using assms unfolding rhist_def by (metis (full_types))+

text \<open>Steps that leave the history alone.\<close>

lemma rhist_keep:
  assumes h: "rhist K S M f" and "hist M' = hist M" "nthreads M' = nthreads M" "\<And>u. cur M u \<le> cur M' u" "\<And>u. u < nthreads M \<Longrightarrow> ix (S' u) = ix (S u)"
  shows "rhist K S' M' f"
  unfolding rhist_def assms(2,3)
proof (intro conjI allI impI)
  have le: "cur M u (Ts rvar) \<le> cur M' u (Ts rvar)" for u using assms(4) [of u] view_le_apply by blast
  fix k m assume m: "hist M rvar k = Some m"
  show "if wr K < nthreads M then k \<le> cur M' (wr K) (Ts rvar) \<and> f k \<le> ix (S' (wr K)) else k = 0 \<and> f k = 0"
    using rhistD(3-5,8) [OF h m] assms(5) order_trans [OF _ le] by auto
  show "ix (S' t) \<le> f k" if "t < nthreads M" "t \<noteq> wr K" "cur M' t (Ts rvar) \<le> k" for t
    using rhistD(7) [OF h that(1,2) m] assms(5) [OF that(1)] order_trans [OF le that(3)] by simp
qed (use rhistD [OF h] in blast)+

lemma rhist_load:
  assumes h: "rhist K S M f" and t: "t < nthreads M" "t \<noteq> wr K" and m: "hist M rvar k = Some m" "k \<le> cur M' t (Ts rvar)"
    and M': "hist M' = hist M" "nthreads M' = nthreads M" "\<And>u. cur M u \<le> cur M' u" and ix: "ix s' = f k"
  shows "rhist K (S(t := s')) M' f"
  unfolding rhist_def M'
proof (intro conjI allI impI)
  have le: "cur M u (Ts rvar) \<le> cur M' u (Ts rvar)" for u using M'(3) [of u] view_le_apply by blast
  fix j mj assume mj: "hist M rvar j = Some mj"
  show "if wr K < nthreads M then j \<le> cur M' (wr K) (Ts rvar) \<and> f j \<le> ix ((S(t := s')) (wr K)) else j = 0 \<and> f j = 0"
    using rhistD(3-5,8) [OF h mj] t(2) order_trans [OF _ le] by auto
  show "ix ((S(t := s')) u) \<le> f j" if "u < nthreads M" "u \<noteq> wr K" "cur M' u (Ts rvar) \<le> j" for u
    using rhistD(7) [OF h that(1,2) mj] rhistD(6) [OF h m(1) mj] m(2) ix order_trans [OF le that(3)] that(3) by auto
qed (use rhistD [OF h] in blast)+

lemma rhist_store:
  assumes h: "rhist K S M f" and wf: "wf_mem M" and t: "t < nthreads M" "t = wr K" and st: "store_step t rvar o1 k M M' m"
    and v: "Suc (ix (S t)) < length (vals K)" "mval m = vals K ! Suc (ix (S t))" and ix: "ix s' = Suc (ix (S t))"
  shows "\<exists>f. rhist K (S(t := s')) M' f"
proof -
  let ?f = "f(k := ix s')"
  from st have M': "hist M' = (hist M)(rvar := (hist M rvar)(k \<mapsto> m))" "hist M rvar k = None" "cur M t (Ts rvar) < k" "k \<le> cur M' t (Ts rvar)"
    "nthreads M' = nthreads M" "cur M u \<le> cur M' u" "u \<noteq> t \<Longrightarrow> cur M' u = cur M u" for u by (auto simp: store_step_def accessedD)
  have old: "j < k \<and> f j \<le> ix (S t)" if "hist M rvar j = Some mj" for j mj
    using rhistD(3,4) [OF h that] t M'(3) by auto
  have "rhist K (S(t := s')) M' ?f"
    unfolding rhist_def M'(5)
  proof (intro conjI allI impI)
    fix j mj assume mj: "hist M' rvar j = Some mj"
    show "?f j < length (vals K)" "mval mj = vals K ! ?f j" using mj M'(1,2) rhistD(1,2) [OF h] v ix by (auto split: if_splits)
    show "if wr K < nthreads M then j \<le> cur M' (wr K) (Ts rvar) \<and> ?f j \<le> ix ((S(t := s')) (wr K)) else j = 0 \<and> ?f j = 0"
      using mj M'(1,4) old [of j mj] t ix by (auto split: if_splits)
    show "?f i \<le> ?f j" if "hist M' rvar i = Some mi" "i \<le> j" for i mi
      using that mj M'(1,2) rhistD(6) [OF h] old [of i mi] old [of j mj] ix by (auto split: if_splits)
    show "ix ((S(t := s')) u) \<le> ?f j" if u: "u < nthreads M" "u \<noteq> wr K" "cur M' u (Ts rvar) \<le> j" for u
    proof (cases "j = k")
      case True
      obtain mu where mu: "hist M rvar (cur M u (Ts rvar)) = Some mu"
        using wf unfolding wf_mem_def wf_core_def wf_view_def by (meson not_None_eq)
      with rhistD(7) [OF h u(1,2) mu] old [OF mu] True u(2) t(2) ix show ?thesis by auto
    next
      case False
      with mj M'(1) have "hist M rvar j = Some mj" by simp
      with rhistD(7) [OF h u(1,2)] M'(7) [of u] u t(2) False show ?thesis by auto
    qed
  qed
  then show ?thesis by blast
qed

lemma rplan_tids: "rplan K S M \<Longrightarrow> t < nthreads M \<Longrightarrow> (lead (S t) \<longleftrightarrow> t = 0) \<and> t \<le> 1"
  unfolding rplan_def by (cases t) (auto simp: le_Suc_eq)

lemma rplan_upd:
  assumes "rplan K S M" "t < nthreads M" "nthreads M' = nthreads M" "nspawn s' = nspawn (S t)" "lead s' = lead (S t)"
    "lead s' \<Longrightarrow> out M' = prints s' \<and> good K (ix s') (out M')" "\<not> lead s' \<Longrightarrow> out M' = out M"
  shows "rplan K (S(t := s')) M'"
  using assms rplan_tids [OF assms(1,2)] by (cases "t = 0") (auto simp: rplan_def)

definition rchild :: "'a rst" where "rchild = Rp 0 0 [] False"

lemma rhist_spawn:
  assumes h: "rhist K S M f" and pl: "rplan K S M" and t: "nspawn (S 0) = 0" and s': "ix s' = ix (S 0)"
  shows "\<exists>f. rhist K (S(0 := s', 1 := rchild)) (m_spawn 0 M) f"
proof -
  let ?M = "m_spawn 0 M"
  have n: "nthreads M = 1" "nthreads ?M = 2" using pl t by (auto simp: rplan_def m_spawn_def)
  have M': "hist ?M = hist M" "cur ?M 0 = cur M 0" "cur ?M 1 = cur M 0" using n by (simp_all add: m_spawn_def)
  have w: "wr K = 0 \<or> wr K = 1" using pl by (auto simp: rplan_def)
  have "rhist K (S(0 := s', 1 := rchild)) ?M f"
    unfolding rhist_def n(2) M'(1)
  proof (intro conjI allI impI)
    fix k m assume m: "hist M rvar k = Some m"
    show "f k < length (vals K)" "mval m = vals K ! f k" using rhistD(1,2) [OF h m] .
    show "if wr K < 2 then k \<le> cur ?M (wr K) (Ts rvar) \<and> f k \<le> ix ((S(0 := s', 1 := rchild)) (wr K)) else k = 0 \<and> f k = 0"
      using w rhistD(3-5,8) [OF h m] n(1) M'(2,3) s' by auto
    show "ix ((S(0 := s', 1 := rchild)) u) \<le> f k" if "u < 2" "u \<noteq> wr K" "cur ?M u (Ts rvar) \<le> k" for u
      using that rhistD(7) [OF h _ _ m, of 0] n(1) M'(2) s' by (auto simp: rchild_def less_2_cases_iff)
  qed (use rhistD(6) [OF h] in blast)
  then show ?thesis by blast
qed

interpretation rpp: atomic_protocol "rpos K" "rtr K" "\<lambda>_. False" "\<lambda>_. rchild" "rfin K" "\<lambda>_. True" "rinv K" for K :: "'a rpar"
proof
  show "rtr K s ITau r s" for s r by (cases s) simp
  show "atomic_instr i" if "rtr K s i r s'" for s i r s' using that by (cases s; cases i) auto
  show "rpos K s i r" if "\<not> atomic_instr i" for s i r using that by (cases s; cases i) auto
next
  fix S M t and i :: "'a instr" and fx ch r M'
  assume inv: "rinv K S M" and t: "t < nthreads M" and step: "mexec fx ch t i M = Some (r, M')" "atomic_instr i"
  from inv obtain f where h: "rhist K S M f" and pl: "rplan K S M" by (auto simp: rinv_def)
  obtain x k os b where s: "S t = Rp x k os b" by (cases "S t")
  from step show "rpos K (S t) i r"
  proof (cases rule: atomic_cases)
    case (Load o1 l k m)
    have "\<exists>j. x \<le> j \<and> j < length (vals K) \<and> mval m = vals K ! j" if "l = rvar" "b = (wr K \<noteq> 0)"
    proof -
      have "t \<noteq> wr K" using that s rplan_tids [OF pl t] by auto
      moreover have m: "hist M rvar k = Some m" "cur M t (Ts rvar) \<le> k" using Load(3) that(1) by (auto simp: load_step_def)
      ultimately have "x \<le> f k" using rhistD(7) [OF h t _ m] s by simp
      with rhistD(1,2) [OF h m(1)] show ?thesis by blast
    qed
    with Load s show ?thesis by simp
  qed (use s in auto)
next
  fix S M M' t and i :: "'a instr" and fx ch r s'
  assume inv: "rinv K S M" and wf: "wf_mem M" and t: "t < nthreads M" and step: "mexec fx ch t i M = Some (r, M')" "atomic_instr i"
    and tr: "rtr K (S t) i r s'"
  from inv obtain f where h: "rhist K S M f" and pl: "rplan K S M" and d: "distinct (vals K)" by (auto simp: rinv_def)
  obtain x k os b where s: "S t = Rp x k os b" by (cases "S t")
  note tid = rplan_tids [OF pl t]
  have out: "b \<Longrightarrow> out M = os \<and> good K x os" using pl s tid by (auto simp: rplan_def)
  from step show "rinv K (upd_state (\<lambda>_. rchild) S t i s' (nthreads M)) M'"
  proof (cases rule: atomic_cases)
    case (Load o1 l ts m)
    with tr s obtain j where j: "l = rvar" "b = (wr K \<noteq> 0)" "j < length (vals K)" "mval m = vals K ! j" "good K j os" "s' = Rp j k os b" by auto
    from Load(3) have acc: "hist M rvar ts = Some m" "ts \<le> cur M' t (Ts rvar)" "hist M' = hist M" "nthreads M' = nthreads M" "out M' = out M"
      "\<And>u. cur M u \<le> cur M' u" unfolding j(1) by (auto simp: load_step_def accessedD)
    have w: "t \<noteq> wr K" using j(2) s tid by auto
    have "j = f ts" using d j(3,4) rhistD(1,2) [OF h acc(1)] by (metis nth_eq_iff_index_eq)
    with rhist_load [OF h t w acc(1,2,3,4,6), of s'] j(6) have "rhist K (S(t := s')) M' f" by simp
    moreover have "rplan K (S(t := s')) M'" by (rule rplan_upd [OF pl t acc(4)]) (use s j out acc(5) in auto)
    ultimately show ?thesis using d Load(1) by (auto simp: rinv_def upd_state_simp)
  next
    case (Store o1 l v ts m)
    with tr s have j: "l = rvar" "b = (wr K = 0)" "Suc x < length (vals K)" "mval m = vals K ! Suc x" "b \<longrightarrow> good K (Suc x) os" "s' = Rp (Suc x) k os b"
      by auto
    from Store(4) have acc: "nthreads M' = nthreads M" "out M' = out M" by (auto simp: store_step_def accessedD)
    have w: "t = wr K" using j(2) s tid pl by (auto simp: rplan_def)
    from rhist_store [OF h wf t w Store(4) [unfolded j(1)], of s'] s j have "\<exists>f. rhist K (S(t := s')) M' f" by simp
    moreover have "rplan K (S(t := s')) M'" by (rule rplan_upd [OF pl t acc(1)]) (use s j out acc(2) in auto)
    ultimately show ?thesis using d Store(1) by (auto simp: rinv_def upd_state_simp)
  next
    case (Spawn a)
    with tr s have j: "b" "k = 0" "s' = Rp x 1 os b" by auto
    have t0: "t = 0" using tid s j(1) by simp
    have n: "nthreads M = 1" using pl s t0 j(2) by (simp add: rplan_def)
    have "\<exists>f. rhist K (S(0 := s', 1 := rchild)) (m_spawn 0 M) f" by (rule rhist_spawn [OF h pl]) (use s t0 j in auto)
    moreover have "rplan K (S(0 := s', 1 := rchild)) (m_spawn 0 M)" using pl s t0 j n by (auto simp: rplan_def m_spawn_def rchild_def)
    ultimately show ?thesis using d Spawn n t0 by (simp add: rinv_def upd_state_def)
  next
    case (Print v)
    with tr s have j: "b" "good K x (os @ [v])" "s' = Rp x k (os @ [v]) b" by auto
    have "rhist K (S(t := s')) M' f" by (rule rhist_keep [OF h]) (use Print(3) s j in auto)
    moreover have "rplan K (S(t := s')) M'" by (rule rplan_upd [OF pl t]) (use s j out Print(3) in auto)
    ultimately show ?thesis using d Print(1) by (auto simp: rinv_def upd_state_simp)
  next
    case (Join u)
    with tr have j: "s' = S t" by simp
    have "rhist K S M' f" by (rule rhist_keep [OF h]) (use Join(3) in \<open>auto simp: m_join_def le_fun_def\<close>)
    moreover have "rplan K S M'" using pl Join(3) by (auto simp: rplan_def m_join_def)
    ultimately show ?thesis using d Join(1) j by (auto simp: rinv_def upd_state_simp)
  next
    case Idle
    then have j: "s' = S t" "\<And>a. i \<noteq> ISpawn a" using tr s by auto
    have "rhist K S M' f" by (rule rhist_keep [OF h]) (use Idle(2) idle_cur in \<open>auto simp: idle_step_def\<close>)
    moreover have "rplan K S M'" using pl Idle(2) by (auto simp: rplan_def idle_step_def)
    ultimately show ?thesis using d j by (auto simp: rinv_def upd_state_simp)
  qed (use tr s in auto)
qed auto

section \<open>Programs\<close>

abbreviation rprog :: "'a rpar \<Rightarrow> ('r \<Rightarrow> 'a rst \<Rightarrow> bool) \<Rightarrow> 'a rst \<Rightarrow> ('a, 'r) prog \<Rightarrow> bool" where
  "rprog K Q s p \<equiv> conforms (rpos K) (rtr K) (\<lambda>_. False) Q s p"

text \<open>A reader that has seen the last value: it has been written.\<close>

lemma seen_last:
  assumes h: "rhist K S M f" and wf: "wf_mem M" and t: "t < nthreads M" "t \<noteq> wr K" "Suc (ix (S t)) = length (vals K)"
  shows "\<exists>k m. hist M rvar k = Some m \<and> mval m = vals K ! ix (S t)"
proof -
  obtain m where m: "hist M rvar (cur M t (Ts rvar)) = Some m"
    using wf unfolding wf_mem_def wf_core_def wf_view_def by (meson not_None_eq)
  have "f (cur M t (Ts rvar)) = ix (S t)" using rhistD(1) [OF h m] rhistD(7) [OF h t(1,2) m] t(3) by linarith
  with m rhistD(2) [OF h m] show ?thesis by auto
qed

text \<open>A load gives one of the values that are left.\<close>

lemma rload_ok:
  assumes "b = (wr K \<noteq> 0)"
    and "\<And>j. i \<le> j \<Longrightarrow> j < length (vals K) \<Longrightarrow> good K j os \<and> rprog K Q (Rp j k os b) (f (vals K ! j))"
  shows "rprog K Q (Rp i k os b) (bindp (load rvar Relaxed) f)"
proof -
  have "\<exists>s'. rtr K (Rp i k os b) (ILoad Relaxed rvar) r s' \<and> rprog K Q s' (f (rval r))"
    if pos: "rpos K (Rp i k os b) (ILoad Relaxed rvar) r" for r
  proof -
    from pos assms(1) obtain j where j: "i \<le> j" "j < length (vals K)" "rval r = vals K ! j" by auto
    with assms(1) assms(2) [OF j(1,2)] show ?thesis by (intro exI [of _ "Rp j k os b"]) auto
  qed
  then show ?thesis by (simp add: load_def conforms_Do_iff del: rtr.simps rpos.simps)
qed

lemma report_reach:
  assumes "rprog K (\<lambda>_. rfin K) (Rp 0 0 [] True) main" "\<And>a. rprog K (\<lambda>_. rfin K) rchild (code a)"
    "reach fx code (init_config [[vals K ! 0]] main) c" "distinct (vals K)" "vals K \<noteq> []" "wr K \<le> 1" "good K 0 []"
  shows "\<not> ub (mem c) \<and> (\<forall>t m. progs c t \<noteq> Some (Panic m)) \<and> (\<exists>S. rinv K S (mem c) \<and> wf_mem (mem c) \<and>
    (\<forall>t. finished c t \<longrightarrow> t < nthreads (mem c) \<and> rfin K (S t)))"
proof -
  have "rhist K (\<lambda>_. Rp 0 0 [] True) (init_mem [[vals K ! 0]]) (\<lambda>_. 0)"
    using assms(5) by (auto simp: rhist_def init_mem_def static_val_def rvar_def)
  then have "rinv K (\<lambda>_. Rp 0 0 [] True) (init_mem [[vals K ! 0]])"
    using assms(4,6,7) unfolding rinv_def rplan_def by (auto simp: init_mem_def)
  from rpp.atomic_reach [OF this assms(1,2,3)] obtain S where nub: "\<not> ub (mem c)" and inv: "rinv K S (mem c)"
    and conf: "\<And>t p. progs c t = Some p \<Longrightarrow> t < nthreads (mem c) \<and> rprog K (\<lambda>_. rfin K) (S t) p" by blast
  have "progs c t \<noteq> Some (Panic m)" for t m using conf [of t "Panic m"] by auto
  moreover have "t < nthreads (mem c) \<and> rfin K (S t)" if "finished c t" for t
    using that conf [of t] by (fastforce simp: finished_def split: option.splits prog.splits)
  ultimately show ?thesis using nub inv conjunct1 [OF reach_wf [OF assms(3)]] by blast
qed

subsection \<open>Progress reports\<close>

definition reports :: "nat \<Rightarrow> 'a val list \<Rightarrow> bool" where
  "reports i os \<longleftrightarrow> (\<exists>ns. os = map (\<lambda>n. working (of_nat n)) ns \<and> sorted ns \<and> (\<forall>n \<in> set ns. n \<le> i \<and> n < 100))"

definition counts :: "'a val list" where
  "counts = map (\<lambda>n. VUsize (of_nat n)) [0..<101]"

definition progress :: "'a rpar" where
  "progress = \<lparr>vals = counts, wr = 1,
     good = (\<lambda>i os. reports i os \<or> (\<exists>os'. os = os' @ [VStr ''Done!''] \<and> reports i os')),
     ends = (\<lambda>b i os. b \<longrightarrow> (\<exists>os'. os = os' @ [VStr ''Done!''] \<and> reports i os'))\<rparr>"

lemma reports_Nil: "reports i []"
  by (simp add: reports_def)

lemma reports_mono: "reports i os \<Longrightarrow> i \<le> j \<Longrightarrow> reports j os"
  unfolding reports_def by (elim exE) (rule_tac x = ns in exI, auto)

lemma reports_snoc: "reports i os \<Longrightarrow> i < 100 \<Longrightarrow> reports i (os @ [working (of_nat i)])"
  unfolding reports_def by (elim exE) (rule_tac x = "ns @ [i]" in exI, auto simp: sorted_append)

lemma progress_sel [simp]: "vals progress = counts" "wr progress = 1"
  "good progress i os \<longleftrightarrow> reports i os \<or> (\<exists>os'. os = os' @ [VStr ''Done!''] \<and> reports i os')"
  "ends progress b i os \<longleftrightarrow> (b \<longrightarrow> (\<exists>os'. os = os' @ [VStr ''Done!''] \<and> reports i os'))"
  by (simp_all add: progress_def)

lemma unat_small: "j < 101 \<Longrightarrow> unat (of_nat j :: 64 word) = j"
  by (simp add: unat_of_nat)

lemma counts_simps [simp]: "length counts = 101" "j < 101 \<Longrightarrow> counts ! j = VUsize (of_nat j)" "counts \<noteq> []"
  by (simp_all add: counts_def del: upt_rec_numeral)

lemma counts_distinct: "distinct (counts :: 'b val list)"
proof -
  have "inj_on (\<lambda>n. VUsize (of_nat n) :: 'b val) {0..<101}"
  proof (rule inj_onI)
    fix a b assume ab: "a \<in> {0..<101}" "b \<in> {0..<101}" and eq: "VUsize (of_nat a) = (VUsize (of_nat b) :: 'b val)"
    from eq have "(of_nat a :: 64 word) = of_nat b" by (simp only: val.inject)
    from arg_cong [OF this, of unat] unat_small [of a] unat_small [of b] ab show "a = b" by simp
  qed
  then show ?thesis by (simp add: counts_def distinct_map del: upt_rec_numeral)
qed

text \<open>One iteration of the main thread: it reports what it reads, or has seen 100.\<close>

lemma progress_load_ok:
  assumes "reports i os" "\<And>j. i \<le> j \<Longrightarrow> j < 101 \<Longrightarrow> rprog progress Q (Rp j 1 os True) (f (VUsize (of_nat j)))"
  shows "rprog progress Q (Rp i 1 os True) (bindp (load rvar Relaxed) f)"
proof (rule rload_ok)
  fix j assume j: "i \<le> j" "j < length (vals progress :: 'a val list)"
  then have l: "j < 101" by simp
  show "good progress j os \<and> rprog progress Q (Rp j 1 os True) (f (vals progress ! j))"
    using reports_mono [OF assms(1) j(1)] assms(2) [OF j(1) l] l by simp
qed simp

definition working_on :: "nat \<Rightarrow> 'a rst \<Rightarrow> bool" where
  "working_on n s \<longleftrightarrow> (\<exists>i os. s = Rp i 1 os True \<and> reports i os \<and> n \<le> i)"

lemma progress_loop_ok:
  assumes wait: "\<And>s. rprog progress (\<lambda>_ s'. s' = s) s (w :: ('a, unit) prog)" and os: "reports i os"
  shows "rprog progress (\<lambda>_. working_on 100) (Rp i 1 os True) (loop (\<lambda>_. bindp (load rvar Relaxed) (\<lambda>v.
       if as_usize v = 100 then Ret (Inr ()) else seqp (println (working (as_usize v))) (seqp w (Ret (Inl ()))))) ())"
proof (rule conforms_loop [where J = "\<lambda>_. working_on 0"])
  show "rtr progress s ITau r s" for s r by (cases s) simp
  show "working_on 0 (Rp i 1 os True)" using os by (simp add: working_on_def)
  fix s :: "'a rst" assume "working_on 0 s"
  then obtain i os where s: "s = Rp i 1 os True" and os: "reports i os" by (auto simp: working_on_def)
  let ?Q = "\<lambda>y s. case (y :: unit + unit) of Inl x \<Rightarrow> working_on 0 s | Inr x \<Rightarrow> working_on 100 s"
  show "rprog progress ?Q s (bindp (load rvar Relaxed) (\<lambda>v.
       if as_usize v = 100 then Ret (Inr ()) else seqp (println (working (as_usize v))) (seqp w (Ret (Inl ())))))"
    unfolding s
  proof (rule progress_load_ok [OF os])
    fix j assume j: "i \<le> j" "j < 101"
    note os' = reports_mono [OF os j(1)]
    show "rprog progress ?Q (Rp j 1 os True) (if as_usize (VUsize (of_nat j) :: 'a val) = 100 then Ret (Inr ())
        else seqp (println (working (as_usize (VUsize (of_nat j) :: 'a val)))) (seqp w (Ret (Inl ()))))"
    proof (cases "j = 100")
      case True
      with os' show ?thesis by (simp add: working_on_def)
    next
      case False
      with j have "(of_nat j :: 64 word) \<noteq> 100" using unat_small [OF j(2)] by auto
      moreover have "rprog progress ?Q (Rp j 1 (os @ [working (of_nat j)]) True) (seqp w (Ret (Inl ())))"
        by (rule conforms_seq [OF wait]) (use reports_snoc [OF os'] False j in \<open>auto simp: working_on_def\<close>)
      ultimately show ?thesis
        using reports_snoc [OF os'] False j by (simp add: println_def seqp_def conforms_Do_iff)
    qed
  qed
qed

lemma progress_end_ok:
  assumes "working_on 100 s"
  shows "rprog progress (\<lambda>_. rfin progress) s (seqp (join t) (println (VStr ''Done!'')))"
  using assms by (auto simp: working_on_def rfin_def conf_simps seqp_def)

lemma progress_main_ok: "rprog progress (\<lambda>_. rfin progress) (Rp 0 0 [] True) (progress_main :: ('a, unit) prog)"
proof -
  have "rprog progress (\<lambda>_. rfin progress) (Rp 0 1 [] True) (seqp (loop (\<lambda>_. bindp (load rvar Relaxed) (\<lambda>v.
       if as_usize v = 100 then Ret (Inr ()) else seqp (println (working (as_usize v))) (seqp sleep (Ret (Inl ()))))) ())
     (seqp (join t) (println (VStr ''Done!''))) :: ('a, unit) prog)" for t
  proof (rule conforms_seq [OF progress_loop_ok [OF _ reports_Nil]])
    show "rprog progress (\<lambda>_ s'. s' = s) s sleep" for s :: "'a rst" by (cases s) (simp add: conf_simps)
  qed (rule progress_end_ok)
  then show ?thesis by (simp add: progress_main_def num_done1_def rvar_def [symmetric] spawn_def conforms_Do_iff)
qed

lemma parking_main_ok: "rprog progress (\<lambda>_. rfin progress) (Rp 0 0 [] True) (parking_main :: ('a, unit) prog)"
proof -
  have "rprog progress (\<lambda>_. rfin progress) (Rp 0 1 [] True) (seqp (loop (\<lambda>_. bindp (load rvar Relaxed) (\<lambda>v.
       if as_usize v = 100 then Ret (Inr ()) else seqp (println (working (as_usize v))) (seqp park_timeout (Ret (Inl ()))))) ())
     (seqp (join t) (println (VStr ''Done!''))) :: ('a, unit) prog)" for t
  proof (rule conforms_seq [OF progress_loop_ok [OF _ reports_Nil]])
    show "rprog progress (\<lambda>_ s'. s' = s) s park_timeout" for s :: "'a rst" by (cases s) (simp add: conf_simps park_timeout_def)
  qed (rule progress_end_ok)
  then show ?thesis by (simp add: parking_main_def num_done1_def rvar_def [symmetric] spawn_def current_def conforms_Do_iff)
qed

text \<open>The writer.\<close>

lemma count_up_ok:
  assumes "\<And>s. rprog progress (\<lambda>_ s'. s' = s) s (w :: ('a, unit) prog)"
  shows "rprog progress (\<lambda>_. rfin progress) rchild (for_range 0 100 (\<lambda>i.
     seqp (process_item1 i) (seqp (store num_done1 (VUsize (of_nat i + 1)) Relaxed) w)))"
proof -
  let ?J = "\<lambda>is s. \<exists>i \<le> 100. is = [i..<100] \<and> s = Rp i 0 [] False"
  have "rprog progress (\<lambda>_. ?J []) rchild (for_range 0 100 (\<lambda>i.
     seqp (process_item1 i) (seqp (store num_done1 (VUsize (of_nat i + 1)) Relaxed) w)))" unfolding for_range_def
  proof (rule conforms_for_list)
    fix i "is" and s :: "'a rst" assume "?J (i # is) s"
    then have i: "i < 100" "is = [Suc i..<100]" and s: "s = Rp i 0 [] False" by (auto simp: upt_eq_Cons_conv dest: sym)
    have "rprog progress (\<lambda>_ s. s = Rp (Suc i) 0 [] False) (Rp i 0 [] False) (seqp (process_item1 i) (seqp (store num_done1 (VUsize (of_nat i + 1)) Relaxed) w))"
      using i assms [of "Rp (Suc i) 0 [] False"]
      by (simp add: conf_simps seqp_def process_item1_def num_done1_def rvar_def add.commute)
    then show "rprog progress (\<lambda>_. ?J is) s (seqp (process_item1 i) (seqp (store num_done1 (VUsize (of_nat i + 1)) Relaxed) w))"
      unfolding s by (rule conforms_mono) (use i in auto)
  qed (auto simp: rchild_def)
  then show ?thesis by (rule conforms_mono) (auto simp: rfin_def)
qed

lemma progress_thread_ok: "rprog progress (\<lambda>_. rfin progress) rchild progress_thread"
  using count_up_ok [of "Ret ()"] by (simp add: progress_thread_def seqp_def store_def)

lemma parking_thread_ok: "rprog progress (\<lambda>_. rfin progress) rchild (parking_thread (a :: 'a val))"
proof -
  have "rprog progress (\<lambda>_ s'. s' = s) s (unpark u)" for s :: "'a rst" and u by (cases s) (simp add: conf_simps)
  from count_up_ok [OF this] show ?thesis by (simp add: parking_thread_def)
qed

text \<open>
  C37. The progress reports (02-01-02, and 02-01-02-01 with parking): no undefined behaviour and no
  panic; the numbers that are reported never go back and are below 100, and when the main thread
  has ended the last line is \<open>Done!\<close>.
\<close>

theorem progress_main_reports:
  fixes c :: "'a config"
  assumes "main = progress_main \<and> code = (\<lambda>_. progress_thread) \<or> main = parking_main \<and> code = parking_thread"
    and "reach fx code (init_config [[VUsize 0]] main) c"
  shows "\<not> ub (mem c) \<and> (\<forall>t m. progs c t \<noteq> Some (Panic m)) \<and>
    (\<exists>ns. sorted ns \<and> set ns \<subseteq> {..<100} \<and> (out (mem c) = map (\<lambda>n. working (of_nat n)) ns \<and> \<not> finished c 0 \<or>
      out (mem c) = map (\<lambda>n. working (of_nat n)) ns @ [VStr ''Done!'']))"
proof -
  have ok: "rprog progress (\<lambda>_. rfin progress) (Rp 0 0 [] True) main" "rprog progress (\<lambda>_. rfin progress) rchild (code a)" for a
    using assms(1) progress_main_ok parking_main_ok progress_thread_ok parking_thread_ok by auto
  have "reach fx code (init_config [[vals progress ! 0]] main) c" using assms(2) by simp
  from report_reach [OF ok this] counts_distinct obtain S where safe: "\<not> ub (mem c) \<and> (\<forall>t m. progs c t \<noteq> Some (Panic m))"
    and inv: "rinv progress S (mem c)" and fin: "finished c 0 \<Longrightarrow> rfin progress (S 0)" by (auto simp: reports_Nil)
  from inv have S: "lead (S 0)" "out (mem c) = prints (S 0)" "good progress (ix (S 0)) (out (mem c))" by (auto simp: rinv_def rplan_def)
  have *: "\<exists>ns. sorted ns \<and> set ns \<subseteq> {..<100} \<and> os = map (\<lambda>n. working (of_nat n)) ns" if "reports (ix (S 0)) os" for os :: "'a val list"
    using that unfolding reports_def by auto
  have "reports (ix (S 0)) (out (mem c)) \<and> \<not> finished c 0 \<or> (\<exists>os. out (mem c) = os @ [VStr ''Done!''] \<and> reports (ix (S 0)) os)"
    using S fin by (auto simp: rfin_def)
  with * safe show ?thesis by metis
qed

theorem progress_main_reports_witness:
  "\<exists>c :: nat config. \<not> ub (mem c) \<and> out (mem c) = [working 0]"
proof -
  let ?body = "\<lambda>_ :: unit. bindp (load num_done1 Relaxed) (\<lambda>v.
       if as_usize v = 100 then Ret (Inr ()) else seqp (println (working (as_usize v))) (seqp sleep (Ret (Inl ())))) :: (nat, unit + unit) prog"
  obtain q where q: "loop ?body () = bindp (?body ()) q" using loop_first [of ?body "()"] by blast
  then have main: "progress_main = bindp (spawn VUnit) (\<lambda>t. seqp (bindp (?body ()) q) (seqp (join t) (println (VStr ''Done!''))))"
    by (simp only: progress_main_def)
  obtain c :: "nat config" where c: "run (\<lambda>_ _ _ _. True) (\<lambda>_. progress_thread) (sched [(0, 0), (0, 0), (0, 0)])
      (init_config [[VUsize 0]] progress_main) = Some c" "out (mem c) = [working 0]"
    by (simp add: run_simps main num_done1_def)
  from progress_main_reports [OF _ run_reach [OF c(1)]] c(2) show ?thesis by blast
qed

subsection \<open>The stop flag\<close>

definition stopping :: "'a rpar" where
  "stopping = \<lparr>vals = [VBool False, VBool True], wr = 0,
     good = (\<lambda>i os. set os \<subseteq> insert (VStr ''commands: help, stop'') {VList [VStr ''unknown command: '', VStr cmd] | cmd. cmd \<notin> {''help'', ''stop''}}),
     ends = (\<lambda>b i os. i = 1)\<rparr>"

lemma stopping_sel [simp]: "vals stopping = [VBool False, VBool True]" "wr stopping = 0"
  "good stopping i os \<longleftrightarrow> set os \<subseteq> insert (VStr ''commands: help, stop'') {VList [VStr ''unknown command: '', VStr cmd] | cmd. cmd \<notin> {''help'', ''stop''}}"
  "ends stopping b i os \<longleftrightarrow> i = 1"
  by (simp_all add: stopping_def)








subsection \<open>The futex\<close>

definition waiting :: "'a rpar" where
  "waiting = \<lparr>vals = [VU32 0, VU32 1], wr = 1,
     good = (\<lambda>i os. os \<in> {[], [VStr ''Waiting...'']} \<or> i = 1 \<and> os = [VStr ''Waiting...'', VStr ''Done!'']),
     ends = (\<lambda>b i os. b \<longrightarrow> i = 1 \<and> os = [VStr ''Waiting...'', VStr ''Done!''])\<rparr>"

lemma waiting_sel [simp]: "vals waiting = [VU32 0, VU32 1]" "wr waiting = 1"
  "good waiting i os \<longleftrightarrow> os \<in> {[], [VStr ''Waiting...'']} \<or> i = 1 \<and> os = [VStr ''Waiting...'', VStr ''Done!'']"
  "ends waiting b i os \<longleftrightarrow> (b \<longrightarrow> i = 1 \<and> os = [VStr ''Waiting...'', VStr ''Done!''])"
  by (simp_all add: waiting_def)

lemma futex_wait_ok:
  "rprog waiting (\<lambda>_ s. s = Rp 1 1 [VStr ''Waiting...''] True) (Rp 0 1 [VStr ''Waiting...''] True)
     (while_do (bindp (load futex_var Relaxed) (\<lambda>v. Ret (as_u32 v = 0))) (wait futex_var (VU32 0)) :: ('a, unit) prog)"
proof (rule conforms_while [where J = "\<lambda>s. \<exists>i. s = Rp i 1 [VStr ''Waiting...''] True" and C = "\<lambda>s. \<exists>i. s = Rp i 1 [VStr ''Waiting...''] True"])
  show "rtr waiting s ITau r s" for s r by (cases s) simp
  fix s :: "'a rst" assume "\<exists>i. s = Rp i 1 [VStr ''Waiting...''] True"
  then obtain i where s: "s = Rp i 1 [VStr ''Waiting...''] True" by blast
  show "rprog waiting (\<lambda>_ s. \<exists>i. s = Rp i 1 [VStr ''Waiting...''] True) s (wait futex_var (VU32 0))" unfolding s by (simp add: conf_simps)
  show "rprog waiting (\<lambda>b s. if b then \<exists>i. s = Rp i 1 [VStr ''Waiting...''] True else s = Rp 1 1 [VStr ''Waiting...''] True) s
      (bindp (load futex_var Relaxed) (\<lambda>v. Ret (as_u32 v = 0)))"
    unfolding s futex_var_def rvar_def [symmetric] by (rule rload_ok) (auto simp: less_Suc_eq)
qed simp

lemma futex_main_ok: "rprog waiting (\<lambda>_. rfin waiting) (Rp 0 0 [] True) (futex_main :: ('a, unit) prog)"
proof -
  have "rprog waiting (\<lambda>_. rfin waiting) (Rp 0 1 [VStr ''Waiting...''] True)
     (seqp (while_do (bindp (load futex_var Relaxed) (\<lambda>v. Ret (as_u32 v = 0))) (wait futex_var (VU32 0)))
     (seqp (println (VStr ''Done!'')) (join t)) :: ('a, unit) prog)" for t
    by (rule conforms_seq [OF futex_wait_ok]) (auto simp: conf_simps seqp_def rfin_def)
  then show ?thesis by (simp add: futex_main_def seqp_def spawn_def println_def conforms_Do_iff)
qed

lemma futex_thread_ok: "rprog waiting (\<lambda>_. rfin waiting) rchild futex_thread"
  by (auto simp: futex_thread_def conf_simps seqp_def futex_var_def rvar_def rchild_def rfin_def)

text \<open>
  C39. The example of the futex (08-03-01), whenever the system call returns, spurious wake-ups
  included: no undefined behaviour and no panic; the second line is printed only after 1 has
  been stored, and the main thread does not end without it.
\<close>

theorem futex_main_prints:
  assumes "reach fx (\<lambda>_. futex_thread) (init_config [[VU32 0]] futex_main) c"
  shows "\<not> ub (mem c) \<and> (\<forall>t m. progs c t \<noteq> Some (Panic m)) \<and>
    (out (mem c) \<in> {[], [VStr ''Waiting...'']} \<and> \<not> finished c 0 \<or>
     out (mem c) = [VStr ''Waiting...'', VStr ''Done!''] \<and> (\<exists>k m. hist (mem c) futex_var k = Some m \<and> mval m = VU32 1))"
proof -
  have "reach fx (\<lambda>_. futex_thread) (init_config [[vals waiting ! 0]] futex_main) c" using assms by simp
  from report_reach [OF futex_main_ok futex_thread_ok this] obtain S where safe: "\<not> ub (mem c) \<and> (\<forall>t m. progs c t \<noteq> Some (Panic m))"
    and inv: "rinv waiting S (mem c)" and wf: "wf_mem (mem c)" and fin: "finished c 0 \<Longrightarrow> rfin waiting (S 0)" by auto
  from inv obtain f where h: "rhist waiting S (mem c) f" and S: "lead (S 0)" "out (mem c) = prints (S 0)" "0 < nthreads (mem c)"
    and good: "good waiting (ix (S 0)) (out (mem c))" by (auto simp: rinv_def rplan_def)
  have "\<exists>k m. hist (mem c) futex_var k = Some m \<and> mval m = VU32 1" if "ix (S 0) = 1"
    using seen_last [OF h wf S(3)] that by (auto simp: futex_var_def rvar_def)
  with good fin S safe show ?thesis by (auto simp: rfin_def)
qed

theorem futex_main_prints_witness:
  "\<exists>c :: nat config. \<not> ub (mem c) \<and> out (mem c) = [VStr ''Waiting...'', VStr ''Done!''] \<and> finished c 0"
proof -
  let ?body = "\<lambda>_ :: unit. bindp (bindp (load futex_var Relaxed) (\<lambda>v. Ret (as_u32 v = 0)))
      (\<lambda>b. if b then bindp (wait futex_var (VU32 0)) (\<lambda>_. Ret (Inl ())) else Ret (Inr ())) :: (nat, unit + unit) prog"
  obtain q where q: "loop ?body () = bindp (?body ()) q" "\<And>x. q (Inr x) = Ret x" using loop_first [of ?body "()"] by blast
  then have main: "futex_main = bindp (spawn VUnit) (\<lambda>t. seqp (println (VStr ''Waiting...''))
      (seqp (bindp (?body ()) q) (seqp (println (VStr ''Done!'')) (join t))))" by (simp only: futex_main_def while_do_def)
  obtain c :: "nat config" where c: "run (\<lambda>_ _ _ _. True) (\<lambda>_. futex_thread)
      (sched [(0, 0), (0, 0), (1, 0), (1, 1), (0, 1), (0, 0), (1, 0), (0, 0)])
      (init_config [[VU32 0]] futex_main) = Some c" "out (mem c) = [VStr ''Waiting...'', VStr ''Done!'']" "finished c 0"
    by (simp add: run_simps main q(2) futex_thread_def futex_var_def)
  from futex_main_prints [OF run_reach [OF c(1)]] c(2-) show ?thesis by blast
qed

end
