(* ===== verification/Spec2Isabelle.thy ===== *)
theory Spec2Isabelle
  imports Spin_Locks Mutexes Arcs Channels Ids Litmus Mod_Order Seq_Cst Queues Stats Fence Lazy_Ptr Reports
begin

text \<open>
  A verification of the examples of "Rust Atomics and Locks" in the repository.
\<close>

end
